(* ===== verification/Prelude.thy ===== *)
theory Prelude
  imports Main "HOL-Library.Word" "HOL-Library.Multiset" "HOL-Library.Sublist"
begin

text \<open>
  Shared vocabulary of the development: the names of the Go types the components use, the
  two context errors, the gRPC status values the code returns, and the generic facts on
  lists and sums that the component theories rely on.

  Go's \<open>int\<close> and \<open>int64\<close> byte and operation counts are modelled as \<open>int\<close>. Every such count is
  bounded by a configured limit and the code compares with subtractions (\<open>bytes > limit - used\<close>)
  so that no sum is formed before it is known to fit; the theories prove these bounds as
  invariants. Unsigned values whose wrap-around can be reached (budget settlements, revision
  counters, hashes) are \<open>64 word\<close> or \<open>8 word\<close>.
\<close>

section \<open>Names\<close>

type_synonym byte = "8 word"
type_synonym bytes = "byte list"
type_synonym uint64 = "64 word"

text \<open>The collections that carry the component proofs.\<close>

named_theorems inv_simps \<open>unfolding rules of component invariants\<close>
named_theorems keeps \<open>invariant preservation by one operation\<close>

section \<open>Context and status errors\<close>

text \<open>\<open>context.Context.Err()\<close> is nil, \<open>context.Canceled\<close> or \<open>context.DeadlineExceeded\<close>.\<close>

datatype ctx_err = CtxCanceled | CtxDeadline

datatype code =
    OK | Canceled | Unknown | InvalidArgument | DeadlineExceeded | NotFound | AlreadyExists
  | PermissionDenied | ResourceExhausted | FailedPrecondition | Aborted | OutOfRange
  | Unimplemented | Internal | Unavailable | DataLoss | Unauthenticated

text \<open>
  The error values grpc-go builds, kept symbolic: \<open>status_error c m\<close> is what \<open>status.Error(c, m)\<close>
  returns and \<open>fromContextError e\<close> what \<open>status.FromContextError(e).Err()\<close> returns. Nothing is
  assumed of how that library maps a context error to a code or renders a status as text.
\<close>

datatype status = status_error code string | fromContextError ctx_err

section \<open>Decimal numerals\<close>

text \<open>How \<open>%d\<close> prints a natural number.\<close>

fun dec :: "nat \<Rightarrow> string" where
  "dec n = (if n < 10 then [] else dec (n div 10)) @ [char_of (48 + n mod 10)]"

declare dec.simps [simp del]

section \<open>Lists used as stores\<close>

text \<open>
  Heap objects that the code shares by pointer are cells of a list; a pointer is the index of
  its cell and allocation appends a cell.
\<close>

lemma sum_list_update_int:
  fixes f :: "'a \<Rightarrow> int"
  assumes "i < length xs"
  shows "sum_list (map f (xs[i := y])) = sum_list (map f xs) - f (xs ! i) + f y"
  using assms
proof (induction xs arbitrary: i)
  case Nil
  then show ?case by simp
next
  case (Cons x xs)
  then show ?case by (cases i) auto
qed

lemma sum_list_nonneg_int:
  fixes f :: "'a \<Rightarrow> int"
  assumes "\<And>x. x \<in> set xs \<Longrightarrow> 0 \<le> f x"
  shows "0 \<le> sum_list (map f xs)"
  using assms by (induction xs) auto

lemma sum_list_mono_int:
  fixes f g :: "'a \<Rightarrow> int"
  assumes "\<And>x. x \<in> set xs \<Longrightarrow> f x \<le> g x"
  shows "sum_list (map f xs) \<le> sum_list (map g xs)"
  using assms by (induction xs) (auto intro: add_mono)

lemma member_le_sum_list_int:
  fixes f :: "'a \<Rightarrow> int"
  assumes "i < length xs" and "\<And>x. x \<in> set xs \<Longrightarrow> 0 \<le> f x"
  shows "f (xs ! i) \<le> sum_list (map f xs)"
  using assms
proof (induction xs arbitrary: i)
  case Nil
  then show ?case by simp
next
  case (Cons x xs)
  show ?case
  proof (cases i)
    case 0
    with Cons.prems show ?thesis by (simp add: sum_list_nonneg_int)
  next
    case (Suc j)
    with Cons.prems have "f (xs ! j) \<le> sum_list (map f xs)"
      by (intro Cons.IH) auto
    moreover from Cons.prems(2) have "0 \<le> f x" by simp
    ultimately show ?thesis using Suc by simp
  qed
qed

lemma sum_list_zero_int:
  fixes f :: "'a \<Rightarrow> int"
  assumes "\<And>x. x \<in> set xs \<Longrightarrow> f x = 0"
  shows "sum_list (map f xs) = 0"
  using assms by (induction xs) auto

lemma set_list_update_memI:
  "x \<in> set (xs[i := y]) \<Longrightarrow> x = y \<or> x \<in> set xs"
  by (meson insertE set_update_subset_insert subsetD)

lemma length_remove1_less:
  "x \<in> set xs \<Longrightarrow> length (remove1 x xs) < length xs"
  by (metis One_nat_def diff_less length_pos_if_in_set length_remove1 zero_less_one)

lemma nth_update_if: "(xs[i := y]) ! j = (if i = j \<and> i < length xs then y else xs ! j)"
  by (cases "i < length xs") (simp_all add: nth_list_update list_update_beyond)

lemma remove1_nth:
  assumes "distinct xs" "i < length xs"
  shows "remove1 (xs ! i) xs = take i xs @ drop (Suc i) xs"
proof -
  have "xs = take i xs @ xs ! i # drop (Suc i) xs"
    using assms(2) by (rule id_take_nth_drop)
  moreover have "xs ! i \<notin> set (take i xs)"
    using assms by (simp add: distinct_conv_nth in_set_conv_nth)
  ultimately show ?thesis
    by (metis remove1_append remove1.simps(2))
qed

lemma subseq_set: "subseq xs ys \<Longrightarrow> set xs \<subseteq> set ys"
  by (auto simp: subset_iff dest: list_emb_set)

lemma length_le_of_subset: "distinct xs \<Longrightarrow> set xs \<subseteq> set ys \<Longrightarrow> length xs \<le> length ys"
  by (metis card_length card_mono distinct_card finite_set le_trans)

lemma distinct_mset_mono:
  assumes "mset xs \<subseteq># mset ys" "distinct ys"
  shows "distinct xs"
proof -
  have "count (mset xs) a \<le> 1" for a
    using assms by (metis distinct_count_atmost_1 le_trans mset_subset_eq_count zero_le_one order_refl)
  then show ?thesis
    by (metis count_mset_0_iff distinct_count_atmost_1 le_neq_implies_less less_one)
qed

lemma mset_filter_split: "mset xs = mset (filter P xs) + mset (filter (\<lambda>x. \<not> P x) xs)"
  by (induction xs) auto

end
