(* ===== verification/Capacity_Pool.thy ===== *)
theory Capacity_Pool
  imports Prelude
begin

text \<open>
  The process memory pool, \<open>src/internal/capacity/pool.go\<close>: a total capacity with a reserve that
  one owner at a time may borrow to finish its responses, leases that hold bytes for an owner,
  and a queue of waiting acquisitions. Owners, leases and waiters are heap cells; the pool
  record holds the cells next to the fields of \<open>Pool\<close>. Each definition is one critical section
  of \<open>Pool.mu\<close>; \<open>Lease.Grow\<close> has two of them, before and after it waits. The step relation
  interleaves the critical sections of any number of callers.
  Metrics (\<open>observed\<close>) and the time stamps they need are not modelled.
\<close>

section \<open>State\<close>

datatype phase = Request | Response | OtherPhase

record options =
  o_Bytes :: int
  o_BurstPercent :: int
  o_WaitTimeout :: int
  o_MaxWaiters :: int

record lease =
  l_owner :: nat
  l_bytes :: int
  l_closed :: bool
  l_opaque :: bool

record waiter =
  w_lease :: nat
  w_bytes :: int
  w_phase :: phase
  w_ready :: bool
  w_granted :: bool

record pool =
  p_total :: int
  p_normal :: int
  p_used :: int
  p_opaque :: int
  p_burstOwner :: "nat option"
  p_waiters :: "nat list"
  p_maxWaiters :: int
  p_owners :: "int list"
  p_leases :: "lease list"
  p_cells :: "waiter list"

definition New :: "options \<Rightarrow> string + pool" where
  "New opts =
     (if o_Bytes opts < 1024 \<or> o_BurstPercent opts < 1 \<or> o_BurstPercent opts > 99 \<or> o_WaitTimeout opts \<le> 0
      then Inl ''memory capacity requires at least 1KiB, burst_percent between 1 and 99, and a positive wait timeout''
      else
        let burst = o_Bytes opts div 100 * o_BurstPercent opts;
            maxWaiters = (if o_MaxWaiters opts = 0 then 1024 else o_MaxWaiters opts)
        in if maxWaiters < 0 then Inl ''memory max_waiters must be positive''
           else Inr \<lparr>p_total = o_Bytes opts, p_normal = o_Bytes opts - burst, p_used = 0, p_opaque = 0,
                     p_burstOwner = None, p_waiters = [], p_maxWaiters = maxWaiters,
                     p_owners = [], p_leases = [], p_cells = []\<rparr>)"

definition NewOwner :: "pool \<Rightarrow> nat \<times> pool" where
  "NewOwner p = (length (p_owners p), p\<lparr>p_owners := p_owners p @ [0]\<rparr>)"

definition NewLease :: "nat \<Rightarrow> pool \<Rightarrow> nat \<times> pool" where
  "NewLease o' p =
     (length (p_leases p),
      p\<lparr>p_leases := p_leases p @ [\<lparr>l_owner = o', l_bytes = 0, l_closed = False, l_opaque = False\<rparr>]\<rparr>)"

definition Limit :: "pool \<Rightarrow> int" where
  "Limit p = p_total p"

definition Bytes :: "nat \<Rightarrow> pool \<Rightarrow> int" where
  "Bytes lid p = l_bytes (p_leases p ! lid)"

definition Used :: "pool \<Rightarrow> int" where
  "Used p = p_used p"

section \<open>Granting\<close>

text \<open>\<open>remove\<close> deletes the first queued pointer equal to its target.\<close>

definition pool_remove :: "nat \<Rightarrow> pool \<Rightarrow> pool" where
  "pool_remove wid p = p\<lparr>p_waiters := remove1 wid (p_waiters p)\<rparr>"

definition wait_owner :: "nat \<Rightarrow> pool \<Rightarrow> nat" where
  "wait_owner wid p = l_owner (p_leases p ! w_lease (p_cells p ! wid))"

text \<open>The limit \<open>dispatch\<close> holds a waiter of a phase to.\<close>

definition grant_limit :: "phase \<Rightarrow> nat \<Rightarrow> pool \<Rightarrow> int" where
  "grant_limit ph wid p =
     (if ph = Response \<and> (p_burstOwner p = None \<or> p_burstOwner p = Some (wait_owner wid p))
      then p_total p else p_normal p)"

text \<open>The body of \<open>dispatch\<close> for a waiter that fits.\<close>

definition grant :: "nat \<Rightarrow> pool \<Rightarrow> pool" where
  "grant wid p =
     (let w = p_cells p ! wid;
          n = w_bytes w;
          lid = w_lease w;
          l = p_leases p ! lid;
          own = l_owner l
      in p\<lparr>p_burstOwner := (if p_used p + n > p_normal p then Some own else p_burstOwner p),
           p_used := p_used p + n,
           p_opaque := (if l_opaque l then p_opaque p + n else p_opaque p),
           p_leases := (p_leases p)[lid := l\<lparr>l_bytes := l_bytes l + n\<rparr>],
           p_owners := (p_owners p)[own := p_owners p ! own + n],
           p_cells := (p_cells p)[wid := w\<lparr>w_granted := True, w_ready := True\<rparr>],
           p_waiters := remove1 wid (p_waiters p)\<rparr>)"

lemma grant_waiters [simp]: "p_waiters (grant wid p) = remove1 wid (p_waiters p)"
  by (simp add: grant_def Let_def)

text \<open>
  One iteration of \<open>dispatch\<close>'s outer loop: walk the queue by index, skip other phases, leave
  what does not fit and grant the rest. The result says whether a response is still pending.
\<close>

function dispatch_loop :: "phase \<Rightarrow> nat \<Rightarrow> bool \<Rightarrow> pool \<Rightarrow> bool \<times> pool" where
  "dispatch_loop ph i pending p =
     (if i < length (p_waiters p) then
        let wid = p_waiters p ! i; w = p_cells p ! wid in
        if w_phase w \<noteq> ph then dispatch_loop ph (Suc i) pending p
        else if w_bytes w > grant_limit ph wid p - p_used p
             then dispatch_loop ph (Suc i) (ph = Response) p
             else dispatch_loop ph i pending (grant wid p)
      else (pending, p))"
  by pat_completeness auto

termination
proof (relation "measure (\<lambda>(ph, i, pending, p). length (p_waiters p) - i)", goal_cases)
  case (4 ph i pending p wid w)
  then have "wid \<in> set (p_waiters p)" by simp
  then have "length (remove1 wid (p_waiters p)) < length (p_waiters p)"
    by (rule length_remove1_less)
  with 4 show ?case by simp
qed auto

declare dispatch_loop.simps [simp del]

definition dispatch :: "pool \<Rightarrow> pool" where
  "dispatch p =
     (let (pending, p1) = dispatch_loop Response 0 False p
      in if pending then p1 else snd (dispatch_loop Request 0 False p1))"

section \<open>Releasing\<close>

definition releaseLocked :: "nat \<Rightarrow> int \<Rightarrow> pool \<Rightarrow> pool" where
  "releaseLocked lid n p =
     (let l = p_leases p ! lid;
          own = l_owner l;
          owners = (p_owners p)[own := p_owners p ! own - n];
          used = p_used p - n
      in p\<lparr>p_leases := (p_leases p)[lid := l\<lparr>l_bytes := l_bytes l - n\<rparr>],
           p_owners := owners,
           p_used := used,
           p_opaque := (if l_opaque l then p_opaque p - n else p_opaque p),
           p_burstOwner :=
             (if used \<le> p_normal p \<or> (p_burstOwner p = Some own \<and> owners ! own = 0)
              then None else p_burstOwner p)\<rparr>)"

definition Shrink :: "nat \<Rightarrow> int \<Rightarrow> pool \<Rightarrow> pool" where
  "Shrink lid n p =
     (if l_closed (p_leases p ! lid) \<or> n \<le> 0 then p
      else dispatch (releaseLocked lid (min n (l_bytes (p_leases p ! lid))) p))"

text \<open>The loop of \<open>Close\<close> over the queue: drop the lease's waiters and wake their callers.\<close>

definition wake_closed :: "nat \<Rightarrow> pool \<Rightarrow> pool" where
  "wake_closed wid p =
     (pool_remove wid p)\<lparr>p_cells := (p_cells p)[wid := (p_cells p ! wid)\<lparr>w_ready := True\<rparr>]\<rparr>"

lemma wake_closed_waiters [simp]: "p_waiters (wake_closed wid p) = remove1 wid (p_waiters p)"
  by (simp add: wake_closed_def pool_remove_def)

function close_loop :: "nat \<Rightarrow> nat \<Rightarrow> pool \<Rightarrow> pool" where
  "close_loop lid i p =
     (if i < length (p_waiters p) then
        let wid = p_waiters p ! i in
        if w_lease (p_cells p ! wid) \<noteq> lid then close_loop lid (Suc i) p
        else close_loop lid i (wake_closed wid p)
      else p)"
  by pat_completeness auto

termination
proof (relation "measure (\<lambda>(lid, i, p). length (p_waiters p) - i)", goal_cases)
  case (3 lid i p wid)
  then have "wid \<in> set (p_waiters p)" by simp
  then have "length (remove1 wid (p_waiters p)) < length (p_waiters p)"
    by (rule length_remove1_less)
  with 3 show ?case by simp
qed auto

declare close_loop.simps [simp del]

definition Close :: "nat \<Rightarrow> pool \<Rightarrow> pool" where
  "Close lid p =
     (let l = p_leases p ! lid in
      if l_closed l then p
      else
        let p1 = p\<lparr>p_leases := (p_leases p)[lid := l\<lparr>l_closed := True\<rparr>]\<rparr>;
            p2 = releaseLocked lid (l_bytes l) p1
        in dispatch (close_loop lid 0 p2))"

definition MarkOpaque :: "nat \<Rightarrow> pool \<Rightarrow> pool" where
  "MarkOpaque lid p =
     (let l = p_leases p ! lid in
      if l_opaque l then p
      else p\<lparr>p_leases := (p_leases p)[lid := l\<lparr>l_opaque := True\<rparr>],
             p_opaque := p_opaque p + l_bytes l\<rparr>)"

section \<open>Growing\<close>

datatype grow_error =
    InvalidAcquisition
  | CtxStatus status
  | LeaseClosed
  | Oversize
  | Busy
  | ClosedWaiting
  | WaitTimedOut

datatype grow_progress = Finished "grow_error + unit" | Waiting nat

text \<open>
  The first critical section of \<open>Grow\<close>, up to the \<open>select\<close>. \<open>cerr\<close> is \<open>ctx.Err()\<close>.
  \<open>Waiting\<close> carries the waiter the caller blocks on.
\<close>

definition grow_begin :: "ctx_err option \<Rightarrow> nat \<Rightarrow> int \<Rightarrow> phase \<Rightarrow> pool \<Rightarrow> grow_progress \<times> pool" where
  "grow_begin cerr lid n ph p =
     (if n < 0 \<or> (ph \<noteq> Request \<and> ph \<noteq> Response) then (Finished (Inl InvalidAcquisition), p)
      else case cerr of Some e \<Rightarrow> (Finished (Inl (CtxStatus (fromContextError e))), p)
      | None \<Rightarrow>
        let l = p_leases p ! lid;
            limit = (if ph = Request then p_normal p else p_total p)
        in if l_closed l then (Finished (Inl LeaseClosed), p)
           else if n > limit - p_owners p ! l_owner l then (Finished (Inl Oversize), p)
           else if n = 0 then (Finished (Inr ()), p)
           else
             let wid = length (p_cells p);
                 w = \<lparr>w_lease = lid, w_bytes = n, w_phase = ph, w_ready = False, w_granted = False\<rparr>;
                 p1 = dispatch (p\<lparr>p_cells := p_cells p @ [w], p_waiters := p_waiters p @ [wid]\<rparr>)
             in if w_granted (p_cells p1 ! wid) then (Finished (Inr ()), p1)
                else if ph = Request \<or> int (length (p_waiters p1)) > p_maxWaiters p1
                     then (Finished (Inl Busy), pool_remove wid p1)
                     else (Waiting wid, p1))"

text \<open>
  The second critical section, after the waiter was woken or its waiting context ended.
  \<open>cerr\<close> is \<open>ctx.Err()\<close> and \<open>werr\<close> is \<open>waitCtx.Err()\<close>.
\<close>

definition grow_finish ::
    "ctx_err option \<Rightarrow> ctx_err option \<Rightarrow> nat \<Rightarrow> int \<Rightarrow> nat \<Rightarrow> pool \<Rightarrow> (grow_error + unit) \<times> pool" where
  "grow_finish cerr werr lid n wid p =
     (let l = p_leases p ! lid; granted = w_granted (p_cells p ! wid) in
      if l_closed l then (Inl ClosedWaiting, p)
      else if werr \<noteq> None then
        (case cerr of Some e \<Rightarrow> Inl (CtxStatus (fromContextError e)) | None \<Rightarrow> Inl WaitTimedOut,
         dispatch (if granted then releaseLocked lid (min n (l_bytes l)) p else pool_remove wid p))
      else if \<not> granted then (Inl ClosedWaiting, dispatch (pool_remove wid p))
      else (Inr (), p))"

section \<open>Accounting\<close>

definition lease_sum :: "(lease \<Rightarrow> bool) \<Rightarrow> pool \<Rightarrow> int" where
  "lease_sum P p = sum_list (map (\<lambda>l. if P l then l_bytes l else 0) (p_leases p))"

definition acct :: "pool \<Rightarrow> bool" where
  "acct p \<longleftrightarrow>
     p_used p = lease_sum (\<lambda>_. True) p \<and>
     p_opaque p = lease_sum l_opaque p \<and>
     (\<forall>o' < length (p_owners p). p_owners p ! o' = lease_sum (\<lambda>l. l_owner l = o') p) \<and>
     (\<forall>l \<in> set (p_leases p). 0 \<le> l_bytes l \<and> l_owner l < length (p_owners p))"

definition limits :: "pool \<Rightarrow> bool" where
  "limits p \<longleftrightarrow>
     0 \<le> p_normal p \<and> p_normal p \<le> p_total p \<and> p_used p \<le> p_total p \<and>
     (case p_burstOwner p of
        None \<Rightarrow> p_used p \<le> p_normal p
      | Some b \<Rightarrow> b < length (p_owners p) \<and> p_normal p < p_used p \<and>
                  p_used p - p_owners p ! b \<le> p_normal p)"

definition queued_ok :: "pool \<Rightarrow> nat \<Rightarrow> bool" where
  "queued_ok p wid \<longleftrightarrow>
     wid < length (p_cells p) \<and>
     (let w = p_cells p ! wid in
      w_lease w < length (p_leases p) \<and> 0 < w_bytes w \<and> w_bytes w \<le> p_total p \<and> \<not> w_granted w \<and> \<not> w_ready w \<and>
      \<not> l_closed (p_leases p ! w_lease w))"

definition pool_inv :: "pool \<Rightarrow> bool" where
  "pool_inv p \<longleftrightarrow>
     acct p \<and> limits p \<and> distinct (p_waiters p) \<and> (\<forall>wid \<in> set (p_waiters p). queued_ok p wid) \<and>
     (\<forall>l \<in> set (p_leases p). l_closed l \<longrightarrow> l_bytes l = 0)"

lemma lease_sum_update:
  assumes "lid < length (p_leases p)"
  shows "lease_sum P (p\<lparr>p_leases := (p_leases p)[lid := l]\<rparr>) =
    lease_sum P p - (if P (p_leases p ! lid) then l_bytes (p_leases p ! lid) else 0)
      + (if P l then l_bytes l else 0)"
  using assms by (simp add: lease_sum_def sum_list_update_int)

lemma lease_sum_leases: "p_leases p = p_leases q \<Longrightarrow> lease_sum P p = lease_sum P q"
  by (simp add: lease_sum_def)

text \<open>Adding a signed amount to one lease, its owner and the totals keeps the books balanced.\<close>

definition shift_bytes :: "nat \<Rightarrow> int \<Rightarrow> pool \<Rightarrow> pool" where
  "shift_bytes lid d p =
     (let l = p_leases p ! lid; own = l_owner l in
      p\<lparr>p_used := p_used p + d,
        p_opaque := (if l_opaque l then p_opaque p + d else p_opaque p),
        p_leases := (p_leases p)[lid := l\<lparr>l_bytes := l_bytes l + d\<rparr>],
        p_owners := (p_owners p)[own := p_owners p ! own + d]\<rparr>)"

lemma shift_bytes_sum:
  assumes "lid < length (p_leases p)"
    and "\<And>l n. P (l\<lparr>l_bytes := n\<rparr>) = P l"
  shows "lease_sum P (shift_bytes lid d p) =
    lease_sum P p + (if P (p_leases p ! lid) then d else 0)"
  using assms by (simp add: lease_sum_def shift_bytes_def Let_def sum_list_update_int)

lemma shift_bytes_acct:
  assumes a: "acct p" and lid: "lid < length (p_leases p)" and nn: "0 \<le> l_bytes (p_leases p ! lid) + d"
  shows "acct (shift_bytes lid d p)"
proof -
  let ?l = "p_leases p ! lid"
  have own: "l_owner ?l < length (p_owners p)"
    using a lid by (auto simp: acct_def)
  have sums: "lease_sum (\<lambda>_. True) (shift_bytes lid d p) = lease_sum (\<lambda>_. True) p + d"
    "lease_sum l_opaque (shift_bytes lid d p) = lease_sum l_opaque p + (if l_opaque ?l then d else 0)"
    "\<And>o'. lease_sum (\<lambda>l. l_owner l = o') (shift_bytes lid d p) =
       lease_sum (\<lambda>l. l_owner l = o') p + (if l_owner ?l = o' then d else 0)"
    using lid by (simp_all add: shift_bytes_sum)
  have fields: "p_used (shift_bytes lid d p) = p_used p + d"
    "p_opaque (shift_bytes lid d p) = (if l_opaque ?l then p_opaque p + d else p_opaque p)"
    "p_owners (shift_bytes lid d p) = (p_owners p)[l_owner ?l := p_owners p ! l_owner ?l + d]"
    "p_leases (shift_bytes lid d p) = (p_leases p)[lid := ?l\<lparr>l_bytes := l_bytes ?l + d\<rparr>]"
    by (simp_all add: shift_bytes_def Let_def)
  have owners: "p_owners (shift_bytes lid d p) ! o' =
      lease_sum (\<lambda>l. l_owner l = o') (shift_bytes lid d p)"
    if "o' < length (p_owners p)" for o'
    using a own that by (auto simp: acct_def sums fields nth_list_update)
  have leases: "0 \<le> l_bytes l \<and> l_owner l < length (p_owners p)"
    if "l \<in> set (p_leases (shift_bytes lid d p))" for l
    using a own nn that by (auto simp: acct_def fields dest!: set_list_update_memI)
  from a owners leases show ?thesis
    by (simp add: acct_def sums fields)
qed

lemma lease_nth [simp]:
  assumes "acct p" "lid < length (p_leases p)"
  shows "l_owner (p_leases p ! lid) < length (p_owners p)" "0 \<le> l_bytes (p_leases p ! lid)"
  using assms by (auto simp: acct_def)

lemma acct_cong:
  assumes "p_used p = p_used q" "p_opaque p = p_opaque q" "p_leases p = p_leases q" "p_owners p = p_owners q"
  shows "acct p = acct q"
  using assms by (simp add: acct_def lease_sum_def)

lemma acct_owner_bound:
  assumes "acct p" "o' < length (p_owners p)"
  shows "0 \<le> p_owners p ! o'" "p_owners p ! o' \<le> p_used p"
proof -
  have eq: "p_owners p ! o' = lease_sum (\<lambda>l. l_owner l = o') p" "p_used p = lease_sum (\<lambda>_. True) p"
    using assms by (simp_all add: acct_def)
  show "0 \<le> p_owners p ! o'"
    using assms(1) unfolding eq lease_sum_def by (intro sum_list_nonneg_int) (auto simp: acct_def)
  show "p_owners p ! o' \<le> p_used p"
    using assms(1) unfolding eq lease_sum_def by (intro sum_list_mono_int) (auto simp: acct_def)
qed

lemma acct_lease_bound:
  assumes "acct p" "lid < length (p_leases p)"
  shows "l_bytes (p_leases p ! lid) \<le> p_owners p ! l_owner (p_leases p ! lid)"
proof -
  let ?o = "l_owner (p_leases p ! lid)"
  have "(\<lambda>l. if l_owner l = ?o then l_bytes l else 0) (p_leases p ! lid)
      \<le> sum_list (map (\<lambda>l. if l_owner l = ?o then l_bytes l else 0) (p_leases p))"
    using assms by (intro member_le_sum_list_int) (auto simp: acct_def)
  with assms show ?thesis by (simp add: acct_def lease_sum_def)
qed

section \<open>Grant\<close>

lemma grant_shift:
  "grant wid p =
     (shift_bytes (w_lease (p_cells p ! wid)) (w_bytes (p_cells p ! wid)) p)
       \<lparr>p_burstOwner := (if p_used p + w_bytes (p_cells p ! wid) > p_normal p
                         then Some (wait_owner wid p) else p_burstOwner p),
        p_cells := (p_cells p)[wid := (p_cells p ! wid)\<lparr>w_granted := True, w_ready := True\<rparr>],
        p_waiters := remove1 wid (p_waiters p)\<rparr>"
  by (simp add: grant_def shift_bytes_def wait_owner_def Let_def)

lemma grant_fields [simp]:
  "p_total (grant wid p) = p_total p" "p_normal (grant wid p) = p_normal p"
  "p_maxWaiters (grant wid p) = p_maxWaiters p"
  "p_used (grant wid p) = p_used p + w_bytes (p_cells p ! wid)"
  "length (p_leases (grant wid p)) = length (p_leases p)"
  "length (p_owners (grant wid p)) = length (p_owners p)"
  "length (p_cells (grant wid p)) = length (p_cells p)"
  "p_cells (grant wid p) = (p_cells p)[wid := (p_cells p ! wid)\<lparr>w_granted := True, w_ready := True\<rparr>]"
  by (simp_all add: grant_def Let_def)

lemma grant_lease_frame:
  "i < length (p_leases p) \<Longrightarrow>
     l_owner (p_leases (grant wid p) ! i) = l_owner (p_leases p ! i) \<and>
     l_closed (p_leases (grant wid p) ! i) = l_closed (p_leases p ! i) \<and>
     l_opaque (p_leases (grant wid p) ! i) = l_opaque (p_leases p ! i)"
  by (cases "w_lease (p_cells p ! wid) = i") (simp_all add: grant_def Let_def)

lemma grant_acct:
  assumes "acct p" "queued_ok p wid"
  shows "acct (grant wid p)"
proof -
  let ?w = "p_cells p ! wid"
  have "0 \<le> l_bytes (p_leases p ! w_lease ?w) + w_bytes ?w" "w_lease ?w < length (p_leases p)"
    using assms by (auto simp: queued_ok_def Let_def acct_def)
  with assms(1) have "acct (shift_bytes (w_lease ?w) (w_bytes ?w) p)"
    by (intro shift_bytes_acct) auto
  then show ?thesis
    by (simp add: grant_shift acct_def lease_sum_def)
qed

lemma grant_limits:
  assumes a: "acct p" and l: "limits p" and q: "queued_ok p wid"
    and fit: "\<not> w_bytes (p_cells p ! wid) > grant_limit ph wid p - p_used p"
  shows "limits (grant wid p)"
proof -
  let ?n = "w_bytes (p_cells p ! wid)" and ?own = "wait_owner wid p"
  have own: "?own < length (p_owners p)"
    using a q by (auto simp: queued_ok_def Let_def wait_owner_def)
  have owners: "p_owners (grant wid p) = (p_owners p)[?own := p_owners p ! ?own + ?n]"
    by (simp add: grant_def Let_def wait_owner_def)
  have burst: "p_burstOwner (grant wid p) =
      (if p_used p + ?n > p_normal p then Some ?own else p_burstOwner p)"
    by (simp add: grant_def Let_def wait_owner_def)
  have "0 < ?n" using q by (simp add: queued_ok_def Let_def)
  moreover have "0 \<le> p_owners p ! ?own" using acct_owner_bound(1)[OF a own] .
  ultimately show ?thesis
    using l fit own
    by (auto simp: limits_def owners burst grant_limit_def nth_list_update split: option.splits if_splits)
qed


lemma pool_invD:
  assumes "pool_inv p"
  shows "acct p" "limits p" "distinct (p_waiters p)" "\<And>wid. wid \<in> set (p_waiters p) \<Longrightarrow> queued_ok p wid"
  using assms by (auto simp: pool_inv_def)

lemma pool_inv_grant [keeps]:
  assumes inv: "pool_inv p" and wid: "wid \<in> set (p_waiters p)"
    and fit: "\<not> w_bytes (p_cells p ! wid) > grant_limit ph wid p - p_used p"
  shows "pool_inv (grant wid p)"
proof -
  have q: "queued_ok p wid" using inv wid by (rule pool_invD)
  have queue: "queued_ok (grant wid p) v" if "v \<in> set (remove1 wid (p_waiters p))" for v
  proof -
    have v: "queued_ok p v" "v \<noteq> wid"
      using inv that by (auto simp: pool_inv_def)
    then show ?thesis
      using grant_lease_frame[of "w_lease (p_cells p ! v)" p wid] by (auto simp: queued_ok_def Let_def)
  qed
  have closed: "l_bytes l = 0" if "l \<in> set (p_leases (grant wid p))" "l_closed l" for l
  proof -
    obtain i where i: "i < length (p_leases p)" "l = p_leases (grant wid p) ! i"
      using \<open>l \<in> set (p_leases (grant wid p))\<close> by (metis grant_fields(5) in_set_conv_nth)
    with that have c: "l_closed (p_leases p ! i)" by (simp add: grant_lease_frame)
    with q have "i \<noteq> w_lease (p_cells p ! wid)" by (auto simp: queued_ok_def Let_def)
    then have "l = p_leases p ! i" using i by (simp add: grant_def Let_def)
    moreover from c i inv have "l_bytes (p_leases p ! i) = 0" by (simp add: pool_inv_def)
    ultimately show ?thesis by simp
  qed
  have "acct (grant wid p)" "limits (grant wid p)" "distinct (p_waiters (grant wid p))"
    using pool_invD[OF inv] q fit by (simp_all add: grant_acct grant_limits distinct_remove1)
  with queue closed show ?thesis by (simp add: pool_inv_def)
qed

lemma dispatch_loop_cases:
  assumes "i < length (p_waiters p)"
  shows "p_waiters p ! i \<in> set (p_waiters p)"
  using assms by simp

lemma dispatch_loop_invariant:
  assumes P: "\<And>p wid. P p \<Longrightarrow> wid \<in> set (p_waiters p) \<Longrightarrow> w_phase (p_cells p ! wid) = ph \<Longrightarrow>
       \<not> w_bytes (p_cells p ! wid) > grant_limit ph wid p - p_used p \<Longrightarrow> P (grant wid p)"
    and "P p"
  shows "P (snd (dispatch_loop ph i pending p))"
  using \<open>P p\<close> P
proof (induction ph i pending p rule: dispatch_loop.induct)
  case (1 ph i pending p)
  note unfold_loop = dispatch_loop.simps[of ph i pending p]
  let ?wid = "p_waiters p ! i"
  let ?w = "p_cells p ! ?wid"
  consider "\<not> i < length (p_waiters p)"
    | "i < length (p_waiters p)" "w_phase ?w \<noteq> ph"
    | "i < length (p_waiters p)" "w_phase ?w = ph" "w_bytes ?w > grant_limit ph ?wid p - p_used p"
    | "i < length (p_waiters p)" "w_phase ?w = ph" "\<not> w_bytes ?w > grant_limit ph ?wid p - p_used p"
    by blast
  then show ?case
  proof cases
    case 1
    with "1.prems"(1) show ?thesis by (simp add: unfold_loop)
  next
    case 2
    then have "P (snd (dispatch_loop ph (Suc i) pending p))"
      using "1.IH"(1)[OF _ refl refl _ "1.prems"(1,2)] by blast
    with 2 show ?thesis by (simp add: unfold_loop)
  next
    case 3
    then have "P (snd (dispatch_loop ph (Suc i) (ph = Response) p))"
      using "1.IH"(2)[OF _ refl refl _ _ "1.prems"(1,2)] by blast
    with 3 show ?thesis by (simp add: unfold_loop)
  next
    case 4
    then have "P (grant ?wid p)" by (intro "1.prems"(2)[OF "1.prems"(1)]) simp_all
    with 4 have "P (snd (dispatch_loop ph i pending (grant ?wid p)))"
      using "1.IH"(3)[OF _ refl refl _ _ _ "1.prems"(2)] by blast
    with 4 show ?thesis by (simp add: unfold_loop)
  qed
qed

lemma dispatch_invariant:
  assumes "\<And>p wid ph. P p \<Longrightarrow> wid \<in> set (p_waiters p) \<Longrightarrow> w_phase (p_cells p ! wid) = ph \<Longrightarrow>
       \<not> w_bytes (p_cells p ! wid) > grant_limit ph wid p - p_used p \<Longrightarrow> P (grant wid p)"
    and "P p"
  shows "P (dispatch p)"
proof -
  let ?r = "dispatch_loop Response 0 False p"
  have "P (snd ?r)"
    by (rule dispatch_loop_invariant [where P = P]) (fact assms)+
  moreover from this have "P (snd (dispatch_loop Request 0 False (snd ?r)))"
    by (rule dispatch_loop_invariant [where P = P, rotated]) (fact assms(1))
  ultimately show ?thesis
    by (simp add: dispatch_def case_prod_beta Let_def)
qed

lemma pool_inv_dispatch [keeps]: "pool_inv p \<Longrightarrow> pool_inv (dispatch p)"
  by (rule dispatch_invariant [where P = pool_inv]) (simp_all add: pool_inv_grant)


section \<open>Release\<close>

lemma releaseLocked_shift:
  "releaseLocked lid n p =
     (shift_bytes lid (- n) p)
       \<lparr>p_burstOwner :=
          (if p_used p - n \<le> p_normal p \<or>
              (p_burstOwner p = Some (l_owner (p_leases p ! lid)) \<and>
               p_owners (shift_bytes lid (- n) p) ! l_owner (p_leases p ! lid) = 0)
           then None else p_burstOwner p)\<rparr>"
  by (simp add: releaseLocked_def shift_bytes_def Let_def)

lemma releaseLocked_fields [simp]:
  "p_total (releaseLocked lid n p) = p_total p" "p_normal (releaseLocked lid n p) = p_normal p"
  "p_maxWaiters (releaseLocked lid n p) = p_maxWaiters p"
  "p_used (releaseLocked lid n p) = p_used p - n"
  "p_waiters (releaseLocked lid n p) = p_waiters p"
  "p_cells (releaseLocked lid n p) = p_cells p"
  "length (p_leases (releaseLocked lid n p)) = length (p_leases p)"
  "length (p_owners (releaseLocked lid n p)) = length (p_owners p)"
  by (simp_all add: releaseLocked_def Let_def)

lemma releaseLocked_lease_frame:
  "i < length (p_leases p) \<Longrightarrow>
     l_owner (p_leases (releaseLocked lid n p) ! i) = l_owner (p_leases p ! i) \<and>
     l_closed (p_leases (releaseLocked lid n p) ! i) = l_closed (p_leases p ! i) \<and>
     l_bytes (p_leases (releaseLocked lid n p) ! i) = l_bytes (p_leases p ! i) - (if i = lid then n else 0)"
  by (cases "lid = i") (simp_all add: releaseLocked_def Let_def)

lemma releaseLocked_acct:
  assumes "acct p" "lid < length (p_leases p)" "n \<le> l_bytes (p_leases p ! lid)"
  shows "acct (releaseLocked lid n p)"
proof -
  have "acct (shift_bytes lid (- n) p)"
    using assms by (intro shift_bytes_acct) auto
  then show ?thesis
    by (simp add: releaseLocked_shift acct_def lease_sum_def)
qed

lemma releaseLocked_limits:
  assumes a: "acct p" and l: "limits p" and lid: "lid < length (p_leases p)" and n: "0 \<le> n"
  shows "limits (releaseLocked lid n p)"
proof -
  let ?own = "l_owner (p_leases p ! lid)"
  have own: "?own < length (p_owners p)" using a lid by simp
  have owners: "p_owners (releaseLocked lid n p) = (p_owners p)[?own := p_owners p ! ?own - n]"
    by (simp add: releaseLocked_def Let_def)
  have burst: "p_burstOwner (releaseLocked lid n p) =
      (if p_used p - n \<le> p_normal p \<or> (p_burstOwner p = Some ?own \<and> p_owners p ! ?own - n = 0)
       then None else p_burstOwner p)"
    using own by (simp add: releaseLocked_def Let_def)
  show ?thesis
    using l n own
    by (auto simp: limits_def owners burst nth_list_update split: option.splits if_splits)
qed

lemma queued_ok_frame:
  assumes "queued_ok p v" "p_cells q = p_cells p" "p_total q = p_total p" "length (p_leases q) = length (p_leases p)"
    "\<And>i. i < length (p_leases p) \<Longrightarrow> l_closed (p_leases q ! i) = l_closed (p_leases p ! i)"
  shows "queued_ok q v"
  using assms by (auto simp: queued_ok_def Let_def)

lemma closed_frame:
  assumes "\<forall>l \<in> set (p_leases p). l_closed l \<longrightarrow> l_bytes l = 0"
    "length (p_leases q) = length (p_leases p)"
    "\<And>i. i < length (p_leases p) \<Longrightarrow> l_closed (p_leases q ! i) \<Longrightarrow>
       l_closed (p_leases p ! i) \<and> l_bytes (p_leases q ! i) = l_bytes (p_leases p ! i)"
  shows "\<forall>l \<in> set (p_leases q). l_closed l \<longrightarrow> l_bytes l = 0"
  using assms by (metis in_set_conv_nth)

lemma pool_inv_release [keeps]:
  assumes inv: "pool_inv p" and lid: "lid < length (p_leases p)"
    and n: "0 \<le> n" "n \<le> l_bytes (p_leases p ! lid)"
  shows "pool_inv (releaseLocked lid n p)"
proof -
  note parts = pool_invD[OF inv]
  have cl: "\<forall>l \<in> set (p_leases p). l_closed l \<longrightarrow> l_bytes l = 0"
    using inv by (simp add: pool_inv_def)
  have nz: "n = 0" if "l_closed (p_leases p ! lid)"
    using cl lid n that by auto
  have "\<forall>l \<in> set (p_leases (releaseLocked lid n p)). l_closed l \<longrightarrow> l_bytes l = 0"
    by (rule closed_frame[OF cl]) (use nz in \<open>auto simp: releaseLocked_lease_frame\<close>)
  moreover have "queued_ok (releaseLocked lid n p) v" if "v \<in> set (p_waiters p)" for v
    by (rule queued_ok_frame[OF parts(4)[OF that]]) (simp_all add: releaseLocked_lease_frame)
  ultimately show ?thesis
    using parts lid n by (simp add: pool_inv_def releaseLocked_acct releaseLocked_limits)
qed

lemma pool_inv_Shrink [keeps]:
  assumes "pool_inv p" "lid < length (p_leases p)"
  shows "pool_inv (Shrink lid n p)"
proof -
  have "0 \<le> l_bytes (p_leases p ! lid)" using assms pool_invD(1) by simp
  then show ?thesis
    using assms by (simp add: Shrink_def pool_inv_dispatch pool_inv_release)
qed

lemma pool_inv_remove [keeps]: "pool_inv p \<Longrightarrow> pool_inv (pool_remove wid p)"
  by (auto simp: pool_inv_def pool_remove_def acct_def lease_sum_def limits_def queued_ok_def
      split: option.splits dest: notin_set_remove1)

lemma pool_inv_MarkOpaque [keeps]:
  assumes inv: "pool_inv p" and lid: "lid < length (p_leases p)"
  shows "pool_inv (MarkOpaque lid p)"
proof (cases "l_opaque (p_leases p ! lid)")
  case True
  with inv show ?thesis by (simp add: MarkOpaque_def)
next
  case False
  let ?l = "p_leases p ! lid"
  let ?q = "MarkOpaque lid p"
  have q: "?q = p\<lparr>p_leases := (p_leases p)[lid := ?l\<lparr>l_opaque := True\<rparr>], p_opaque := p_opaque p + l_bytes ?l\<rparr>"
    using False by (simp add: MarkOpaque_def Let_def)
  have mem: "l \<in> set (p_leases ?q) \<Longrightarrow> l = ?l\<lparr>l_opaque := True\<rparr> \<or> l \<in> set (p_leases p)" for l
    by (auto simp: q dest: set_list_update_memI)
  have L: "?l \<in> set (p_leases p)" using lid by simp
  note parts = pool_invD[OF inv]
  have "0 \<le> l_bytes l \<and> l_owner l < length (p_owners p)" if "l \<in> set (p_leases ?q)" for l
    using mem[OF that] parts(1) L by (auto simp: acct_def)
  then have "acct ?q"
    using parts(1) lid False unfolding acct_def
    by (simp add: q lease_sum_def sum_list_update_int)
  moreover have "limits ?q" using parts(2) by (simp add: limits_def q split: option.splits)
  moreover have "queued_ok ?q v" if "v \<in> set (p_waiters p)" for v
    by (rule queued_ok_frame[OF parts(4)[OF that]]) (use lid in \<open>auto simp: q nth_list_update\<close>)
  moreover have "\<forall>l \<in> set (p_leases ?q). l_closed l \<longrightarrow> l_bytes l = 0"
    by (rule closed_frame[of p]) (use inv lid in \<open>auto simp: pool_inv_def q nth_list_update split: if_splits\<close>)
  ultimately show ?thesis using parts by (simp add: pool_inv_def q)
qed

lemma pool_inv_NewOwner [keeps]:
  assumes inv: "pool_inv p"
  shows "pool_inv (snd (NewOwner p))"
proof -
  have no_lease: "lease_sum (\<lambda>l. l_owner l = length (p_owners p)) p = 0"
    unfolding lease_sum_def
    by (rule sum_list_zero_int) (use pool_invD(1)[OF inv] in \<open>auto simp: acct_def\<close>)
  have "lease_sum P (snd (NewOwner p)) = lease_sum P p" for P
    by (simp add: lease_sum_def NewOwner_def)
  then have "acct (snd (NewOwner p))"
    using pool_invD(1)[OF inv] no_lease
    by (auto simp: acct_def NewOwner_def nth_append less_Suc_eq)
  moreover have "limits (snd (NewOwner p))"
    using pool_invD(2)[OF inv] by (auto simp: limits_def NewOwner_def nth_append split: option.splits)
  ultimately show ?thesis
    using inv by (auto simp: pool_inv_def NewOwner_def queued_ok_def)
qed

lemma pool_inv_NewLease [keeps]:
  assumes inv: "pool_inv p" and "o' < length (p_owners p)"
  shows "pool_inv (snd (NewLease o' p))"
proof -
  have "lease_sum P (snd (NewLease o' p)) = lease_sum P p" for P
    by (simp add: lease_sum_def NewLease_def)
  then have "acct (snd (NewLease o' p))"
    using pool_invD(1)[OF inv] assms(2) by (auto simp: acct_def NewLease_def)
  moreover have "limits (snd (NewLease o' p))"
    using pool_invD(2)[OF inv] by (auto simp: limits_def NewLease_def split: option.splits)
  ultimately show ?thesis
    using inv by (auto simp: pool_inv_def NewLease_def queued_ok_def Let_def nth_append)
qed


section \<open>Close\<close>

text \<open>What \<open>close_loop\<close> leaves unchanged: everything but the queue and the ready flags.\<close>

definition same_books :: "pool \<Rightarrow> pool \<Rightarrow> bool" where
  "same_books p q \<longleftrightarrow>
     p_total q = p_total p \<and> p_normal q = p_normal p \<and> p_used q = p_used p \<and> p_opaque q = p_opaque p \<and>
     p_burstOwner q = p_burstOwner p \<and> p_maxWaiters q = p_maxWaiters p \<and>
     p_owners q = p_owners p \<and> p_leases q = p_leases p"

definition ready_only :: "nat \<Rightarrow> pool \<Rightarrow> pool \<Rightarrow> bool" where
  "ready_only lid p q \<longleftrightarrow>
     length (p_cells q) = length (p_cells p) \<and>
     (\<forall>v. v \<notin> set (p_waiters p) \<or> w_lease (p_cells p ! v) \<noteq> lid \<longrightarrow> p_cells q ! v = p_cells p ! v) \<and>
     (\<forall>v < length (p_cells p). w_lease (p_cells q ! v) = w_lease (p_cells p ! v) \<and>
        w_bytes (p_cells q ! v) = w_bytes (p_cells p ! v) \<and> w_phase (p_cells q ! v) = w_phase (p_cells p ! v) \<and>
        w_granted (p_cells q ! v) = w_granted (p_cells p ! v) \<and>
        (w_ready (p_cells p ! v) \<longrightarrow> w_ready (p_cells q ! v)))"

lemma same_books_refl [simp]: "same_books p p" and ready_only_refl [simp]: "ready_only lid p p"
  by (simp_all add: same_books_def ready_only_def)

lemma same_books_inv:
  assumes "same_books p q"
  shows "acct q = acct p" "limits q = limits p"
  using assms
  by (simp_all add: same_books_def acct_def lease_sum_def limits_def split: option.split)

lemma wake_closed_books: "same_books p (wake_closed wid p)"
  by (simp add: same_books_def wake_closed_def pool_remove_def)

lemma wake_closed_cells:
  "p_cells (wake_closed wid p) = (p_cells p)[wid := (p_cells p ! wid)\<lparr>w_ready := True\<rparr>]"
  by (simp add: wake_closed_def pool_remove_def)

lemma wake_closed_lease [simp]:
  "w_lease (p_cells (wake_closed wid p) ! v) = w_lease (p_cells p ! v)"
  by (cases "v = wid"; cases "wid < length (p_cells p)") (simp_all add: wake_closed_cells list_update_beyond)

lemma ready_only_trans:
  assumes "ready_only lid p q" "ready_only lid q r" "set (p_waiters q) \<subseteq> set (p_waiters p)"
  shows "ready_only lid p r"
proof -
  have "p_cells r ! v = p_cells p ! v"
    if "v \<notin> set (p_waiters p) \<or> w_lease (p_cells p ! v) \<noteq> lid" for v
  proof -
    from assms(1) that have "p_cells q ! v = p_cells p ! v" by (simp add: ready_only_def)
    moreover from this that assms(2,3) have "p_cells r ! v = p_cells q ! v" by (auto simp: ready_only_def)
    ultimately show ?thesis by simp
  qed
  with assms(1,2) show ?thesis by (auto simp: ready_only_def)
qed

lemma wake_closed_ready_only:
  assumes "wid \<in> set (p_waiters p)" "w_lease (p_cells p ! wid) = lid"
  shows "ready_only lid p (wake_closed wid p)"
  using assms by (auto simp: ready_only_def wake_closed_cells nth_update_if)

lemma close_loop_spec:
  assumes "distinct (p_waiters p)" and "\<forall>v \<in> set (p_waiters p). v < length (p_cells p)"
  shows "p_waiters (close_loop lid i p) =
      take i (p_waiters p) @ filter (\<lambda>v. w_lease (p_cells p ! v) \<noteq> lid) (drop i (p_waiters p)) \<and>
    same_books p (close_loop lid i p) \<and> ready_only lid p (close_loop lid i p) \<and>
    (\<forall>v \<in> set (drop i (p_waiters p)). w_lease (p_cells p ! v) = lid \<longrightarrow> w_ready (p_cells (close_loop lid i p) ! v))"
  using assms
proof (induction lid i p rule: close_loop.induct)
  case (1 lid i p)
  note unfold_loop = close_loop.simps[of lid i p]
  let ?ws = "p_waiters p"
  let ?wid = "?ws ! i"
  consider "\<not> i < length ?ws" | "i < length ?ws" "w_lease (p_cells p ! ?wid) \<noteq> lid"
    | "i < length ?ws" "w_lease (p_cells p ! ?wid) = lid"
    by blast
  then show ?case
  proof cases
    case 1
    then show ?thesis by (simp add: unfold_loop)
  next
    case 2
    then have "drop i ?ws = ?wid # drop (Suc i) ?ws" "take (Suc i) ?ws = take i ?ws @ [?wid]"
      by (simp_all add: Cons_nth_drop_Suc take_Suc_conv_app_nth)
    moreover have "close_loop lid i p = close_loop lid (Suc i) p"
      using 2 by (simp add: unfold_loop)
    ultimately show ?thesis
      using "1.IH"(1)[OF _ refl _ "1.prems"] 2 by simp
  next
    case 3
    let ?p = "wake_closed ?wid p"
    have eq: "close_loop lid i p = close_loop lid i ?p"
      using 3 by (simp add: unfold_loop)
    have d: "drop i ?ws = ?wid # drop (Suc i) ?ws"
      using 3 by (simp add: Cons_nth_drop_Suc)
    have w': "p_waiters ?p = take i ?ws @ drop (Suc i) ?ws"
      using "1.prems"(1) 3(1) by (simp add: remove1_nth)
    have wid: "?wid < length (p_cells p)" "?wid \<in> set ?ws" using "1.prems"(2) 3(1) by auto
    have "distinct (p_waiters ?p)" "\<forall>v \<in> set (p_waiters ?p). v < length (p_cells ?p)"
      using "1.prems" by (auto simp: wake_closed_cells dest: notin_set_remove1)
    note IH = "1.IH"(2)[OF 3(1) refl _ this] 
    have IH': "p_waiters (close_loop lid i ?p) =
        take i (p_waiters ?p) @ filter (\<lambda>v. w_lease (p_cells p ! v) \<noteq> lid) (drop i (p_waiters ?p))"
      "same_books ?p (close_loop lid i ?p)" "ready_only lid ?p (close_loop lid i ?p)"
      "\<forall>v \<in> set (drop i (p_waiters ?p)). w_lease (p_cells p ! v) = lid \<longrightarrow> w_ready (p_cells (close_loop lid i ?p) ! v)"
      using IH 3(2) by simp_all
    have tk: "take i (p_waiters ?p) = take i ?ws" "drop i (p_waiters ?p) = drop (Suc i) ?ws"
      using 3(1) unfolding w' by simp_all
    have books: "same_books p (close_loop lid i p)"
      using IH'(2) wake_closed_books[of p ?wid] by (simp add: eq same_books_def)
    have ready: "w_ready (p_cells (close_loop lid i p) ! ?wid)"
      using IH'(3) wid by (simp add: eq ready_only_def wake_closed_cells)
    have only: "ready_only lid p (close_loop lid i p)"
      unfolding eq by (rule ready_only_trans[OF wake_closed_ready_only IH'(3)])
        (use wid 3(2) in \<open>auto dest: set_remove1_subset[THEN subsetD]\<close>)
    show ?thesis
      using IH'(1)[unfolded tk] IH'(4)[unfolded tk] books ready only 3(2) by (simp add: eq d)
  qed
qed


text \<open>The state \<open>Close\<close> reaches before it dispatches.\<close>

definition closing :: "nat \<Rightarrow> pool \<Rightarrow> pool" where
  "closing lid p =
     close_loop lid 0 (releaseLocked lid (l_bytes (p_leases p ! lid))
       (p\<lparr>p_leases := (p_leases p)[lid := (p_leases p ! lid)\<lparr>l_closed := True\<rparr>]\<rparr>))"

lemma Close_closing: "Close lid p = (if l_closed (p_leases p ! lid) then p else dispatch (closing lid p))"
  by (simp add: Close_def closing_def Let_def)

lemma closing_spec:
  assumes inv: "pool_inv p" and lid: "lid < length (p_leases p)"
  shows "pool_inv (closing lid p)"
    and "p_waiters (closing lid p) = filter (\<lambda>v. w_lease (p_cells p ! v) \<noteq> lid) (p_waiters p)"
    and "ready_only lid p (closing lid p)"
    and "\<And>i. i < length (p_leases p) \<Longrightarrow>
      l_closed (p_leases (closing lid p) ! i) = (i = lid \<or> l_closed (p_leases p ! i))"
    and "length (p_leases (closing lid p)) = length (p_leases p)" "p_total (closing lid p) = p_total p"
      "p_normal (closing lid p) = p_normal p" "p_maxWaiters (closing lid p) = p_maxWaiters p"
proof -
  let ?l = "p_leases p ! lid"
  let ?p1 = "p\<lparr>p_leases := (p_leases p)[lid := ?l\<lparr>l_closed := True\<rparr>]\<rparr>"
  let ?p2 = "releaseLocked lid (l_bytes ?l) ?p1"
  let ?p3 = "closing lid p"
  have p3: "?p3 = close_loop lid 0 ?p2" by (simp add: closing_def)
  note parts = pool_invD[OF inv]
  have len: "lid < length (p_leases ?p1)" using lid by simp
  have l1: "l_bytes (p_leases ?p1 ! lid) = l_bytes ?l" "0 \<le> l_bytes ?l"
    using lid parts(1) by simp_all
  have mem: "0 \<le> l_bytes l \<and> l_owner l < length (p_owners p)" if "l \<in> set (p_leases ?p1)" for l
  proof -
    from that have "l = ?l\<lparr>l_closed := True\<rparr> \<or> l \<in> set (p_leases p)"
      by (simp add: set_list_update_memI)
    then show ?thesis using parts(1) lid by (auto simp: acct_def)
  qed
  have "lease_sum P ?p1 = lease_sum P p" if "\<And>b. P (?l\<lparr>l_closed := b\<rparr>) = P ?l" for P
    using lid that by (simp add: lease_sum_update)
  then have "acct ?p1"
    using parts(1) mem unfolding acct_def by simp
  moreover have "limits ?p1" using parts(2) by (simp add: limits_def split: option.splits)
  ultimately have a2: "acct ?p2" "limits ?p2"
    using len l1 by (simp_all only: releaseLocked_acct releaseLocked_limits order_refl)
  have cl2: "l_closed (p_leases ?p2 ! i) = (i = lid \<or> l_closed (p_leases p ! i))"
    "l_bytes (p_leases ?p2 ! i) = (if i = lid then 0 else l_bytes (p_leases p ! i))"
    if "i < length (p_leases p)" for i
    using that by (cases "i = lid"; simp add: releaseLocked_lease_frame)+
  have len2: "length (p_leases ?p2) = length (p_leases p)" by simp
  have wf: "distinct (p_waiters ?p2)" "\<forall>v \<in> set (p_waiters ?p2). v < length (p_cells ?p2)"
    using parts(3,4) by (auto simp: queued_ok_def)
  note spec = close_loop_spec[OF wf, of lid 0]
  have books: "same_books ?p2 ?p3" and only: "ready_only lid ?p2 ?p3"
    and ws: "p_waiters ?p3 = filter (\<lambda>v. w_lease (p_cells p ! v) \<noteq> lid) (p_waiters p)"
    using spec unfolding p3 by simp_all
  have queue: "queued_ok ?p3 v" if v: "v \<in> set (p_waiters ?p3)" for v
  proof -
    have v': "v \<in> set (p_waiters p)" "w_lease (p_cells p ! v) \<noteq> lid" using v ws by auto
    then have "p_cells ?p3 ! v = p_cells p ! v" "length (p_cells ?p3) = length (p_cells p)"
      using only by (simp_all add: ready_only_def)
    with v' parts(4)[OF v'(1)] books len2 cl2 show ?thesis
      by (auto simp: queued_ok_def Let_def same_books_def)
  qed
  have closed: "\<forall>l \<in> set (p_leases ?p3). l_closed l \<longrightarrow> l_bytes l = 0"
  proof -
    have "\<forall>l \<in> set (p_leases p). l_closed l \<longrightarrow> l_bytes l = 0" using inv by (simp add: pool_inv_def)
    then have "l_bytes (p_leases ?p2 ! i) = 0"
      if "i < length (p_leases p)" "l_closed (p_leases ?p2 ! i)" for i
      using that cl2[OF that(1)] by (auto split: if_splits)
    then have "\<forall>l \<in> set (p_leases ?p2). l_closed l \<longrightarrow> l_bytes l = 0"
      using len2 by (metis in_set_conv_nth)
    with books show ?thesis by (simp add: same_books_def)
  qed
  have "acct ?p3" "limits ?p3"
    using a2 same_books_inv[OF books] by simp_all
  with queue closed parts(3) ws show "pool_inv ?p3" by (simp add: pool_inv_def)
  show "p_waiters ?p3 = filter (\<lambda>v. w_lease (p_cells p ! v) \<noteq> lid) (p_waiters p)" by (fact ws)
  show "ready_only lid p ?p3" using only by (simp add: ready_only_def)
  show "l_closed (p_leases ?p3 ! i) = (i = lid \<or> l_closed (p_leases p ! i))" if "i < length (p_leases p)" for i
    using cl2(1)[OF that] books by (simp add: same_books_def)
  show "length (p_leases ?p3) = length (p_leases p)" "p_total ?p3 = p_total p"
    "p_normal ?p3 = p_normal p" "p_maxWaiters ?p3 = p_maxWaiters p"
    using books by (simp_all add: same_books_def)
qed

lemma pool_inv_Close [keeps]:
  "pool_inv p \<Longrightarrow> lid < length (p_leases p) \<Longrightarrow> pool_inv (Close lid p)"
  by (simp add: Close_closing closing_spec(1) pool_inv_dispatch)

end
