(* ===== verification/Capacity_Steps.thy ===== *)
theory Capacity_Steps
  imports Capacity_Pool
begin

text \<open>
  The process memory pool under concurrent callers: what \<open>dispatch\<close> does to the queue, the step
  relation that interleaves the critical sections of \<open>Capacity_Pool\<close>, the invariant of its
  reachable states, and the promises of \<open>Grow\<close>, \<open>Shrink\<close> and \<open>Close\<close> that follow from it.
\<close>

section \<open>What a dispatch does\<close>

text \<open>
  A dispatch removes waiters from the queue without reordering it, marks exactly the removed
  ones granted and ready, and otherwise only adds bytes to leases.
\<close>

definition dispatched :: "pool \<Rightarrow> pool \<Rightarrow> bool" where
  "dispatched p q \<longleftrightarrow>
     p_total q = p_total p \<and> p_normal q = p_normal p \<and> p_maxWaiters q = p_maxWaiters p \<and>
     length (p_owners q) = length (p_owners p) \<and> length (p_leases q) = length (p_leases p) \<and>
     length (p_cells q) = length (p_cells p) \<and>
     subseq (p_waiters q) (p_waiters p) \<and>
     (\<forall>v. p_cells q ! v =
        (if v \<in> set (p_waiters p) \<and> v \<notin> set (p_waiters q)
         then (p_cells p ! v)\<lparr>w_granted := True, w_ready := True\<rparr> else p_cells p ! v)) \<and>
     (\<forall>i < length (p_leases p).
        l_owner (p_leases q ! i) = l_owner (p_leases p ! i) \<and>
        l_closed (p_leases q ! i) = l_closed (p_leases p ! i) \<and>
        l_opaque (p_leases q ! i) = l_opaque (p_leases p ! i) \<and>
        l_bytes (p_leases p ! i) \<le> l_bytes (p_leases q ! i))"

lemma dispatched_refl: "dispatched p p"
  by (simp add: dispatched_def)

lemma dispatched_trans:
  assumes pq: "dispatched p q" and qr: "dispatched q r"
  shows "dispatched p r"
proof -
  have ss: "subseq (p_waiters q) (p_waiters p)" "subseq (p_waiters r) (p_waiters q)"
    using assms by (simp_all add: dispatched_def)
  have sub: "subseq (p_waiters r) (p_waiters p)"
    using ss(2,1) by (rule subseq_order.order_trans)
  have sets: "set (p_waiters q) \<subseteq> set (p_waiters p)" "set (p_waiters r) \<subseteq> set (p_waiters q)"
    using ss by (simp_all add: subseq_set)
  have "p_cells r ! v =
      (if v \<in> set (p_waiters p) \<and> v \<notin> set (p_waiters r)
       then (p_cells p ! v)\<lparr>w_granted := True, w_ready := True\<rparr> else p_cells p ! v)" for v
    using pq qr sets unfolding dispatched_def by auto
  moreover have "l_bytes (p_leases p ! i) \<le> l_bytes (p_leases r ! i)" if "i < length (p_leases p)" for i
  proof -
    have "l_bytes (p_leases p ! i) \<le> l_bytes (p_leases q ! i)" "l_bytes (p_leases q ! i) \<le> l_bytes (p_leases r ! i)"
      using assms that by (simp_all add: dispatched_def)
    then show ?thesis by (rule order_trans)
  qed
  ultimately show ?thesis
    using assms sub unfolding dispatched_def by simp
qed

lemma dispatched_grant:
  assumes inv: "pool_inv p" and wid: "wid \<in> set (p_waiters p)"
  shows "dispatched p (grant wid p)"
proof -
  have q: "queued_ok p wid" using inv wid by (rule pool_invD)
  have d: "distinct (p_waiters p)" using inv by (simp add: pool_inv_def)
  obtain us vs where split: "p_waiters p = us @ wid # vs" "wid \<notin> set us" "remove1 wid (p_waiters p) = us @ vs"
    using wid by (metis remove1_split)
  have "subseq (remove1 wid (p_waiters p)) (p_waiters p)"
    unfolding split(3) unfolding split(1) by (auto simp: subseq_append' intro: list_emb_Cons)
  moreover have "0 \<le> w_bytes (p_cells p ! wid)" using q by (simp add: queued_ok_def Let_def)
  then have "l_bytes (p_leases p ! i) \<le> l_bytes (p_leases (grant wid p) ! i)" for i
    by (simp add: grant_def Let_def nth_update_if)
  moreover have "l_opaque (p_leases (grant wid p) ! i) = l_opaque (p_leases p ! i)" for i
    by (simp add: grant_def Let_def nth_update_if)
  moreover have "p_cells (grant wid p) ! v =
      (if v \<in> set (p_waiters p) \<and> v \<notin> set (remove1 wid (p_waiters p))
       then (p_cells p ! v)\<lparr>w_granted := True, w_ready := True\<rparr> else p_cells p ! v)" for v
    using q d wid by (auto simp: grant_def Let_def nth_update_if queued_ok_def)
  moreover have "length (p_cells (grant wid p)) = length (p_cells p)" "p_maxWaiters (grant wid p) = p_maxWaiters p"
    by (simp_all add: grant_def Let_def)
  ultimately show ?thesis
    by (simp add: dispatched_def grant_lease_frame)
qed

lemma dispatched_grants:
  assumes "pool_inv q \<and> dispatched p q" "wid \<in> set (p_waiters q)" "w_phase (p_cells q ! wid) = ph"
    "\<not> w_bytes (p_cells q ! wid) > grant_limit ph wid q - p_used q"
  shows "pool_inv (grant wid q) \<and> dispatched p (grant wid q)"
  using assms dispatched_trans[OF _ dispatched_grant] by (simp add: pool_inv_grant)

lemma dispatched_loop:
  assumes "pool_inv p"
  shows "pool_inv (snd (dispatch_loop ph i pending p)) \<and> dispatched p (snd (dispatch_loop ph i pending p))"
  by (rule dispatch_loop_invariant [where P = "\<lambda>q. pool_inv q \<and> dispatched p q"])
    (use assms in \<open>auto simp: dispatched_refl dispatched_grants\<close>)

lemma dispatched_dispatch:
  assumes "pool_inv p"
  shows "dispatched p (dispatch p)"
proof -
  have "pool_inv (dispatch p) \<and> dispatched p (dispatch p)"
    by (rule dispatch_invariant [where P = "\<lambda>q. pool_inv q \<and> dispatched p q"])
      (use assms in \<open>auto simp: dispatched_refl dispatched_grants\<close>)
  then show ?thesis by simp
qed

section \<open>No waiter that fits is left waiting\<close>

definition unfit :: "pool \<Rightarrow> nat \<Rightarrow> bool" where
  "unfit p wid \<longleftrightarrow> w_bytes (p_cells p ! wid) > grant_limit Response wid p - p_used p"

definition settled :: "pool \<Rightarrow> bool" where
  "settled p \<longleftrightarrow> (\<forall>wid \<in> set (p_waiters p). w_phase (p_cells p ! wid) = Response \<and> unfit p wid)"

lemma wait_owner_dispatched:
  assumes "dispatched p q" "queued_ok p u"
  shows "wait_owner u q = wait_owner u p"
  using assms by (auto simp: wait_owner_def dispatched_def queued_ok_def Let_def)

lemma grant_limit_le [simp]: "limits p \<Longrightarrow> grant_limit ph u p \<le> p_total p"
  by (simp add: grant_limit_def limits_def)

lemma unfit_grant:
  assumes inv: "pool_inv p" and v: "v \<in> set (p_waiters p)" and ph: "w_phase (p_cells p ! v) = ph"
    and fit: "\<not> w_bytes (p_cells p ! v) > grant_limit ph v p - p_used p"
    and u: "u \<in> set (p_waiters p)" "u \<noteq> v" and unfit: "unfit p u"
  shows "unfit (grant v p) u"
proof -
  have q: "queued_ok p v" "queued_ok p u" using inv v u by (auto simp: pool_inv_def)
  have lim: "limits p" using inv by (simp add: pool_inv_def)
  have w: "0 < w_bytes (p_cells p ! v)" using q by (simp add: queued_ok_def Let_def)
  have own: "wait_owner u (grant v p) = wait_owner u p"
    using dispatched_grant[OF inv v] q(2) by (rule wait_owner_dispatched)
  have used: "p_used (grant v p) = p_used p + w_bytes (p_cells p ! v)"
    and burst: "p_burstOwner (grant v p) = (if p_used p + w_bytes (p_cells p ! v) > p_normal p
      then Some (wait_owner v p) else p_burstOwner p)"
    by (simp_all add: grant_def Let_def wait_owner_def)
  have cell: "p_cells (grant v p) ! u = p_cells p ! u"
    using u(2) by (simp add: grant_def Let_def)
  have "grant_limit Response u (grant v p) \<le> grant_limit Response u p"
  proof (cases "p_burstOwner p")
    case None
    have "limits (grant v p)" using pool_inv_grant[OF inv v] ph fit by (simp add: pool_inv_def)
    then show ?thesis using None by (auto simp: grant_limit_def limits_def)
  next
    case (Some b)
    then have "p_burstOwner (grant v p) = Some b"
      using lim fit w unfolding burst by (auto simp: limits_def grant_limit_def split: if_splits)
    with Some show ?thesis by (simp add: grant_limit_def own)
  qed
  then show ?thesis
    using unfit w unfolding unfit_def used cell by linarith
qed

lemma response_loop:
  assumes "pool_inv p"
    and "\<forall>j < i. j < length (p_waiters p) \<longrightarrow> w_phase (p_cells p ! (p_waiters p ! j)) = Response \<longrightarrow>
      pending \<and> unfit p (p_waiters p ! j)"
    and "dispatch_loop Response i pending p = (pending', q)"
  shows "\<forall>v \<in> set (p_waiters q). w_phase (p_cells q ! v) = Response \<longrightarrow> pending' \<and> unfit q v"
  using assms
proof (induction Response i pending p rule: dispatch_loop.induct)
  case (1 i pending p)
  note unfold_loop = dispatch_loop.simps[of Response i pending p]
  let ?ws = "p_waiters p"
  let ?wid = "?ws ! i"
  let ?w = "p_cells p ! ?wid"
  consider "\<not> i < length ?ws"
    | "i < length ?ws" "w_phase ?w \<noteq> Response"
    | "i < length ?ws" "w_phase ?w = Response" "w_bytes ?w > grant_limit Response ?wid p - p_used p"
    | "i < length ?ws" "w_phase ?w = Response" "\<not> w_bytes ?w > grant_limit Response ?wid p - p_used p"
    by blast
  then show ?case
  proof cases
    case 1
    with "1.prems"(2,3) show ?thesis by (auto simp: unfold_loop in_set_conv_nth)
  next
    case 2
    then have "dispatch_loop Response (Suc i) pending p = (pending', q)"
      using "1.prems"(3) by (simp add: unfold_loop)
    moreover have "\<forall>j < Suc i. j < length ?ws \<longrightarrow> w_phase (p_cells p ! (?ws ! j)) = Response \<longrightarrow>
        pending \<and> unfit p (?ws ! j)"
      using "1.prems"(2) 2 by (simp add: less_Suc_eq)
    ultimately show ?thesis using "1.hyps"(1)[OF _ refl refl _ "1.prems"(1)] 2 by blast
  next
    case 3
    then have "dispatch_loop Response (Suc i) True p = (pending', q)"
      using "1.prems"(3) by (simp add: unfold_loop)
    moreover have "\<forall>j < Suc i. j < length ?ws \<longrightarrow> w_phase (p_cells p ! (?ws ! j)) = Response \<longrightarrow>
        True \<and> unfit p (?ws ! j)"
      using "1.prems"(2) 3 by (auto simp: less_Suc_eq unfit_def)
    ultimately show ?thesis using "1.hyps"(2)[OF _ refl refl _ _ "1.prems"(1)] 3 by simp
  next
    case 4
    then have loop: "dispatch_loop Response i pending (grant ?wid p) = (pending', q)"
      using "1.prems"(3) by (simp add: unfold_loop)
    have mem: "?wid \<in> set ?ws" using 4 by simp
    have inv: "pool_inv (grant ?wid p)"
      using pool_inv_grant[OF "1.prems"(1) mem] 4 by simp
    have d: "distinct ?ws" using "1.prems"(1) by (simp add: pool_inv_def)
    have ws: "p_waiters (grant ?wid p) ! j = ?ws ! j" if "j < i" for j
      using that 4(1) by (simp add: remove1_nth[OF d] nth_append)
    have "pending \<and> unfit (grant ?wid p) (?ws ! j)"
      if j: "j < i" and r: "w_phase (p_cells (grant ?wid p) ! (?ws ! j)) = Response" for j
    proof -
      have ne: "?ws ! j \<noteq> ?wid" using j 4(1) d by (simp add: nth_eq_iff_index_eq)
      then have "w_phase (p_cells p ! (?ws ! j)) = Response" using r by (simp add: grant_def Let_def)
      then have "pending \<and> unfit p (?ws ! j)" using "1.prems"(2) j 4(1) by simp
      then show ?thesis using unfit_grant[OF "1.prems"(1) mem 4(2)] 4 ne j by simp
    qed
    with ws have "\<forall>j < i. j < length (p_waiters (grant ?wid p)) \<longrightarrow>
        w_phase (p_cells (grant ?wid p) ! (p_waiters (grant ?wid p) ! j)) = Response \<longrightarrow>
        pending \<and> unfit (grant ?wid p) (p_waiters (grant ?wid p) ! j)"
      by simp
    then show ?thesis using "1.hyps"(3)[OF _ refl refl _ _ inv] 4 loop by blast
  qed
qed

lemma response_loop_requests:
  assumes "v \<in> set (p_waiters p)" "w_phase (p_cells p ! v) = Request"
  shows "v \<in> set (p_waiters (snd (dispatch_loop Response i pending p)))"
proof -
  let ?P = "\<lambda>q :: pool. v \<in> set (p_waiters q) \<and> w_phase (p_cells q ! v) = Request"
  have "?P (snd (dispatch_loop Response i pending p))"
  proof (rule dispatch_loop_invariant [where P = ?P])
    fix q wid
    assume q: "?P q" and w: "w_phase (p_cells q ! wid) = Response"
    then have "wid \<noteq> v" by auto
    with q show "?P (grant wid q)" by (simp add: in_set_remove1)
  qed (use assms in simp)
  then show ?thesis by simp
qed

lemma dispatch_responses:
  assumes inv: "pool_inv p"
  shows "\<forall>v \<in> set (p_waiters (dispatch p)). w_phase (p_cells (dispatch p) ! v) = Response \<longrightarrow> unfit (dispatch p) v"
    and "\<lbrakk>v \<in> set (p_waiters p); w_phase (p_cells p ! v) = Request; v \<notin> set (p_waiters (dispatch p))\<rbrakk>
      \<Longrightarrow> \<forall>u \<in> set (p_waiters (dispatch p)). w_phase (p_cells (dispatch p) ! u) \<noteq> Response"
proof -
  obtain pend p1 where one: "dispatch_loop Response 0 False p = (pend, p1)" by fastforce
  let ?p2 = "snd (dispatch_loop Request 0 False p1)"
  have p1: "\<forall>v \<in> set (p_waiters p1). w_phase (p_cells p1 ! v) = Response \<longrightarrow> pend \<and> unfit p1 v"
    by (rule response_loop[OF inv _ one]) simp
  have d1: "pool_inv p1" "dispatched p p1" using dispatched_loop[OF inv, of Response 0 False] one by simp_all
  have d2: "dispatched p1 ?p2" using dispatched_loop[OF d1(1)] by simp
  have same: "dispatch p = (if pend then p1 else ?p2)" by (simp add: dispatch_def one)
  have none: "\<forall>v \<in> set (p_waiters ?p2). w_phase (p_cells ?p2 ! v) \<noteq> Response" if "\<not> pend"
    using that p1 d2 subseq_set unfolding dispatched_def by fastforce
  show "\<forall>v \<in> set (p_waiters (dispatch p)). w_phase (p_cells (dispatch p) ! v) = Response \<longrightarrow> unfit (dispatch p) v"
    using none p1 by (auto simp: same)
  assume v: "v \<in> set (p_waiters p)" "w_phase (p_cells p ! v) = Request" "v \<notin> set (p_waiters (dispatch p))"
  show "\<forall>u \<in> set (p_waiters (dispatch p)). w_phase (p_cells (dispatch p) ! u) \<noteq> Response"
  proof (cases pend)
    case False
    with none show ?thesis by (simp add: same)
  next
    case True
    have "v \<in> set (p_waiters p1)"
      using response_loop_requests[OF v(1,2), of 0 False] by (simp add: one)
    with True v show ?thesis by (simp add: same)
  qed
qed

lemma settled_dispatch:
  assumes "pool_inv p" "\<forall>v \<in> set (p_waiters p). w_phase (p_cells p ! v) = Response"
  shows "settled (dispatch p)"
proof -
  have "dispatched p (dispatch p)" using assms(1) by (rule dispatched_dispatch)
  then have "\<forall>v \<in> set (p_waiters (dispatch p)). w_phase (p_cells (dispatch p) ! v) = Response"
    using assms(2) subseq_set unfolding dispatched_def by fastforce
  then show ?thesis using dispatch_responses(1)[OF assms(1)] by (simp add: settled_def)
qed

lemma settledD: "settled p \<Longrightarrow> \<forall>v \<in> set (p_waiters p). w_phase (p_cells p ! v) = Response"
  by (simp add: settled_def)

lemma settled_Shrink [keeps]:
  assumes "pool_inv p" "settled p" "lid < length (p_leases p)"
  shows "settled (Shrink lid n p)"
proof -
  have "pool_inv (releaseLocked lid (min n (l_bytes (p_leases p ! lid))) p)" if "0 < n"
    using assms that pool_invD(1)[OF assms(1)] by (intro pool_inv_release) simp_all
  then show ?thesis
    using assms(2) settledD[OF assms(2)] by (simp add: Shrink_def settled_dispatch)
qed

lemma settled_queue_frame:
  assumes "settled p" "set (p_waiters q) \<subseteq> set (p_waiters p)" "p_cells q = p_cells p" "p_total q = p_total p"
    "p_normal q = p_normal p" "p_used q = p_used p" "p_burstOwner q = p_burstOwner p"
    "\<And>v. v \<in> set (p_waiters p) \<Longrightarrow> wait_owner v q = wait_owner v p"
  shows "settled q"
proof -
  have "grant_limit Response v q = grant_limit Response v p" if "v \<in> set (p_waiters p)" for v
    using assms(8)[OF that] assms by (simp add: grant_limit_def)
  then show ?thesis using assms by (auto simp: settled_def unfit_def)
qed

lemma settled_remove [keeps]: "settled p \<Longrightarrow> settled (pool_remove wid p)"
  by (rule settled_queue_frame[of p]) (auto simp: pool_remove_def wait_owner_def dest: set_remove1_subset[THEN subsetD])

lemma settled_MarkOpaque [keeps]: "settled p \<Longrightarrow> settled (MarkOpaque lid p)"
  by (rule settled_queue_frame[of p]) (auto simp: MarkOpaque_def Let_def wait_owner_def nth_update_if)

lemma settled_NewOwner [keeps]: "settled p \<Longrightarrow> settled (snd (NewOwner p))"
  by (rule settled_queue_frame[of p]) (auto simp: NewOwner_def wait_owner_def)

lemma settled_NewLease [keeps]: "pool_inv p \<Longrightarrow> settled p \<Longrightarrow> settled (snd (NewLease o' p))"
  by (rule settled_queue_frame[of p])
    (auto simp: NewLease_def wait_owner_def nth_append pool_inv_def queued_ok_def Let_def)

lemma settled_Close [keeps]:
  assumes "pool_inv p" "settled p" "lid < length (p_leases p)"
  shows "settled (Close lid p)"
proof -
  note spec = closing_spec[OF assms(1,3)]
  have "w_phase (p_cells (closing lid p) ! v) = Response" if "v \<in> set (p_waiters (closing lid p))" for v
    using that spec(2,3) settledD[OF assms(2)] by (simp add: ready_only_def)
  then show ?thesis using assms(2) by (simp add: Close_closing settled_dispatch[OF spec(1)])
qed

section \<open>Growing\<close>

definition enqueue :: "nat \<Rightarrow> int \<Rightarrow> phase \<Rightarrow> pool \<Rightarrow> pool" where
  "enqueue lid n ph p =
     p\<lparr>p_cells := p_cells p @ [\<lparr>w_lease = lid, w_bytes = n, w_phase = ph, w_ready = False, w_granted = False\<rparr>],
       p_waiters := p_waiters p @ [length (p_cells p)]\<rparr>"

lemma pool_inv_enqueue [keeps]:
  assumes inv: "pool_inv p" and l: "lid < length (p_leases p)" "\<not> l_closed (p_leases p ! lid)" and n: "0 < n" "n \<le> p_total p"
  shows "pool_inv (enqueue lid n ph p)"
proof -
  let ?q = "enqueue lid n ph p"
  have "same_books p ?q" by (simp add: same_books_def enqueue_def)
  then have "acct ?q" "limits ?q" using same_books_inv pool_invD(1,2)[OF inv] by simp_all
  moreover have "queued_ok ?q v" if "v \<in> set (p_waiters ?q)" for v
  proof (cases "v = length (p_cells p)")
    case True
    with l n show ?thesis by (simp add: queued_ok_def enqueue_def)
  next
    case False
    then have "queued_ok p v" using that inv by (simp add: enqueue_def pool_inv_def)
    then show ?thesis by (auto simp: queued_ok_def enqueue_def nth_append Let_def)
  qed
  moreover have "distinct (p_waiters ?q)"
    using inv by (auto simp: enqueue_def pool_inv_def queued_ok_def)
  ultimately show ?thesis using inv by (simp add: pool_inv_def enqueue_def)
qed

text \<open>The branches of \<open>grow_begin\<close>.\<close>

lemma grow_begin_cases:
  assumes "grow_begin cerr lid n ph p = (r, q)"
  obtains
    (early) x where "r = Finished x" "q = p" "x = Inr () \<Longrightarrow> n = 0"
  | (granted) "r = Finished (Inr ())" "q = dispatch (enqueue lid n ph p)" "w_granted (p_cells q ! length (p_cells p))"
      "0 < n" "n \<le> (if ph = Request then p_normal p else p_total p) - p_owners p ! l_owner (p_leases p ! lid)"
      "\<not> l_closed (p_leases p ! lid)" "ph = Request \<or> ph = Response"
  | (busy) "r = Finished (Inl Busy)" "q = pool_remove (length (p_cells p)) (dispatch (enqueue lid n ph p))"
      "\<not> w_granted (p_cells q ! length (p_cells p))"
      "0 < n" "n \<le> (if ph = Request then p_normal p else p_total p) - p_owners p ! l_owner (p_leases p ! lid)"
      "\<not> l_closed (p_leases p ! lid)" "ph = Request \<or> ph = Response"
  | (waiting) "r = Waiting (length (p_cells p))" "q = dispatch (enqueue lid n ph p)" "ph = Response"
      "\<not> w_granted (p_cells q ! length (p_cells p))" "int (length (p_waiters q)) \<le> p_maxWaiters q"
      "0 < n" "n \<le> p_total p - p_owners p ! l_owner (p_leases p ! lid)"
      "\<not> l_closed (p_leases p ! lid)"
proof -
  let ?lim = "(if ph = Request then p_normal p else p_total p) - p_owners p ! l_owner (p_leases p ! lid)"
  let ?q = "dispatch (enqueue lid n ph p)"
  let ?w = "length (p_cells p)"
  show ?thesis
  proof (cases "n < 0 \<or> (ph \<noteq> Request \<and> ph \<noteq> Response) \<or> cerr \<noteq> None \<or> l_closed (p_leases p ! lid) \<or> n > ?lim \<or> n = 0")
    case True
    then have "\<exists>x. r = Finished x \<and> q = p \<and> (x = Inr () \<longrightarrow> n = 0)"
      using assms by (auto simp: grow_begin_def Let_def split: option.splits if_splits)
    with early show ?thesis by blast
  next
    case False
    then have main: "0 < n" "n \<le> ?lim" "\<not> l_closed (p_leases p ! lid)" "ph = Request \<or> ph = Response"
      and val: "(r, q) = (if w_granted (p_cells ?q ! ?w) then (Finished (Inr ()), ?q)
        else if ph = Request \<or> int (length (p_waiters ?q)) > p_maxWaiters ?q
             then (Finished (Inl Busy), pool_remove ?w ?q) else (Waiting ?w, ?q))"
      using assms by (auto simp: grow_begin_def Let_def enqueue_def)
    consider "w_granted (p_cells ?q ! ?w)"
      | "\<not> w_granted (p_cells ?q ! ?w)" "ph = Request \<or> int (length (p_waiters ?q)) > p_maxWaiters ?q"
      | "\<not> w_granted (p_cells ?q ! ?w)" "ph = Response" "int (length (p_waiters ?q)) \<le> p_maxWaiters ?q"
      using main(4) by fastforce
    then show ?thesis
    proof cases
      case 1
      with val main show ?thesis by (intro granted) simp_all
    next
      case 2
      with val have "r = Finished (Inl Busy)" "q = pool_remove ?w ?q" by simp_all
      with 2 main show ?thesis by (intro busy) (simp_all add: pool_remove_def)
    next
      case 3
      with val main show ?thesis by (intro waiting) simp_all
    qed
  qed
qed

section \<open>How operations move waiters\<close>

text \<open>
  What every critical section keeps of the waiters that existed before it: their request, a
  grant once given, the closing of their lease, and their place in the queue until they are
  granted or their lease is closed. \<open>X\<close> holds the waiters the section withdraws itself.
\<close>

definition evolves :: "nat set \<Rightarrow> pool \<Rightarrow> pool \<Rightarrow> bool" where
  "evolves X p q \<longleftrightarrow>
     p_total q = p_total p \<and> p_normal q = p_normal p \<and> p_maxWaiters q = p_maxWaiters p \<and>
     length (p_leases p) \<le> length (p_leases q) \<and> length (p_cells p) \<le> length (p_cells q) \<and>
     (\<forall>v < length (p_cells p).
        w_lease (p_cells q ! v) = w_lease (p_cells p ! v) \<and> w_bytes (p_cells q ! v) = w_bytes (p_cells p ! v) \<and>
        w_phase (p_cells q ! v) = w_phase (p_cells p ! v) \<and> (w_granted (p_cells p ! v) \<longrightarrow> w_granted (p_cells q ! v))) \<and>
     (\<forall>i < length (p_leases p). l_closed (p_leases p ! i) \<longrightarrow> l_closed (p_leases q ! i)) \<and>
     (\<forall>v \<in> set (p_waiters p). v \<in> set (p_waiters q) \<or> v \<in> X \<or> w_granted (p_cells q ! v) \<or>
        l_closed (p_leases q ! w_lease (p_cells p ! v)))"

lemma evolves_trans:
  assumes inv: "pool_inv p" and pq: "evolves X p q" and qr: "evolves Y q r"
  shows "evolves (X \<union> Y) p r"
proof -
  have "v \<in> set (p_waiters r) \<or> v \<in> X \<union> Y \<or> w_granted (p_cells r ! v) \<or>
      l_closed (p_leases r ! w_lease (p_cells p ! v))" if v: "v \<in> set (p_waiters p)" for v
  proof -
    have w: "v < length (p_cells p)" "w_lease (p_cells p ! v) < length (p_leases p)"
      using inv v by (auto simp: pool_inv_def queued_ok_def Let_def)
    have "v \<in> set (p_waiters q) \<or> v \<in> X \<or> w_granted (p_cells q ! v) \<or>
        l_closed (p_leases q ! w_lease (p_cells p ! v))"
      using pq v by (simp add: evolves_def)
    moreover have "v < length (p_cells q)" "w_lease (p_cells p ! v) < length (p_leases q)"
      "w_lease (p_cells q ! v) = w_lease (p_cells p ! v)"
      using pq w by (simp_all add: evolves_def)
    ultimately show ?thesis using qr unfolding evolves_def by (metis UnCI)
  qed
  then show ?thesis using pq qr by (auto simp: evolves_def)
qed

lemma evolves_trans0: "pool_inv p \<Longrightarrow> evolves {} p q \<Longrightarrow> evolves Y q r \<Longrightarrow> evolves Y p r"
  using evolves_trans[of p "{}" q Y r] by simp

lemma evolves_refl: "evolves X p p"
  by (simp add: evolves_def)

lemma evolves_dispatched: "dispatched p q \<Longrightarrow> evolves {} p q"
  by (auto simp: dispatched_def evolves_def)

lemma evolves_release: "evolves {} p (releaseLocked lid n p)"
  by (simp add: evolves_def releaseLocked_lease_frame)

lemma evolves_remove: "evolves {wid} p (pool_remove wid p)"
  by (auto simp: evolves_def pool_remove_def in_set_remove1)

lemma evolves_closing:
  assumes "pool_inv p" "lid < length (p_leases p)"
  shows "evolves {} p (closing lid p)"
proof -
  note spec = closing_spec[OF assms]
  have "w_lease (p_cells p ! v) < length (p_leases p)" if "v \<in> set (p_waiters p)" for v
    using assms(1) that by (simp add: pool_inv_def queued_ok_def Let_def)
  then show ?thesis
    using spec(2-) by (auto simp: evolves_def ready_only_def)
qed

lemma evolves_enqueue: "evolves {} p (enqueue lid n ph p)"
  by (simp add: evolves_def enqueue_def nth_append)

lemma evolves_MarkOpaque: "evolves {} p (MarkOpaque lid p)"
  by (simp add: evolves_def MarkOpaque_def Let_def nth_update_if)

lemma evolves_NewOwner: "evolves {} p (snd (NewOwner p))"
  by (simp add: evolves_def NewOwner_def)

lemma evolves_NewLease: "evolves {} p (snd (NewLease o' p))"
  by (simp add: evolves_def NewLease_def nth_append)

lemma evolves_Shrink:
  assumes "pool_inv p" "lid < length (p_leases p)"
  shows "evolves {} p (Shrink lid n p)"
proof -
  let ?q = "releaseLocked lid (min n (l_bytes (p_leases p ! lid))) p"
  have "pool_inv ?q" if "0 < n"
    using assms that pool_invD(1)[OF assms(1)] by (intro pool_inv_release) simp_all
  then show ?thesis
    using evolves_trans0[OF assms(1) evolves_release evolves_dispatched[OF dispatched_dispatch], of lid]
    by (simp add: Shrink_def evolves_refl)
qed

lemma evolves_Close:
  assumes "pool_inv p" "lid < length (p_leases p)"
  shows "evolves {} p (Close lid p)"
  using evolves_trans0[OF assms(1) evolves_closing[OF assms] evolves_dispatched[OF dispatched_dispatch]]
    closing_spec(1)[OF assms] by (simp add: Close_closing evolves_refl)

section \<open>The pool and its callers\<close>

text \<open>
  A grower is a call of \<open>Grow\<close> blocked in its \<open>select\<close>. \<open>growMu\<close> admits one call of \<open>Grow\<close> at
  a time on a lease. A call resumes when its waiter is ready or its waiting context ended;
  the waiting context derives from the caller's, so it has ended when the caller's has.
\<close>

record grower =
  g_lease :: nat
  g_bytes :: int
  g_wid :: nat

record pool_sys =
  s_pool :: pool
  s_growers :: "grower list"

inductive pool_step :: "pool_sys \<Rightarrow> pool_sys \<Rightarrow> bool" where
  new_owner: "pool_step s (s\<lparr>s_pool := snd (NewOwner (s_pool s))\<rparr>)"
| new_lease: "o' < length (p_owners (s_pool s)) \<Longrightarrow>
    pool_step s (s\<lparr>s_pool := snd (NewLease o' (s_pool s))\<rparr>)"
| mark_opaque: "lid < length (p_leases (s_pool s)) \<Longrightarrow>
    pool_step s (s\<lparr>s_pool := MarkOpaque lid (s_pool s)\<rparr>)"
| shrink: "lid < length (p_leases (s_pool s)) \<Longrightarrow>
    pool_step s (s\<lparr>s_pool := Shrink lid n (s_pool s)\<rparr>)"
| close: "lid < length (p_leases (s_pool s)) \<Longrightarrow>
    pool_step s (s\<lparr>s_pool := Close lid (s_pool s)\<rparr>)"
| grow_done: "\<lbrakk>lid < length (p_leases (s_pool s)); lid \<notin> g_lease ` set (s_growers s);
    grow_begin cerr lid n ph (s_pool s) = (Finished r, q)\<rbrakk> \<Longrightarrow>
    pool_step s (s\<lparr>s_pool := q\<rparr>)"
| grow_wait: "\<lbrakk>lid < length (p_leases (s_pool s)); lid \<notin> g_lease ` set (s_growers s);
    grow_begin cerr lid n ph (s_pool s) = (Waiting wid, q)\<rbrakk> \<Longrightarrow>
    pool_step s (s\<lparr>s_pool := q, s_growers := s_growers s @ [\<lparr>g_lease = lid, g_bytes = n, g_wid = wid\<rparr>]\<rparr>)"
| grow_resume: "\<lbrakk>g \<in> set (s_growers s); w_ready (p_cells (s_pool s) ! g_wid g) \<or> werr \<noteq> None;
    cerr \<noteq> None \<Longrightarrow> werr \<noteq> None;
    grow_finish cerr werr (g_lease g) (g_bytes g) (g_wid g) (s_pool s) = (r, q)\<rbrakk> \<Longrightarrow>
    pool_step s (s\<lparr>s_pool := q, s_growers := remove1 g (s_growers s)\<rparr>)"

inductive pool_reach :: "options \<Rightarrow> pool_sys \<Rightarrow> bool" where
  start: "New opts = Inr p \<Longrightarrow> pool_reach opts \<lparr>s_pool = p, s_growers = []\<rparr>"
| step: "pool_reach opts s \<Longrightarrow> pool_step s t \<Longrightarrow> pool_reach opts t"

definition grower_ok :: "pool \<Rightarrow> grower \<Rightarrow> bool" where
  "grower_ok p g \<longleftrightarrow>
     g_wid g < length (p_cells p) \<and> g_lease g < length (p_leases p) \<and>
     w_lease (p_cells p ! g_wid g) = g_lease g \<and> w_bytes (p_cells p ! g_wid g) = g_bytes g \<and> 0 < g_bytes g \<and>
     (g_wid g \<in> set (p_waiters p) \<or> w_granted (p_cells p ! g_wid g) \<or> l_closed (p_leases p ! g_lease g))"

definition pool_ok :: "pool \<Rightarrow> bool" where
  "pool_ok p \<longleftrightarrow> pool_inv p \<and> settled p \<and> int (length (p_waiters p)) \<le> p_maxWaiters p"

definition sys_inv :: "pool_sys \<Rightarrow> bool" where
  "sys_inv s \<longleftrightarrow>
     pool_ok (s_pool s) \<and> distinct (map g_wid (s_growers s)) \<and> distinct (map g_lease (s_growers s)) \<and>
     (\<forall>g \<in> set (s_growers s). grower_ok (s_pool s) g) \<and>
     set (p_waiters (s_pool s)) \<subseteq> g_wid ` set (s_growers s)"

lemma grower_ok_evolves:
  assumes "evolves X p q" "grower_ok p g" "g_wid g \<notin> X"
  shows "grower_ok q g"
  using assms by (auto simp: grower_ok_def evolves_def)

text \<open>An operation that serves the queue and adds nothing to it.\<close>

definition serves :: "pool \<Rightarrow> pool \<Rightarrow> bool" where
  "serves p q \<longleftrightarrow> pool_inv q \<and> settled q \<and> evolves {} p q \<and> set (p_waiters q) \<subseteq> set (p_waiters p)"

lemma serves_pool_ok:
  assumes "pool_ok p" "serves p q"
  shows "pool_ok q"
proof -
  have "length (p_waiters q) \<le> length (p_waiters p)"
    using assms by (intro length_le_of_subset) (auto simp: serves_def pool_inv_def)
  then show ?thesis using assms by (auto simp: pool_ok_def serves_def evolves_def)
qed

lemma serves_sys_inv:
  assumes "sys_inv s" "serves (s_pool s) q"
  shows "sys_inv (s\<lparr>s_pool := q\<rparr>)"
proof -
  have "pool_ok q" using assms(1) serves_pool_ok[OF _ assms(2)] by (simp add: sys_inv_def)
  moreover have "evolves {} (s_pool s) q" "set (p_waiters q) \<subseteq> set (p_waiters (s_pool s))"
    using assms(2) by (simp_all add: serves_def)
  ultimately show ?thesis
    using assms(1) grower_ok_evolves by (fastforce simp: sys_inv_def)
qed

lemma dispatch_waiters_subset: "pool_inv p \<Longrightarrow> set (p_waiters (dispatch p)) \<subseteq> set (p_waiters p)"
  using dispatched_dispatch subseq_set unfolding dispatched_def by blast

lemma serves_dispatch:
  assumes "pool_inv p" "\<forall>v \<in> set (p_waiters p). w_phase (p_cells p ! v) = Response"
  shows "serves p (dispatch p)"
  using assms
  by (simp add: serves_def pool_inv_dispatch settled_dispatch evolves_dispatched dispatched_dispatch dispatch_waiters_subset)

lemma serves_ops:
  assumes "pool_inv p" "settled p"
  shows "serves p (snd (NewOwner p))"
    and "o' < length (p_owners p) \<Longrightarrow> serves p (snd (NewLease o' p))"
    and "lid < length (p_leases p) \<Longrightarrow> serves p (MarkOpaque lid p)"
    and "lid < length (p_leases p) \<Longrightarrow> serves p (Shrink lid n p)"
    and "lid < length (p_leases p) \<Longrightarrow> serves p (Close lid p)"
proof -
  show "serves p (snd (NewOwner p))" "o' < length (p_owners p) \<Longrightarrow> serves p (snd (NewLease o' p))"
    using assms evolves_NewOwner evolves_NewLease
    by (simp_all add: serves_def pool_inv_NewOwner pool_inv_NewLease settled_NewOwner settled_NewLease)
      (simp_all add: NewOwner_def NewLease_def)
  assume lid: "lid < length (p_leases p)"
  show "serves p (MarkOpaque lid p)"
    using assms lid evolves_MarkOpaque
    by (simp add: serves_def pool_inv_MarkOpaque settled_MarkOpaque) (simp add: MarkOpaque_def Let_def)
  have "pool_inv (releaseLocked lid (min n (l_bytes (p_leases p ! lid))) p)" if "0 < n"
    using assms that lid pool_invD(1)[OF assms(1)] by (intro pool_inv_release) simp_all
  then have "set (p_waiters (Shrink lid n p)) \<subseteq> set (p_waiters p)"
    using dispatch_waiters_subset[of "releaseLocked lid (min n (l_bytes (p_leases p ! lid))) p"]
    by (simp add: Shrink_def)
  then show "serves p (Shrink lid n p)"
    using assms lid by (simp add: serves_def pool_inv_Shrink settled_Shrink evolves_Shrink)
  have "set (p_waiters (Close lid p)) \<subseteq> set (p_waiters p)"
    using dispatch_waiters_subset[OF closing_spec(1)[OF assms(1) lid]] closing_spec(2)[OF assms(1) lid]
    by (auto simp: Close_closing)
  then show "serves p (Close lid p)"
    using assms lid by (simp add: serves_def pool_inv_Close settled_Close evolves_Close)
qed

lemma unfit_remove: "unfit (pool_remove w p) v = unfit p v" "p_cells (pool_remove w p) = p_cells p"
  by (simp_all add: pool_remove_def unfit_def grant_limit_def wait_owner_def)

lemma grow_dispatch:
  fixes p lid n ph
  defines "d \<equiv> dispatch (enqueue lid n ph p)" and "wid \<equiv> length (p_cells p)"
  assumes ok: "pool_ok p" and l: "lid < length (p_leases p)" "\<not> l_closed (p_leases p ! lid)"
    and n: "0 < n" "n \<le> p_total p"
  shows "pool_inv d" "evolves {} p d" "set (p_waiters d) \<subseteq> insert wid (set (p_waiters p))"
    "wid < length (p_cells d)" "w_lease (p_cells d ! wid) = lid" "w_bytes (p_cells d ! wid) = n"
    "wid \<in> set (p_waiters d) \<longleftrightarrow> \<not> w_granted (p_cells d ! wid)"
    "settled (pool_remove wid d)" "ph = Response \<or> wid \<notin> set (p_waiters d) \<Longrightarrow> settled d"
proof -
  let ?e = "enqueue lid n ph p"
  have inv: "pool_inv p" "settled p" using ok by (simp_all add: pool_ok_def)
  have e: "pool_inv ?e" using inv(1) l n by (rule pool_inv_enqueue)
  have disp: "dispatched ?e d" unfolding d_def using e by (rule dispatched_dispatch)
  show d: "pool_inv d" unfolding d_def using e by (rule pool_inv_dispatch)
  show "evolves {} p d" using evolves_trans0[OF inv(1) evolves_enqueue evolves_dispatched[OF disp]] .
  show sub: "set (p_waiters d) \<subseteq> insert wid (set (p_waiters p))"
    using dispatch_waiters_subset[OF e] by (simp add: d_def enqueue_def wid_def)
  have cell: "p_cells ?e ! wid = \<lparr>w_lease = lid, w_bytes = n, w_phase = ph, w_ready = False, w_granted = False\<rparr>"
    "wid < length (p_cells ?e)" "wid \<in> set (p_waiters ?e)"
    by (simp_all add: enqueue_def wid_def)
  show wid: "wid < length (p_cells d)" using disp cell(2) by (simp add: dispatched_def)
  have cd: "p_cells d ! v = (if v \<in> set (p_waiters ?e) \<and> v \<notin> set (p_waiters d)
      then (p_cells ?e ! v)\<lparr>w_granted := True, w_ready := True\<rparr> else p_cells ?e ! v)" for v
    using disp by (simp add: dispatched_def)
  show "w_lease (p_cells d ! wid) = lid" "w_bytes (p_cells d ! wid) = n"
    "wid \<in> set (p_waiters d) \<longleftrightarrow> \<not> w_granted (p_cells d ! wid)"
    using cd[of wid] cell by simp_all
  have old: "w_phase (p_cells d ! v) = Response" if "v \<in> set (p_waiters p)" for v
  proof -
    have "v < length (p_cells p)" using inv(1) that by (simp add: pool_inv_def queued_ok_def)
    then show ?thesis using cd[of v] settledD[OF inv(2)] that by (simp add: enqueue_def nth_append)
  qed
  have unf: "unfit d v" if "v \<in> set (p_waiters d)" "w_phase (p_cells d ! v) = Response" for v
    using dispatch_responses(1)[OF e] that by (simp add: d_def)
  have "wid \<notin> set (p_waiters (pool_remove wid d))"
    using d by (simp add: pool_remove_def pool_inv_def)
  then have "set (p_waiters (pool_remove wid d)) \<subseteq> set (p_waiters p) \<inter> set (p_waiters d)"
    using sub by (auto simp: pool_remove_def dest: set_remove1_subset[THEN subsetD])
  then show "settled (pool_remove wid d)"
    using old unf by (auto simp: settled_def unfit_remove)
  assume "ph = Response \<or> wid \<notin> set (p_waiters d)"
  then have "w_phase (p_cells d ! v) = Response" if "v \<in> set (p_waiters d)" for v
    using that sub old cd[of wid] cell by (cases "v = wid") auto
  then show "settled d" using unf by (simp add: settled_def)
qed

lemma owner_room:
  assumes "pool_ok p" "lid < length (p_leases p)" "n \<le> p_total p - p_owners p ! l_owner (p_leases p ! lid)"
  shows "n \<le> p_total p"
proof -
  have "acct p" using assms(1) by (simp add: pool_ok_def pool_inv_def)
  then have "0 \<le> p_owners p ! l_owner (p_leases p ! lid)"
    using assms(2) by (intro acct_owner_bound) simp_all
  with assms(3) show ?thesis by simp
qed

lemma phase_limit: "pool_ok p \<Longrightarrow> n \<le> (if ph = Request then p_normal p else p_total p) - x \<Longrightarrow> n \<le> p_total p - x"
  by (auto simp: pool_ok_def pool_inv_def limits_def split: if_splits)

lemma evolves_fresh: "pool_inv p \<Longrightarrow> length (p_cells p) \<le> w \<Longrightarrow> evolves {w} p q \<Longrightarrow> evolves {} p q"
proof -
  assume inv: "pool_inv p" and w: "length (p_cells p) \<le> w" and e: "evolves {w} p q"
  have "w \<notin> set (p_waiters p)" using inv w by (auto simp: pool_inv_def queued_ok_def)
  with e show "evolves {} p q" unfolding evolves_def by blast
qed

lemma serves_grow_done:
  assumes ok: "pool_ok p" and lid: "lid < length (p_leases p)"
    and run: "grow_begin cerr lid n ph p = (Finished r, q)"
  shows "serves p q"
  using run
proof (cases rule: grow_begin_cases)
  case (early x)
  with ok show ?thesis by (simp add: serves_def pool_ok_def evolves_refl)
next
  case granted
  have "n \<le> p_total p" using owner_room[OF ok lid phase_limit[OF ok granted(5)]] .
  note d = grow_dispatch[OF ok lid granted(6,4) this, of ph, folded granted(2)]
  with granted(3) show ?thesis by (auto simp: serves_def)
next
  case busy
  have "n \<le> p_total p" using owner_room[OF ok lid phase_limit[OF ok busy(5)]] .
  note d = grow_dispatch[OF ok lid busy(6,4) this, of ph]
  have inv: "pool_inv p" using ok by (simp add: pool_ok_def)
  have "evolves {} p q"
    using evolves_trans0[OF inv d(2) evolves_remove] evolves_fresh[OF inv] unfolding busy(2) by blast
  moreover have "set (p_waiters q) \<subseteq> set (p_waiters p)"
    using d(1,3) by (auto simp: busy(2) pool_remove_def pool_inv_def)
  ultimately show ?thesis
    using d(8) pool_inv_remove[OF d(1)] by (simp add: serves_def busy(2))
next
  case waiting
  then show ?thesis by simp
qed

lemma sys_inv_grow_wait:
  assumes sys: "sys_inv s" and lid: "lid < length (p_leases (s_pool s))" and free: "lid \<notin> g_lease ` set (s_growers s)"
    and run: "grow_begin cerr lid n ph (s_pool s) = (Waiting wid, q)"
  shows "sys_inv (s\<lparr>s_pool := q, s_growers := s_growers s @ [\<lparr>g_lease = lid, g_bytes = n, g_wid = wid\<rparr>]\<rparr>)"
  using run
proof (cases rule: grow_begin_cases)
  case waiting
  let ?p = "s_pool s"
  have ok: "pool_ok ?p" using sys by (simp add: sys_inv_def)
  have wid: "wid = length (p_cells ?p)" using waiting(1) by simp
  have "n \<le> p_total ?p" using owner_room[OF ok lid waiting(7)] .
  note d = grow_dispatch[OF ok lid waiting(8,6) this, of ph, folded waiting(2)]
  have "pool_ok q" using d(1,9) waiting(3,5) by (simp add: pool_ok_def)
  moreover have "grower_ok q g" if "g \<in> set (s_growers s)" for g
    using that sys by (intro grower_ok_evolves[OF d(2)]) (simp_all add: sys_inv_def)
  moreover have "lid < length (p_leases q)" using lid d(2) by (simp add: evolves_def)
  then have "grower_ok q \<lparr>g_lease = lid, g_bytes = n, g_wid = wid\<rparr>"
    using d(4-7) waiting(4,6) wid by (simp add: grower_ok_def)
  moreover have "wid \<notin> g_wid ` set (s_growers s)"
    using sys wid by (auto simp: sys_inv_def grower_ok_def)
  moreover have "set (p_waiters q) \<subseteq> insert wid (g_wid ` set (s_growers s))"
    using d(3) sys wid by (auto simp: sys_inv_def)
  ultimately show ?thesis
    using sys free by (auto simp: sys_inv_def)
qed simp_all

lemma grower_ready:
  assumes sys: "sys_inv s" and g: "g \<in> set (s_growers s)"
  shows "g_wid g \<in> set (p_waiters (s_pool s)) \<Longrightarrow> \<not> w_ready (p_cells (s_pool s) ! g_wid g) \<and>
      \<not> w_granted (p_cells (s_pool s) ! g_wid g) \<and> \<not> l_closed (p_leases (s_pool s) ! g_lease g)"
    and "w_ready (p_cells (s_pool s) ! g_wid g) \<Longrightarrow> \<not> l_closed (p_leases (s_pool s) ! g_lease g) \<Longrightarrow>
      w_granted (p_cells (s_pool s) ! g_wid g)"
proof -
  have ok: "grower_ok (s_pool s) g" and inv: "pool_inv (s_pool s)"
    using sys g by (simp_all add: sys_inv_def pool_ok_def)
  show 1: "g_wid g \<in> set (p_waiters (s_pool s)) \<Longrightarrow> \<not> w_ready (p_cells (s_pool s) ! g_wid g) \<and>
      \<not> w_granted (p_cells (s_pool s) ! g_wid g) \<and> \<not> l_closed (p_leases (s_pool s) ! g_lease g)"
    using pool_invD(4)[OF inv, of "g_wid g"] ok by (auto simp: queued_ok_def grower_ok_def Let_def)
  show "w_ready (p_cells (s_pool s) ! g_wid g) \<Longrightarrow> \<not> l_closed (p_leases (s_pool s) ! g_lease g) \<Longrightarrow>
      w_granted (p_cells (s_pool s) ! g_wid g)"
    using 1 ok by (auto simp: grower_ok_def)
qed

text \<open>Resuming withdraws the caller's waiter, whatever became of it.\<close>

lemma grow_finish_spec:
  assumes sys: "sys_inv s" and g: "g \<in> set (s_growers s)"
    and run: "grow_finish cerr werr (g_lease g) (g_bytes g) (g_wid g) (s_pool s) = (r, q)"
  shows "pool_inv q \<and> settled q \<and> evolves {g_wid g} (s_pool s) q \<and>
    set (p_waiters q) \<subseteq> set (p_waiters (s_pool s)) - {g_wid g}"
proof -
  let ?p = "s_pool s"
  let ?l = "p_leases ?p ! g_lease g"
  let ?rel = "releaseLocked (g_lease g) (min (g_bytes g) (l_bytes ?l)) ?p"
  let ?rem = "pool_remove (g_wid g) ?p"
  have inv: "pool_inv ?p" "settled ?p" and lid: "g_lease g < length (p_leases ?p)"
    and gok: "grower_ok ?p g"
    using sys g by (simp_all add: sys_inv_def pool_ok_def grower_ok_def)
  note ready = grower_ready[OF sys g]
  have weaken: "evolves {} ?p x \<Longrightarrow> evolves {g_wid g} ?p x" for x by (auto simp: evolves_def)
  have rem: "pool_inv ?rem" "settled ?rem" using inv by (simp_all add: pool_inv_remove settled_remove)
  have w: "g_wid g \<notin> set (p_waiters ?rem)" "set (p_waiters ?rem) \<subseteq> set (p_waiters ?p)"
    using inv(1) by (auto simp: pool_remove_def pool_inv_def)
  have "serves ?rem (dispatch ?rem)" using rem settledD by (intro serves_dispatch) auto
  then have rem_case: ?thesis if "q = dispatch ?rem"
    using that w evolves_trans[OF inv(1) evolves_remove, of "{}"] by (auto simp: serves_def)
  have rel_case: ?thesis if "q = dispatch ?rel" "w_granted (p_cells ?p ! g_wid g)"
  proof -
    have rel: "pool_inv ?rel"
      using gok lid pool_invD(1)[OF inv(1)] by (intro pool_inv_release[OF inv(1)]) (simp_all add: grower_ok_def)
    then have "serves ?rel (dispatch ?rel)" using settledD[OF inv(2)] by (intro serves_dispatch) simp_all
    with that show ?thesis
      using ready(1) weaken[OF evolves_trans0[OF inv(1) evolves_release]] by (auto simp: serves_def)
  qed
  have same_case: ?thesis if "q = ?p" "w_granted (p_cells ?p ! g_wid g) \<or> l_closed ?l"
    using that inv ready(1) evolves_refl by blast
  show ?thesis
    using run rem_case rel_case same_case
    by (simp add: grow_finish_def Let_def split: if_splits)
qed

lemma sys_inv_grow_resume:
  assumes sys: "sys_inv s" and g: "g \<in> set (s_growers s)"
    and run: "grow_finish cerr werr (g_lease g) (g_bytes g) (g_wid g) (s_pool s) = (r, q)"
  shows "sys_inv (s\<lparr>s_pool := q, s_growers := remove1 g (s_growers s)\<rparr>)"
proof -
  let ?gs = "remove1 g (s_growers s)"
  have q: "pool_inv q" "settled q" "evolves {g_wid g} (s_pool s) q"
    "set (p_waiters q) \<subseteq> set (p_waiters (s_pool s)) - {g_wid g}"
    using grow_finish_spec[OF assms] by simp_all
  have d: "distinct (map g_wid (s_growers s))" "distinct (map g_lease (s_growers s))"
    using sys by (simp_all add: sys_inv_def)
  then have gs: "set ?gs = set (s_growers s) - {g}" by (simp add: distinct_map)
  have "length (p_waiters q) \<le> length (p_waiters (s_pool s))"
    using q(1,4) by (intro length_le_of_subset) (auto simp: pool_inv_def)
  then have "pool_ok q" using q sys by (auto simp: pool_ok_def sys_inv_def evolves_def)
  moreover have "grower_ok q h" if "h \<in> set ?gs" for h
  proof (rule grower_ok_evolves[OF q(3)])
    show "grower_ok (s_pool s) h" using that gs sys by (simp add: sys_inv_def)
    show "g_wid h \<notin> {g_wid g}" using that gs g d(1) by (auto simp: distinct_map inj_on_def)
  qed
  moreover have "set (p_waiters q) \<subseteq> g_wid ` set ?gs"
  proof
    fix v assume v: "v \<in> set (p_waiters q)"
    with q(4) sys obtain h where "h \<in> set (s_growers s)" "v = g_wid h" "v \<noteq> g_wid g"
      unfolding sys_inv_def by blast
    then show "v \<in> g_wid ` set ?gs" using gs by auto
  qed
  moreover have "distinct (map g_wid ?gs)" "distinct (map g_lease ?gs)"
    using d gs by (auto simp: distinct_map inj_on_def distinct_remove1)
  ultimately show ?thesis by (simp add: sys_inv_def)
qed

lemma sys_inv_step:
  assumes step: "pool_step s t" and sys: "sys_inv s"
  shows "sys_inv t"
proof -
  have p: "pool_inv (s_pool s)" "settled (s_pool s)" "pool_ok (s_pool s)"
    using sys by (simp_all add: sys_inv_def pool_ok_def)
  note ops = serves_ops[OF p(1,2), THEN serves_sys_inv[OF sys]]
  show ?thesis
    using step
  proof cases
    case (grow_done lid cerr n ph r q)
    then show ?thesis using serves_sys_inv[OF sys serves_grow_done[OF p(3)]] by simp
  next
    case (grow_wait lid cerr n ph wid q)
    then show ?thesis using sys_inv_grow_wait[OF sys] by simp
  next
    case (grow_resume g werr cerr r q)
    then show ?thesis using sys_inv_grow_resume[OF sys] by simp
  qed (simp_all add: ops)
qed

lemma New_inv:
  assumes "New opts = Inr p"
  shows "pool_ok p" "p_waiters p = []" "p_used p = 0" "0 < p_normal p" "p_normal p < p_total p"
proof -
  let ?b = "o_Bytes opts" and ?k = "o_BurstPercent opts"
  have b: "1024 \<le> ?b" "1 \<le> ?k" "?k \<le> 99"
    and p: "p_total p = ?b" "p_normal p = ?b - ?b div 100 * ?k" "p_used p = 0" "p_opaque p = 0"
      "p_burstOwner p = None" "p_waiters p = []" "0 \<le> p_maxWaiters p" "p_leases p = []" "p_owners p = []"
    using assms by (auto simp: New_def Let_def split: if_splits)
  have d: "10 \<le> ?b div 100" using b(1) by linarith
  have "?b div 100 * ?k \<le> ?b div 100 * 99" using b d by (intro mult_left_mono) simp_all
  moreover have "0 < ?b div 100 * ?k" using b d by (intro mult_pos_pos) simp_all
  moreover have "?b div 100 * 100 \<le> ?b" by linarith
  ultimately show np: "0 < p_normal p" "p_normal p < p_total p" using p(1,2) d by linarith+
  show "p_waiters p = []" "p_used p = 0" using p by simp_all
  show "pool_ok p"
    using np p by (simp add: pool_ok_def pool_inv_def settled_def acct_def limits_def lease_sum_def)
qed

lemma pool_reach_inv: "pool_reach opts s \<Longrightarrow> sys_inv s"
proof (induction rule: pool_reach.induct)
  case (start opts p)
  then show ?case using New_inv[OF start] by (simp add: sys_inv_def)
next
  case (step opts s t)
  then show ?case using sys_inv_step by blast
qed

lemma dispatch_loop_skip:
  assumes "i \<le> k" "k \<le> length (p_waiters p)"
    and "\<forall>v \<in> set (p_waiters p). v \<in> set (take k (p_waiters p)) \<longrightarrow> w_phase (p_cells p ! v) = Response \<and> unfit p v"
  shows "dispatch_loop Response i pending p = dispatch_loop Response k (pending \<or> i < k) p"
  using assms
proof (induction "k - i" arbitrary: i pending)
  case 0
  then show ?case by simp
next
  case (Suc d)
  then have i: "i < k" "i < length (p_waiters p)" by simp_all
  have "p_waiters p ! i \<in> set (take k (p_waiters p))" using i by (metis in_set_conv_nth length_take min_less_iff_conj nth_take)
  then have "w_phase (p_cells p ! (p_waiters p ! i)) = Response" "unfit p (p_waiters p ! i)"
    using Suc.prems(3) i by auto
  then have "dispatch_loop Response i pending p = dispatch_loop Response (Suc i) True p"
    using i by (simp add: dispatch_loop.simps[of _ i] unfit_def)
  also have "\<dots> = dispatch_loop Response k (True \<or> Suc i < k) p"
    using Suc.hyps(2) Suc.prems i by (intro Suc.hyps(1)) auto
  finally show ?case using i by simp
qed

lemma enqueue_fields [simp]:
  "p_waiters (enqueue lid n ph p) = p_waiters p @ [length (p_cells p)]"
  "p_cells (enqueue lid n ph p) ! length (p_cells p) =
     \<lparr>w_lease = lid, w_bytes = n, w_phase = ph, w_ready = False, w_granted = False\<rparr>"
  "p_used (enqueue lid n ph p) = p_used p"
  by (simp_all add: enqueue_def)

lemma dispatch_enqueue:
  fixes p lid n ph
  defines "e \<equiv> enqueue lid n ph p" and "wid \<equiv> length (p_cells p)"
  assumes inv: "pool_inv p" and set: "settled p" and ph: "ph = Request \<or> ph = Response"
  shows "dispatch e =
    (if (ph = Response \<or> p_waiters p = []) \<and> n \<le> grant_limit ph wid e - p_used p then grant wid e else e)"
proof -
  let ?k = "length (p_waiters p)"
  have fresh: "wid \<notin> set (p_waiters p)" using inv by (auto simp: wid_def pool_inv_def queued_ok_def)
  have old: "w_phase (p_cells e ! v) = Response \<and> unfit e v" if v: "v \<in> set (p_waiters p)" for v
  proof -
    have "v < length (p_cells p)" using inv v by (simp add: pool_inv_def queued_ok_def)
    then have "unfit e v = unfit p v" "p_cells e ! v = p_cells p ! v"
      by (simp_all add: e_def enqueue_def unfit_def grant_limit_def wait_owner_def nth_append)
    then show ?thesis using set v by (simp add: settled_def)
  qed
  have ews: "p_waiters e = p_waiters p @ [wid]" "p_used e = p_used p" "p_waiters e ! ?k = wid"
    and cell: "p_cells e ! wid = \<lparr>w_lease = lid, w_bytes = n, w_phase = ph, w_ready = False, w_granted = False\<rparr>"
    by (simp_all add: e_def wid_def)
  have gws: "p_waiters (grant wid e) = p_waiters p" using fresh by (simp add: ews remove1_append)
  have skip: "dispatch_loop Response 0 False e = dispatch_loop Response ?k (0 < ?k) e"
    using dispatch_loop_skip[of 0 ?k e False] old by (simp add: ews)
  have stop: "dispatch_loop r j b q = (b, q)" if "length (p_waiters q) \<le> j" for r j b q
    using that by (simp add: dispatch_loop.simps[of r j b q])
  have stop_grant: "dispatch_loop r ?k b (grant wid e) = (b, grant wid e)" for r b
    by (rule stop) (simp only: gws order_refl)
  have last: "dispatch_loop r ?k b e = (if r \<noteq> ph then (b, e) else if n > grant_limit ph wid e - p_used p
      then (ph = Response, e) else (b, grant wid e))" for r b
    using stop[of e "Suc ?k"] stop_grant by (simp add: dispatch_loop.simps[of r ?k b e] ews cell)
  show ?thesis
  proof (cases "p_waiters p = []")
    case True
    then show ?thesis using ph last[of _ False] stop_grant skip by (auto simp: dispatch_def ews)
  next
    case False
    then show ?thesis using ph last[of Response True] skip by (auto simp: dispatch_def)
  qed
qed

lemma all_closed_empty:
  assumes inv: "pool_inv p" and c: "\<forall>l \<in> set (p_leases p). l_closed l"
  shows "p_used p = 0 \<and> p_opaque p = 0 \<and> p_waiters p = [] \<and> p_burstOwner p = None"
proof -
  have z: "lease_sum P p = 0" for P
    unfolding lease_sum_def by (rule sum_list_zero_int) (use inv c in \<open>auto simp: pool_inv_def\<close>)
  then have "p_used p = 0" "p_opaque p = 0" using inv by (simp_all add: pool_inv_def acct_def)
  moreover have "p_waiters p = []"
  proof (rule ccontr)
    assume "p_waiters p \<noteq> []"
    then have "queued_ok p (hd (p_waiters p))" using inv by (simp add: pool_inv_def)
    with c show False by (auto simp: queued_ok_def Let_def)
  qed
  moreover have "p_burstOwner p = None"
    using inv \<open>p_used p = 0\<close> by (auto simp: pool_inv_def limits_def split: option.splits)
  ultimately show ?thesis by simp
qed

lemma grow_begin_settled:
  assumes ok: "pool_ok p" and lid: "lid < length (p_leases p)"
    and run: "grow_begin cerr lid n ph p = (r, q)"
  shows "r = Finished (Inr ()) \<Longrightarrow>
      p_leases q = (p_leases p)[lid := (p_leases p ! lid)\<lparr>l_bytes := l_bytes (p_leases p ! lid) + n\<rparr>] \<and>
      p_used q = p_used p + n \<and> p_waiters q = p_waiters p \<and>
      (ph = Request \<longrightarrow> 0 < n \<longrightarrow> p_waiters p = [] \<and> p_used q \<le> p_normal q)"
    and "r = Finished (Inl err) \<Longrightarrow> p_leases q = p_leases p \<and> p_owners q = p_owners p \<and>
      p_used q = p_used p \<and> p_burstOwner q = p_burstOwner p \<and> p_waiters q = p_waiters p"
    and "r = Waiting wid \<Longrightarrow> ph = Response \<and> p_leases q = p_leases p \<and> p_owners q = p_owners p \<and>
      p_used q = p_used p \<and> p_burstOwner q = p_burstOwner p \<and> p_waiters q = p_waiters p @ [wid]"
proof -
  let ?w = "length (p_cells p)"
  let ?e = "enqueue lid n ph p"
  have inv: "pool_inv p" "settled p" using ok by (simp_all add: pool_ok_def)
  have fresh: "?w \<notin> set (p_waiters p)" using inv by (auto simp: pool_inv_def queued_ok_def)
  have d: "dispatch ?e = (if (ph = Response \<or> p_waiters p = []) \<and> n \<le> grant_limit ph ?w ?e - p_used p then grant ?w ?e else ?e)"
    if "ph = Request \<or> ph = Response"
    using inv that by (rule dispatch_enqueue)
  have e: "p_leases ?e = p_leases p" "p_owners ?e = p_owners p" "p_burstOwner ?e = p_burstOwner p"
    "p_normal ?e = p_normal p" "\<not> w_granted (p_cells ?e ! ?w)" by (simp_all add: enqueue_def)
  show "p_leases q = (p_leases p)[lid := (p_leases p ! lid)\<lparr>l_bytes := l_bytes (p_leases p ! lid) + n\<rparr>] \<and>
      p_used q = p_used p + n \<and> p_waiters q = p_waiters p \<and>
      (ph = Request \<longrightarrow> 0 < n \<longrightarrow> p_waiters p = [] \<and> p_used q \<le> p_normal q)" if "r = Finished (Inr ())"
    using run
  proof (cases rule: grow_begin_cases)
    case (early x)
    then show ?thesis using that by simp
  next
    case granted
    then have "q = grant ?w ?e" "ph = Response \<or> p_waiters p = []" "n \<le> grant_limit ph ?w ?e - p_used p"
      using d e(5) by (auto split: if_splits)
    then show ?thesis using fresh e by (auto simp: grant_def Let_def remove1_append grant_limit_def)
  qed (use that in simp_all)
  show "p_leases q = p_leases p \<and> p_owners q = p_owners p \<and> p_used q = p_used p \<and>
      p_burstOwner q = p_burstOwner p \<and> p_waiters q = p_waiters p" if "r = Finished (Inl err)"
    using run
  proof (cases rule: grow_begin_cases)
    case busy
    have "w_granted (p_cells (grant ?w ?e) ! ?w)" by (simp add: grant_def Let_def enqueue_def)
    then have "q = pool_remove ?w ?e"
      using busy d[OF busy(7)] by (auto simp: unfit_remove split: if_splits)
    then show ?thesis using fresh e by (simp add: pool_remove_def remove1_append)
  qed (use that in simp_all)
  show "ph = Response \<and> p_leases q = p_leases p \<and> p_owners q = p_owners p \<and> p_used q = p_used p \<and>
      p_burstOwner q = p_burstOwner p \<and> p_waiters q = p_waiters p @ [wid]" if "r = Waiting wid"
    using run
  proof (cases rule: grow_begin_cases)
    case waiting
    have "w_granted (p_cells (grant ?w ?e) ! ?w)" by (simp add: grant_def Let_def enqueue_def)
    then have "q = ?e" using waiting d by (auto split: if_splits)
    then show ?thesis using waiting that e by simp
  qed (use that in simp_all)
qed

section \<open>A run of the pool\<close>

text \<open>
  A pool of 1024 bytes with a reserve of 200. The first owner holds 900 bytes, so it has
  borrowed the reserve; a response of the second owner waits for 50 bytes.
\<close>

definition demo_opts :: options where
  "demo_opts = \<lparr>o_Bytes = 1024, o_BurstPercent = 20, o_WaitTimeout = 5, o_MaxWaiters = 4\<rparr>"

definition demo_pool :: pool where
  "demo_pool =
     (let p0 = projr (New demo_opts);
          p1 = snd (NewOwner (snd (NewOwner p0)));
          p2 = snd (NewLease 1 (snd (NewLease 0 p1)));
          p3 = snd (grow_begin None 0 800 Request p2);
          p4 = snd (grow_begin None 0 100 Response p3)
      in snd (grow_begin None 1 50 Response p4))"

definition demo_sys :: pool_sys where
  "demo_sys = \<lparr>s_pool = demo_pool, s_growers = [\<lparr>g_lease = 1, g_bytes = 50, g_wid = 2\<rparr>]\<rparr>"

lemma demo_pool_value:
  "demo_pool = \<lparr>p_total = 1024, p_normal = 824, p_used = 900, p_opaque = 0, p_burstOwner = Some 0,
     p_waiters = [2], p_maxWaiters = 4, p_owners = [900, 0],
     p_leases = [\<lparr>l_owner = 0, l_bytes = 900, l_closed = False, l_opaque = False\<rparr>,
                 \<lparr>l_owner = 1, l_bytes = 0, l_closed = False, l_opaque = False\<rparr>],
     p_cells = [\<lparr>w_lease = 0, w_bytes = 800, w_phase = Request, w_ready = True, w_granted = True\<rparr>,
                \<lparr>w_lease = 0, w_bytes = 100, w_phase = Response, w_ready = True, w_granted = True\<rparr>,
                \<lparr>w_lease = 1, w_bytes = 50, w_phase = Response, w_ready = False, w_granted = False\<rparr>]\<rparr>"
  by code_simp

text \<open>The rules of \<open>pool_reach\<close> over record literals, for executing a run.\<close>

lemma reach_owner:
  "pool_reach opts \<lparr>s_pool = p, s_growers = gs\<rparr> \<Longrightarrow> pool_reach opts \<lparr>s_pool = snd (NewOwner p), s_growers = gs\<rparr>"
  using pool_reach.step[OF _ new_owner[of "\<lparr>s_pool = p, s_growers = gs\<rparr>"]] by simp

lemma reach_lease:
  "pool_reach opts \<lparr>s_pool = p, s_growers = gs\<rparr> \<Longrightarrow> o' < length (p_owners p) \<Longrightarrow>
   pool_reach opts \<lparr>s_pool = snd (NewLease o' p), s_growers = gs\<rparr>"
  using pool_reach.step[OF _ new_lease[of o' "\<lparr>s_pool = p, s_growers = gs\<rparr>"]] by simp

lemma reach_close:
  "pool_reach opts \<lparr>s_pool = p, s_growers = gs\<rparr> \<Longrightarrow> lid < length (p_leases p) \<Longrightarrow>
   pool_reach opts \<lparr>s_pool = Close lid p, s_growers = gs\<rparr>"
  using pool_reach.step[OF _ close[of lid "\<lparr>s_pool = p, s_growers = gs\<rparr>"]] by simp

lemma reach_done:
  "pool_reach opts \<lparr>s_pool = p, s_growers = gs\<rparr> \<Longrightarrow>
   lid < length (p_leases p) \<and> lid \<notin> set (map g_lease gs) \<and> fst (grow_begin cerr lid n ph p) = Finished r \<Longrightarrow>
   pool_reach opts \<lparr>s_pool = snd (grow_begin cerr lid n ph p), s_growers = gs\<rparr>"
  using pool_reach.step[OF _ grow_done[of lid "\<lparr>s_pool = p, s_growers = gs\<rparr>" cerr n ph r "snd (grow_begin cerr lid n ph p)"]]
  by (simp add: prod_eq_iff)

lemma reach_wait:
  "pool_reach opts \<lparr>s_pool = p, s_growers = gs\<rparr> \<Longrightarrow>
   lid < length (p_leases p) \<and> lid \<notin> set (map g_lease gs) \<and> fst (grow_begin cerr lid n ph p) = Waiting wid \<Longrightarrow>
   pool_reach opts \<lparr>s_pool = snd (grow_begin cerr lid n ph p), s_growers = gs @ [\<lparr>g_lease = lid, g_bytes = n, g_wid = wid\<rparr>]\<rparr>"
  using pool_reach.step[OF _ grow_wait[of lid "\<lparr>s_pool = p, s_growers = gs\<rparr>" cerr n ph wid "snd (grow_begin cerr lid n ph p)"]]
  by (simp add: prod_eq_iff)

lemma demo_reach: "pool_reach demo_opts demo_sys"
proof -
  let ?p0 = "projr (New demo_opts)"
  have "New demo_opts = Inr ?p0" by code_simp
  then have "pool_reach demo_opts \<lparr>s_pool = ?p0, s_growers = []\<rparr>" by (rule pool_reach.start)
  note a = this[THEN reach_owner, THEN reach_owner]
  have b: "0 < length (p_owners (snd (NewOwner (snd (NewOwner ?p0)))))"
    "1 < length (p_owners (snd (NewLease 0 (snd (NewOwner (snd (NewOwner ?p0)))))))" by code_simp+
  note c = reach_lease[OF reach_lease[OF a b(1)] b(2)]
  note d = reach_done[OF c, of 0 None 800 Request "Inr ()"]
  note e = reach_done[OF d, of 0 None 100 Response "Inr ()"]
  note f = reach_wait[OF e, of 1 None 50 Response 2]
  have g: "demo_sys = \<lparr>s_pool = demo_pool, s_growers = [] @ [\<lparr>g_lease = 1, g_bytes = 50, g_wid = 2\<rparr>]\<rparr>"
    by (simp add: demo_sys_def)
  show ?thesis
    unfolding g demo_pool_def Let_def by (rule f) (code_simp)+
qed

section \<open>Properties\<close>

text \<open>
  C1: in every state the callers can reach, the bytes the pool counts as used are the bytes its
  leases hold, the opaque bytes those of the opaque leases, each owner's bytes those of its
  leases; no lease holds a negative amount, a closed lease holds nothing, and the total is
  never exceeded.
\<close>

theorem pool_accounts:
  assumes "pool_reach opts s"
  shows "Used (s_pool s) = sum_list (map l_bytes (p_leases (s_pool s))) \<and>
    p_opaque (s_pool s) = sum_list (map l_bytes (filter l_opaque (p_leases (s_pool s)))) \<and>
    (\<forall>o' < length (p_owners (s_pool s)). p_owners (s_pool s) ! o' =
       sum_list (map l_bytes (filter (\<lambda>l. l_owner l = o') (p_leases (s_pool s))))) \<and>
    (\<forall>l \<in> set (p_leases (s_pool s)). 0 \<le> l_bytes l \<and> (l_closed l \<longrightarrow> l_bytes l = 0)) \<and>
    Used (s_pool s) \<le> Limit (s_pool s)"
proof -
  have inv: "pool_inv (s_pool s)"
    using pool_reach_inv[OF assms] by (simp add: sys_inv_def pool_ok_def)
  have "lease_sum P p = sum_list (map l_bytes (filter P (p_leases p)))" for P and p :: pool
    by (simp add: lease_sum_def sum_list_map_filter')
  then show ?thesis
    using inv by (auto simp: pool_inv_def acct_def limits_def Used_def Limit_def)
qed

theorem pool_accounts_witness:
  "Used (s_pool demo_sys) = 900 \<and>
   Used (s_pool demo_sys) = sum_list (map l_bytes (p_leases (s_pool demo_sys))) \<and> Used (s_pool demo_sys) \<le> 1024"
  using pool_accounts[OF demo_reach] by (simp add: demo_sys_def demo_pool_value Used_def Limit_def)

text \<open>
  C2: the completion reserve is lent to at most one owner, exactly while more than the ordinary
  capacity is in use, and everyone else together stays within the ordinary capacity.
\<close>

theorem pool_reserve_exclusive:
  assumes "pool_reach opts s"
  shows "(p_burstOwner (s_pool s) = None \<longleftrightarrow> p_used (s_pool s) \<le> p_normal (s_pool s)) \<and>
    (\<forall>b. p_burstOwner (s_pool s) = Some b \<longrightarrow>
       b < length (p_owners (s_pool s)) \<and> 0 < p_owners (s_pool s) ! b \<and>
       p_used (s_pool s) - p_owners (s_pool s) ! b \<le> p_normal (s_pool s))"
proof -
  have "limits (s_pool s)"
    using pool_reach_inv[OF assms] by (simp add: sys_inv_def pool_ok_def pool_inv_def)
  then show ?thesis by (auto simp: limits_def split: option.splits)
qed

theorem pool_reserve_exclusive_witness:
  "p_burstOwner (s_pool demo_sys) = Some 0 \<and> p_used (s_pool demo_sys) - p_owners (s_pool demo_sys) ! 0 \<le> p_normal (s_pool demo_sys)"
  using pool_reserve_exclusive[OF demo_reach] by (simp add: demo_sys_def demo_pool_value)

text \<open>
  C3: no wakeup is lost. Whatever the callers did, a queued waiter is the response of a call
  still blocked in \<open>Grow\<close>, its bytes do not fit the limit that applies to it, the queue is
  within its bound, and a pool with nothing in use has an empty queue.
\<close>

theorem pool_no_lost_wakeup:
  assumes "pool_reach opts s"
  shows "(\<forall>wid \<in> set (p_waiters (s_pool s)).
      wid \<in> g_wid ` set (s_growers s) \<and>
      w_phase (p_cells (s_pool s) ! wid) = Response \<and>
      w_bytes (p_cells (s_pool s) ! wid) > grant_limit Response wid (s_pool s) - p_used (s_pool s)) \<and>
    int (length (p_waiters (s_pool s))) \<le> p_maxWaiters (s_pool s) \<and>
    (p_used (s_pool s) = 0 \<longrightarrow> p_waiters (s_pool s) = [])"
proof -
  have inv: "sys_inv s" using assms by (rule pool_reach_inv)
  have "p_waiters (s_pool s) = []" if "p_used (s_pool s) = 0"
  proof (rule ccontr)
    let ?w = "hd (p_waiters (s_pool s))"
    assume ne: "p_waiters (s_pool s) \<noteq> []"
    then have q: "queued_ok (s_pool s) ?w" "unfit (s_pool s) ?w" "limits (s_pool s)"
      using inv by (simp_all add: sys_inv_def pool_ok_def pool_inv_def settled_def)
    then have "p_burstOwner (s_pool s) = None" using that by (auto simp: limits_def split: option.splits)
    with q that show False by (simp add: unfit_def grant_limit_def queued_ok_def Let_def)
  qed
  with inv show ?thesis by (auto simp: sys_inv_def pool_ok_def settled_def unfit_def)
qed

theorem pool_no_lost_wakeup_witness:
  "p_waiters (s_pool demo_sys) = [2] \<and> w_bytes (p_cells (s_pool demo_sys) ! 2) > grant_limit Response 2 (s_pool demo_sys) - 900"
  using pool_no_lost_wakeup[OF demo_reach] by (simp add: demo_sys_def demo_pool_value)

text \<open>
  C4: what a call of \<open>Grow\<close> does before it waits. If it succeeds it adds exactly its bytes to its
  own lease and grants nobody else, and a request only succeeds within the ordinary capacity
  while no response waits. If it is refused, every lease, every owner, the reserve and the queue
  are as they were. If it waits it is a response, alone added at the end of the queue.
\<close>

theorem grow_outcome:
  assumes "pool_reach opts s" "lid < length (p_leases (s_pool s))"
    and "grow_begin cerr lid n ph (s_pool s) = (r, q)"
  shows "(r = Finished (Inr ()) \<longrightarrow>
      p_leases q = (p_leases (s_pool s))[lid := (p_leases (s_pool s) ! lid)\<lparr>l_bytes := Bytes lid (s_pool s) + n\<rparr>] \<and>
      p_used q = p_used (s_pool s) + n \<and> p_waiters q = p_waiters (s_pool s) \<and>
      (ph = Request \<longrightarrow> 0 < n \<longrightarrow> p_waiters (s_pool s) = [] \<and> p_used q \<le> p_normal q)) \<and>
    (\<forall>err. r = Finished (Inl err) \<longrightarrow> p_leases q = p_leases (s_pool s) \<and> p_owners q = p_owners (s_pool s) \<and>
      p_used q = p_used (s_pool s) \<and> p_burstOwner q = p_burstOwner (s_pool s) \<and> p_waiters q = p_waiters (s_pool s)) \<and>
    (\<forall>wid. r = Waiting wid \<longrightarrow> ph = Response \<and> p_leases q = p_leases (s_pool s) \<and>
      p_owners q = p_owners (s_pool s) \<and> p_used q = p_used (s_pool s) \<and>
      p_burstOwner q = p_burstOwner (s_pool s) \<and> p_waiters q = p_waiters (s_pool s) @ [wid])"
proof -
  have ok: "pool_ok (s_pool s)" using pool_reach_inv[OF assms(1)] by (simp add: sys_inv_def)
  show ?thesis
    using grow_begin_settled[OF ok assms(2,3)] by (auto simp: Bytes_def)
qed

theorem grow_outcome_witness:
  "fst (grow_begin None 0 60 Response (s_pool demo_sys)) = Finished (Inr ()) \<and>
   p_used (snd (grow_begin None 0 60 Response (s_pool demo_sys))) = 960"
proof -
  let ?q = "snd (grow_begin None 0 60 Response (s_pool demo_sys))"
  have run: "grow_begin None 0 60 Response (s_pool demo_sys) = (Finished (Inr ()), ?q)"
    "0 < length (p_leases (s_pool demo_sys))" "p_used (s_pool demo_sys) = 900"
    by code_simp+
  have "p_used ?q = p_used (s_pool demo_sys) + 60"
    using grow_outcome[OF demo_reach run(2,1)] by blast
  then show ?thesis using run(1,3) by (simp add: prod_eq_iff)
qed


text \<open>A run in which the response that waited was granted when the first lease closed.\<close>

definition demo_woken :: pool_sys where
  "demo_woken = demo_sys\<lparr>s_pool := Close 0 (s_pool demo_sys)\<rparr>"

lemma demo_woken_reach: "pool_reach demo_opts demo_woken"
  unfolding demo_woken_def
  by (rule pool_reach.step[OF demo_reach close]) (simp add: demo_sys_def demo_pool_value)


text \<open>
  C6: closing every lease returns the pool to its initial books: nothing used, nothing opaque,
  nobody waiting, the reserve free.
\<close>

theorem pool_drains:
  assumes "pool_reach opts s" "\<forall>l \<in> set (p_leases (s_pool s)). l_closed l"
  shows "Used (s_pool s) = 0 \<and> p_opaque (s_pool s) = 0 \<and> p_waiters (s_pool s) = [] \<and> p_burstOwner (s_pool s) = None"
proof -
  have "pool_inv (s_pool s)" using pool_reach_inv[OF assms(1)] by (simp add: sys_inv_def pool_ok_def)
  then show ?thesis using all_closed_empty assms(2) by (simp add: Used_def)
qed

theorem pool_drains_witness:
  "Used (Close 1 (s_pool demo_woken)) = 0 \<and> length (p_leases (Close 1 (s_pool demo_woken))) = 2"
proof -
  have "1 < length (p_leases (s_pool demo_woken))" by code_simp
  then have "pool_reach demo_opts (demo_woken\<lparr>s_pool := Close 1 (s_pool demo_woken)\<rparr>)"
    by (rule pool_reach.step[OF demo_woken_reach close])
  moreover have "\<forall>l \<in> set (p_leases (Close 1 (s_pool demo_woken))). l_closed l"
    "length (p_leases (Close 1 (s_pool demo_woken))) = 2" by code_simp+
  ultimately show ?thesis using pool_drains[of demo_opts "demo_woken\<lparr>s_pool := Close 1 (s_pool demo_woken)\<rparr>"] by simp
qed

end
