(* ===== verification/Capacity_Scope.thy ===== *)
theory Capacity_Scope
  imports Capacity_Steps
begin

text \<open>
  Memory scopes, \<open>src/internal/capacity/scope.go\<close>, and the charged reader,
  \<open>src/internal/capacity/reader.go\<close>. A scope holds the leases of one RPC and a reference count; it
  closes its leases when the last reference goes. Scopes are cells next to the pool; a nil scope
  has no operations. An operation that ends in \<open>Grow\<close> is modelled up to the lease, the amount and
  the phase it grows; the growth itself is a step of the pool.
\<close>

section \<open>Scopes\<close>

record scope =
  sc_owner :: nat
  sc_refs :: int
  sc_leases :: "nat list"
  sc_input :: nat
  sc_output :: nat
  sc_outputs :: "(nat \<times> nat) list"

record grow_request =
  gr_lease :: nat
  gr_bytes :: int
  gr_phase :: phase

text \<open>\<open>NewLease\<close> of a scope: a lease of its owner, closed at once if the scope was released.\<close>

definition scope_NewLease :: "scope \<Rightarrow> pool \<Rightarrow> nat \<times> scope \<times> pool" where
  "scope_NewLease s p =
     (let (l, p1) = NewLease (sc_owner s) p in
      if sc_refs s = 0 then (l, s, Close l p1)
      else (l, s\<lparr>sc_leases := sc_leases s @ [l]\<rparr>, p1))"

definition NewScope :: "pool \<Rightarrow> scope \<times> pool" where
  "NewScope p =
     (let (o', p1) = NewOwner p;
          s0 = \<lparr>sc_owner = o', sc_refs = 1, sc_leases = [], sc_input = 0, sc_output = 0, sc_outputs = []\<rparr>;
          (input, s1, p2) = scope_NewLease s0 p1;
          (output, s2, p3) = scope_NewLease s1 p2
      in (s2\<lparr>sc_input := input, sc_output := output\<rparr>, p3))"

text \<open>\<open>Retain\<close>; the result says whether the returned function releases anything.\<close>

definition Retain :: "scope \<Rightarrow> bool \<times> scope" where
  "Retain s = (if sc_refs s = 0 then (False, s) else (True, s\<lparr>sc_refs := sc_refs s + 1\<rparr>))"

text \<open>
  \<open>Release\<close> is one step: the source closes the leases one after the other, under the scope's mutex and
  with the pool's mutex taken for each of them, so other owners may act between two of the closes.
\<close>

definition Release :: "scope \<Rightarrow> pool \<Rightarrow> scope \<times> pool" where
  "Release s p =
     (if sc_refs s = 0 then (s, p)
      else
        let s1 = s\<lparr>sc_refs := sc_refs s - 1\<rparr> in
        if sc_refs s1 = 0 then (s1\<lparr>sc_leases := []\<rparr>, fold Close (sc_leases s) p)
        else (s1, p))"

definition Admit :: "scope \<Rightarrow> int \<Rightarrow> grow_request" where
  "Admit s bytes = \<lparr>gr_lease = sc_input s, gr_bytes = bytes, gr_phase = Request\<rparr>"

definition AdmitCompletion :: "scope \<Rightarrow> int \<Rightarrow> grow_request" where
  "AdmitCompletion s bytes = \<lparr>gr_lease = sc_output s, gr_bytes = 2 * bytes, gr_phase = Request\<rparr>"

text \<open>
  \<open>OutputFrom\<close>: growth for a batch is charged to the batch's owner on a lease the caller's scope
  keeps. \<open>producer\<close> is the owner of the producing scope, if there is one.
\<close>

definition OutputFrom :: "nat option \<Rightarrow> int \<Rightarrow> scope \<Rightarrow> pool \<Rightarrow> grow_request \<times> scope \<times> pool" where
  "OutputFrom producer bytes s p =
     (if producer = None \<or> producer = Some (sc_owner s)
      then (\<lparr>gr_lease = sc_output s, gr_bytes = 2 * bytes, gr_phase = Response\<rparr>, s, p)
      else
        let owner = the producer;
            (lease, s1, p1) =
              (case map_of (sc_outputs s) owner of
                 Some l \<Rightarrow> (l, s, p)
               | None \<Rightarrow>
                   let (l, p') = NewLease owner p;
                       (s', p'') = (if sc_refs s = 0 then (s, Close l p') else (s\<lparr>sc_leases := sc_leases s @ [l]\<rparr>, p'))
                   in (l, s'\<lparr>sc_outputs := (owner, l) # sc_outputs s'\<rparr>, p''))
        in (\<lparr>gr_lease = lease, gr_bytes = 2 * bytes, gr_phase = Response\<rparr>, s1, p1))"

definition Output :: "int \<Rightarrow> scope \<Rightarrow> pool \<Rightarrow> grow_request \<times> scope \<times> pool" where
  "Output bytes s p = OutputFrom (Some (sc_owner s)) bytes s p"

definition EnsureOutput :: "int \<Rightarrow> scope \<Rightarrow> pool \<Rightarrow> grow_request" where
  "EnsureOutput bytes s p =
     (let used = Bytes (sc_output s) p + sum_list (map (\<lambda>(_, l). Bytes l p) (sc_outputs s))
      in \<lparr>gr_lease = sc_output s, gr_bytes = max 0 (2 * bytes - used), gr_phase = Response\<rparr>)"

definition ReleaseOutputFrom :: "nat option \<Rightarrow> int \<Rightarrow> scope \<Rightarrow> pool \<Rightarrow> pool" where
  "ReleaseOutputFrom producer bytes s p =
     (if bytes \<le> 0 then p
      else if producer \<noteq> None \<and> producer \<noteq> Some (sc_owner s) then
        (case map_of (sc_outputs s) (the producer) of
           None \<Rightarrow> p
         | Some l \<Rightarrow> Shrink l (2 * bytes) p)
      else Shrink (sc_output s) (2 * bytes) p)"

section \<open>Scopes and the pool\<close>

text \<open>
  Leases are only made through scopes; any step of the pool that makes no owner and no lease may
  happen in between. \<open>y_growers\<close> are the calls blocked in \<open>Grow\<close>.
\<close>

record scope_sys =
  y_pool :: pool
  y_growers :: "grower list"
  y_scopes :: "scope list"

definition pool_part :: "scope_sys \<Rightarrow> pool_sys" where
  "pool_part y = \<lparr>s_pool = y_pool y, s_growers = y_growers y\<rparr>"

inductive scope_step :: "scope_sys \<Rightarrow> scope_sys \<Rightarrow> bool" where
  new_scope: "NewScope (y_pool y) = (s, p) \<Longrightarrow>
    scope_step y (y\<lparr>y_pool := p, y_scopes := y_scopes y @ [s]\<rparr>)"
| scope_lease: "\<lbrakk>i < length (y_scopes y); scope_NewLease (y_scopes y ! i) (y_pool y) = (l, s, p)\<rbrakk> \<Longrightarrow>
    scope_step y (y\<lparr>y_pool := p, y_scopes := (y_scopes y)[i := s]\<rparr>)"
| retain: "\<lbrakk>i < length (y_scopes y); Retain (y_scopes y ! i) = (b, s)\<rbrakk> \<Longrightarrow>
    scope_step y (y\<lparr>y_scopes := (y_scopes y)[i := s]\<rparr>)"
| release: "\<lbrakk>i < length (y_scopes y); Release (y_scopes y ! i) (y_pool y) = (s, p)\<rbrakk> \<Longrightarrow>
    scope_step y (y\<lparr>y_pool := p, y_scopes := (y_scopes y)[i := s]\<rparr>)"
| output_from: "\<lbrakk>i < length (y_scopes y); j < length (y_scopes y);
    OutputFrom (Some (sc_owner (y_scopes y ! j))) n (y_scopes y ! i) (y_pool y) = (g, s, p)\<rbrakk> \<Longrightarrow>
    scope_step y (y\<lparr>y_pool := p, y_scopes := (y_scopes y)[i := s]\<rparr>)"
| in_pool: "\<lbrakk>pool_step (pool_part y) t; length (p_leases (s_pool t)) = length (p_leases (y_pool y));
    length (p_owners (s_pool t)) = length (p_owners (y_pool y))\<rbrakk> \<Longrightarrow>
    scope_step y (y\<lparr>y_pool := s_pool t, y_growers := s_growers t\<rparr>)"

inductive scope_reach :: "options \<Rightarrow> scope_sys \<Rightarrow> bool" where
  start: "New opts = Inr p \<Longrightarrow> scope_reach opts \<lparr>y_pool = p, y_growers = [], y_scopes = []\<rparr>"
| step: "scope_reach opts y \<Longrightarrow> scope_step y y' \<Longrightarrow> scope_reach opts y'"

section \<open>The charged reader\<close>

text \<open>
  \<open>ReadAll\<close> over a script of what happens: each entry is the outcome of \<open>Grow\<close> should the buffer
  be full, then the number of bytes \<open>Read\<close> delivers with its error, then \<open>ctx.Err()\<close>. The state
  is the length and capacity of the buffer and what the lease was charged for it, as of the end of an
  iteration: while a grown buffer is filled from the old one, the lease is charged for both. A reader
  without a lease is not charged and is left out.
\<close>

datatype read_err = ReadOk | ReadEOF | ReadFailed

datatype read_outcome = ReadBody int int int | ReadError int | Unfinished

fun ReadAll ::
    "int \<Rightarrow> (bool \<times> int \<times> read_err \<times> bool) list \<Rightarrow> int \<Rightarrow> int \<Rightarrow> int \<Rightarrow> read_outcome" where
  "ReadAll maximum script len cap charged =
     (case script of
        [] \<Rightarrow> Unfinished
      | (grown, n, err, cancelled) # rest \<Rightarrow>
          if len = cap \<and> len = maximum then ReadBody len cap charged
          else
            let next = min maximum (max 1024 (cap * 2)) in
            if len = cap \<and> \<not> grown then ReadError charged
            else
              let charged1 = (if len = cap then charged + 2 * next - 2 * cap else charged);
                  cap1 = (if len = cap then next else cap);
                  len1 = len + n
              in case err of
                   ReadEOF \<Rightarrow> ReadBody len1 cap1 charged1
                 | ReadFailed \<Rightarrow> ReadError charged1
                 | ReadOk \<Rightarrow> if cancelled then ReadError charged1 else ReadAll maximum rest len1 cap1 charged1)"

declare ReadAll.simps [simp del]

section \<open>Scopes keep the pool's invariant and own its leases\<close>

abbreviation psys :: "pool \<Rightarrow> grower list \<Rightarrow> pool_sys" where
  "psys p gs \<equiv> \<lparr>s_pool = p, s_growers = gs\<rparr>"

lemma psys_ops:
  assumes "sys_inv (psys p gs)"
  shows "sys_inv (psys (snd (NewOwner p)) gs)"
    "o' < length (p_owners p) \<Longrightarrow> sys_inv (psys (snd (NewLease o' p)) gs)"
    "l < length (p_leases p) \<Longrightarrow> sys_inv (psys (Close l p) gs)"
  using sys_inv_step[OF new_owner assms] sys_inv_step[OF new_lease assms, of o']
    sys_inv_step[OF close assms, of l] by simp_all

lemma Close_frame:
  assumes "sys_inv (psys p gs)" "l < length (p_leases p)"
  shows "length (p_leases (Close l p)) = length (p_leases p)" "length (p_owners (Close l p)) = length (p_owners p)"
    "i < length (p_leases p) \<Longrightarrow> l_closed (p_leases (Close l p) ! i) = (i = l \<or> l_closed (p_leases p ! i))"
proof -
  have inv: "pool_inv p" using assms(1) by (simp add: sys_inv_def pool_ok_def)
  note spec = closing_spec[OF inv assms(2)]
  have d: "dispatched (closing l p) (dispatch (closing l p))" using spec(1) by (rule dispatched_dispatch)
  have own: "length (p_owners (closing l p)) = length (p_owners p)"
  proof -
    have wf: "distinct (p_waiters p)" "\<forall>v \<in> set (p_waiters p). v < length (p_cells p)"
      using inv by (auto simp: pool_inv_def queued_ok_def)
    let ?q = "releaseLocked l (l_bytes (p_leases p ! l)) (p\<lparr>p_leases := (p_leases p)[l := (p_leases p ! l)\<lparr>l_closed := True\<rparr>]\<rparr>)"
    have "same_books ?q (close_loop l 0 ?q)"
      using close_loop_spec[of ?q l 0] wf by simp
    then show ?thesis by (simp add: closing_def same_books_def)
  qed
  show "length (p_leases (Close l p)) = length (p_leases p)" "length (p_owners (Close l p)) = length (p_owners p)"
    using d spec(5) own by (simp_all add: Close_closing dispatched_def)
  show "i < length (p_leases p) \<Longrightarrow> l_closed (p_leases (Close l p) ! i) = (i = l \<or> l_closed (p_leases p ! i))"
    using d spec(4,5) by (auto simp: Close_closing dispatched_def)
qed

lemma fold_Close:
  assumes "sys_inv (psys p gs)" "\<forall>l \<in> set ls. l < length (p_leases p)"
  shows "sys_inv (psys (fold Close ls p) gs) \<and> length (p_leases (fold Close ls p)) = length (p_leases p) \<and>
    length (p_owners (fold Close ls p)) = length (p_owners p) \<and>
    (\<forall>i < length (p_leases p). l_closed (p_leases (fold Close ls p) ! i) = (i \<in> set ls \<or> l_closed (p_leases p ! i)))"
  using assms
proof (induction ls arbitrary: p)
  case (Cons l ls)
  have l: "l < length (p_leases p)" using Cons.prems by simp
  note one = Close_frame[OF Cons.prems(1) l] psys_ops(3)[OF Cons.prems(1) l]
  have "\<forall>l' \<in> set ls. l' < length (p_leases (Close l p))" using Cons.prems one(1) by simp
  note IH = Cons.IH[OF one(4) this]
  then show ?case using one(1-3) by auto
qed simp

definition scope_ok :: "pool \<Rightarrow> scope \<Rightarrow> bool" where
  "scope_ok p s \<longleftrightarrow> 0 \<le> sc_refs s \<and> (sc_refs s = 0 \<longrightarrow> sc_leases s = []) \<and> sc_owner s < length (p_owners p) \<and>
     (\<forall>l \<in> set (sc_leases s). l < length (p_leases p))"

definition owned :: "scope_sys \<Rightarrow> bool" where
  "owned y \<longleftrightarrow> (\<forall>l < length (p_leases (y_pool y)). l_closed (p_leases (y_pool y) ! l) \<or>
     (\<exists>s \<in> set (y_scopes y). 0 < sc_refs s \<and> l \<in> set (sc_leases s)))"

definition scope_inv :: "scope_sys \<Rightarrow> bool" where
  "scope_inv y \<longleftrightarrow> sys_inv (pool_part y) \<and> (\<forall>s \<in> set (y_scopes y). scope_ok (y_pool y) s) \<and> owned y"

lemma NewLease_frame [simp]:
  "length (p_leases (snd (NewLease o' p))) = Suc (length (p_leases p))"
  "length (p_owners (snd (NewLease o' p))) = length (p_owners p)"
  "fst (NewLease o' p) = length (p_leases p)"
  "i < length (p_leases p) \<Longrightarrow> p_leases (snd (NewLease o' p)) ! i = p_leases p ! i"
  by (simp_all add: NewLease_def nth_append)

text \<open>Making one lease for a scope: the new lease is closed, or in the list of the live scope.\<close>

lemma lease_for_scope:
  assumes sys: "sys_inv (psys p gs)" and o': "o' < length (p_owners p)" and s: "scope_ok p s"
  defines "l \<equiv> length (p_leases p)" and "p1 \<equiv> snd (NewLease o' p)"
  defines "p2 \<equiv> (if sc_refs s = 0 then Close l p1 else p1)"
    and "s2 \<equiv> (if sc_refs s = 0 then s else s\<lparr>sc_leases := sc_leases s @ [l]\<rparr>)"
  shows "sys_inv (psys p2 gs)" "length (p_leases p2) = Suc l" "length (p_owners p2) = length (p_owners p)"
    "\<And>i. i < l \<Longrightarrow> l_closed (p_leases p2 ! i) = l_closed (p_leases p ! i)"
    "l_closed (p_leases p2 ! l) \<or> (0 < sc_refs s2 \<and> l \<in> set (sc_leases s2))" "scope_ok p2 s2"
    "sc_refs s2 = sc_refs s" "set (sc_leases s) \<subseteq> set (sc_leases s2)"
proof -
  have p1: "sys_inv (psys p1 gs)" using psys_ops(2)[OF sys o'] by (simp add: p1_def)
  have l: "l < length (p_leases p1)" by (simp add: p1_def l_def)
  note c = Close_frame[OF p1 l]
  show len: "length (p_leases p2) = Suc l" "length (p_owners p2) = length (p_owners p)"
    using c by (simp_all add: p2_def p1_def l_def)
  show "sys_inv (psys p2 gs)" using psys_ops(3)[OF p1 l] p1 by (simp add: p2_def)
  show "l_closed (p_leases p2 ! i) = l_closed (p_leases p ! i)" if "i < l" for i
    using c(3)[of i] that by (auto simp: p2_def p1_def l_def)
  show "l_closed (p_leases p2 ! l) \<or> (0 < sc_refs s2 \<and> l \<in> set (sc_leases s2))"
    using c(3)[OF l] s by (auto simp: p2_def s2_def scope_ok_def)
  show "scope_ok p2 s2" using s len by (auto simp: scope_ok_def s2_def l_def)
  show "sc_refs s2 = sc_refs s" "set (sc_leases s) \<subseteq> set (sc_leases s2)" by (auto simp: s2_def)
qed

lemma scope_ok_mono:
  "scope_ok p s \<Longrightarrow> length (p_leases p) \<le> length (p_leases q) \<Longrightarrow> length (p_owners p) \<le> length (p_owners q) \<Longrightarrow> scope_ok q s"
  by (auto simp: scope_ok_def)

lemma owned_update:
  assumes own: "owned y" and i: "i < length (y_scopes y)" and len: "length (p_leases (y_pool y)) \<le> length (p_leases p)"
    and old: "\<And>l. l < length (p_leases (y_pool y)) \<Longrightarrow> l_closed (p_leases (y_pool y) ! l) \<Longrightarrow> l_closed (p_leases p ! l)"
    and new: "\<And>l. length (p_leases (y_pool y)) \<le> l \<Longrightarrow> l < length (p_leases p) \<Longrightarrow>
      l_closed (p_leases p ! l) \<or> (0 < sc_refs s \<and> l \<in> set (sc_leases s))"
    and upd: "\<And>l. l < length (p_leases (y_pool y)) \<Longrightarrow> 0 < sc_refs (y_scopes y ! i) \<Longrightarrow>
      l \<in> set (sc_leases (y_scopes y ! i)) \<Longrightarrow> l_closed (p_leases p ! l) \<or> (0 < sc_refs s \<and> l \<in> set (sc_leases s))"
  shows "owned (y\<lparr>y_pool := p, y_scopes := (y_scopes y)[i := s]\<rparr>)"
proof -
  have "l_closed (p_leases p ! l) \<or> (\<exists>t \<in> set ((y_scopes y)[i := s]). 0 < sc_refs t \<and> l \<in> set (sc_leases t))"
    if l: "l < length (p_leases p)" for l
  proof (cases "l < length (p_leases (y_pool y)) \<and> \<not> l_closed (p_leases p ! l)")
    case False
    then show ?thesis using new[of l] l i set_update_memI[OF i, of s] by auto
  next
    case True
    then obtain t where "t \<in> set (y_scopes y)" "0 < sc_refs t" "l \<in> set (sc_leases t)"
      using own old unfolding owned_def by blast
    then obtain k where k: "k < length (y_scopes y)" "0 < sc_refs (y_scopes y ! k)" "l \<in> set (sc_leases (y_scopes y ! k))"
      by (metis in_set_conv_nth)
    show ?thesis
    proof (cases "k = i")
      case True
      then show ?thesis using upd[of l] k \<open>_ \<and> _\<close> set_update_memI[OF i, of s] by auto
    next
      case False
      then have "(y_scopes y)[i := s] ! k = y_scopes y ! k" by simp
      then show ?thesis using k by (metis length_list_update nth_mem)
    qed
  qed
  then show ?thesis by (simp add: owned_def)
qed

lemma scope_inv_lease:
  assumes inv: "scope_inv y" and i: "i < length (y_scopes y)" and o': "o' < length (p_owners (y_pool y))"
    and p: "p = (if sc_refs (y_scopes y ! i) = 0 then Close (length (p_leases (y_pool y))) (snd (NewLease o' (y_pool y)))
      else snd (NewLease o' (y_pool y)))"
    and s: "sc_owner s = sc_owner (y_scopes y ! i)" "sc_refs s = sc_refs (y_scopes y ! i)"
      "sc_leases s = (if sc_refs (y_scopes y ! i) = 0 then sc_leases (y_scopes y ! i)
         else sc_leases (y_scopes y ! i) @ [length (p_leases (y_pool y))])"
  shows "scope_inv (y\<lparr>y_pool := p, y_scopes := (y_scopes y)[i := s]\<rparr>)"
proof -
  let ?s = "y_scopes y ! i"
  have sys: "sys_inv (psys (y_pool y) (y_growers y))" using inv by (simp add: scope_inv_def pool_part_def)
  have ok: "scope_ok (y_pool y) ?s" using inv i by (simp add: scope_inv_def)
  note L = lease_for_scope[OF sys o' ok]
  have own: "owned (y\<lparr>y_pool := p, y_scopes := (y_scopes y)[i := s]\<rparr>)"
  proof (rule owned_update[OF _ i])
    show "owned y" using inv by (simp add: scope_inv_def)
    show "length (p_leases (y_pool y)) \<le> length (p_leases p)" using L(2) by (simp add: p)
    show "l_closed (p_leases p ! l)" if "l < length (p_leases (y_pool y))" "l_closed (p_leases (y_pool y) ! l)" for l
      using L(4)[OF that(1)] that(2) by (simp add: p)
    show "l_closed (p_leases p ! l) \<or> (0 < sc_refs s \<and> l \<in> set (sc_leases s))"
      if "length (p_leases (y_pool y)) \<le> l" "l < length (p_leases p)" for l
    proof -
      have "l = length (p_leases (y_pool y))" using that L(2) by (simp add: p split: if_splits)
      then show ?thesis using L(5) s by (simp add: p split: if_splits)
    qed
    show "l_closed (p_leases p ! l) \<or> (0 < sc_refs s \<and> l \<in> set (sc_leases s))"
      if "0 < sc_refs ?s" "l \<in> set (sc_leases ?s)" for l
      using that s by simp
  qed
  have "scope_ok p s" using L(6) s by (simp add: scope_ok_def p split: if_splits)
  moreover have "scope_ok p t" if "t \<in> set (y_scopes y)" for t
  proof (rule scope_ok_mono)
    show "scope_ok (y_pool y) t" using inv that by (simp add: scope_inv_def)
    show "length (p_leases (y_pool y)) \<le> length (p_leases p)" using L(2) unfolding p by linarith
    show "length (p_owners (y_pool y)) \<le> length (p_owners p)" using L(3) unfolding p by linarith
  qed
  ultimately have "\<forall>t \<in> set ((y_scopes y)[i := s]). scope_ok p t"
    using set_update_subset_insert[of "y_scopes y" i s] by blast
  moreover have "sys_inv (psys p (y_growers y))" using L(1) unfolding p .
  ultimately show ?thesis using own by (simp add: scope_inv_def pool_part_def)
qed

lemma scope_inv_release:
  assumes inv: "scope_inv y" and i: "i < length (y_scopes y)" and run: "Release (y_scopes y ! i) (y_pool y) = (s, p)"
  shows "scope_inv (y\<lparr>y_pool := p, y_scopes := (y_scopes y)[i := s]\<rparr>)"
proof -
  let ?s = "y_scopes y ! i"
  have sys: "sys_inv (psys (y_pool y) (y_growers y))" using inv by (simp add: scope_inv_def pool_part_def)
  have ok: "scope_ok (y_pool y) ?s" using inv i by (simp add: scope_inv_def)
  then have F: "sys_inv (psys (fold Close (sc_leases ?s) (y_pool y)) (y_growers y))"
    "length (p_leases (fold Close (sc_leases ?s) (y_pool y))) = length (p_leases (y_pool y))"
    "length (p_owners (fold Close (sc_leases ?s) (y_pool y))) = length (p_owners (y_pool y))"
    "\<forall>l < length (p_leases (y_pool y)). l_closed (p_leases (fold Close (sc_leases ?s) (y_pool y)) ! l) =
       (l \<in> set (sc_leases ?s) \<or> l_closed (p_leases (y_pool y) ! l))"
    using fold_Close[OF sys, of "sc_leases ?s"] by (auto simp: scope_ok_def)
  consider "sc_refs ?s = 0" "s = ?s" "p = y_pool y"
    | "sc_refs ?s = 1" "s = ?s\<lparr>sc_refs := 0, sc_leases := []\<rparr>" "p = fold Close (sc_leases ?s) (y_pool y)"
    | "1 < sc_refs ?s" "s = ?s\<lparr>sc_refs := sc_refs ?s - 1\<rparr>" "p = y_pool y"
    using run ok by (auto simp: Release_def Let_def scope_ok_def split: if_splits)
  then show ?thesis
  proof cases
    case 1
    then show ?thesis using inv by simp
  next
    case 2
    have "owned (y\<lparr>y_pool := p, y_scopes := (y_scopes y)[i := s]\<rparr>)"
      by (rule owned_update[OF _ i]) (use inv F(2,4) in \<open>simp_all add: 2 scope_inv_def\<close>)
    moreover have "\<forall>t \<in> set ((y_scopes y)[i := s]). scope_ok p t"
    proof
      fix t assume "t \<in> set ((y_scopes y)[i := s])"
      then have "t = s \<or> t \<in> set (y_scopes y)" by (rule set_list_update_memI)
      then show "scope_ok p t"
        using inv ok 2 F scope_ok_mono[of "y_pool y" t p] by (auto simp: scope_inv_def scope_ok_def)
    qed
    ultimately show ?thesis using F(1) 2 by (simp add: scope_inv_def pool_part_def)
  next
    case 3
    have "owned (y\<lparr>y_pool := p, y_scopes := (y_scopes y)[i := s]\<rparr>)"
      by (rule owned_update[OF _ i]) (use inv 3(1) in \<open>simp_all add: 3(2,3) scope_inv_def\<close>)
    moreover have "\<forall>t \<in> set ((y_scopes y)[i := s]). scope_ok p t"
      using inv ok 3 by (auto simp: scope_inv_def scope_ok_def dest!: set_list_update_memI)
    ultimately show ?thesis using inv 3 by (simp add: scope_inv_def pool_part_def)
  qed
qed

lemma pool_step_closed:
  assumes step: "pool_step s t" and sys: "sys_inv s" and l: "l < length (p_leases (s_pool s))" "l_closed (p_leases (s_pool s) ! l)"
  shows "l_closed (p_leases (s_pool t) ! l)"
proof -
  have p: "pool_inv (s_pool s)" "settled (s_pool s)" "pool_ok (s_pool s)"
    using sys by (simp_all add: sys_inv_def pool_ok_def)
  have serves: "\<exists>X. evolves X (s_pool s) q" if "serves (s_pool s) q" for q
    using that by (auto simp: serves_def)
  have "\<exists>X. evolves X (s_pool s) (s_pool t)"
    using step
  proof cases
    case (grow_done lid cerr n ph r q)
    then show ?thesis using serves serves_grow_done[OF p(3)] by simp
  next
    case (grow_wait lid cerr n ph wid q)
    from grow_wait(4) show ?thesis
    proof (cases rule: grow_begin_cases)
      case waiting
      have "n \<le> p_total (s_pool s)" using owner_room[OF p(3) grow_wait(2) waiting(7)] .
      from grow_dispatch(2)[OF p(3) grow_wait(2) waiting(8,6) this, of ph] waiting(2) grow_wait(1) show ?thesis by auto
    qed simp_all
  next
    case (grow_resume g werr cerr r q)
    then show ?thesis using grow_finish_spec[OF sys grow_resume(2,5)] by auto
  qed (use serves serves_ops[OF p(1,2)] in simp_all)
  then show ?thesis using l by (auto simp: evolves_def)
qed

lemma scope_inv_new:
  assumes inv: "scope_inv y" and run: "NewScope (y_pool y) = (s, p)"
  shows "scope_inv (y\<lparr>y_pool := p, y_scopes := y_scopes y @ [s]\<rparr>)"
proof -
  let ?n = "length (y_scopes y)"
  let ?p1 = "snd (NewOwner (y_pool y))"
  let ?own = "length (p_owners (y_pool y))"
  let ?s0 = "\<lparr>sc_owner = ?own, sc_refs = 1, sc_leases = [], sc_input = 0, sc_output = 0, sc_outputs = []\<rparr>"
  let ?l = "length (p_leases (y_pool y))"
  let ?s1 = "?s0\<lparr>sc_leases := [?l]\<rparr>"
  let ?p2 = "snd (NewLease ?own ?p1)"
  let ?y1 = "y\<lparr>y_pool := ?p1, y_scopes := y_scopes y @ [?s0]\<rparr>"
  have p1: "length (p_leases ?p1) = ?l" "length (p_owners ?p1) = Suc ?own" "p_leases ?p1 = p_leases (y_pool y)"
    by (simp_all add: NewOwner_def)
  have s: "s = ?s1\<lparr>sc_leases := [?l, Suc ?l], sc_input := ?l, sc_output := Suc ?l\<rparr>" "p = snd (NewLease ?own ?p2)"
    using run by (auto simp: NewScope_def scope_NewLease_def NewOwner_def NewLease_def Let_def)
  have "sys_inv (psys ?p1 (y_growers y))"
    using inv psys_ops(1) by (simp add: scope_inv_def pool_part_def)
  then have y1: "scope_inv ?y1"
    using inv p1 scope_ok_mono[of "y_pool y" _ ?p1]
    by (auto simp: scope_inv_def pool_part_def owned_def scope_ok_def)
  have y2: "scope_inv (?y1\<lparr>y_pool := ?p2, y_scopes := (y_scopes ?y1)[?n := ?s1]\<rparr>)"
    by (rule scope_inv_lease[OF y1, where o' = ?own]) (simp_all add: p1)
  let ?y2 = "y\<lparr>y_pool := ?p2, y_scopes := y_scopes y @ [?s1]\<rparr>"
  have "scope_inv ?y2" using y2 by simp
  from scope_inv_lease[OF this, of ?n ?own p s] show ?thesis by (simp add: s p1)
qed

lemma scope_inv_step:
  assumes step: "scope_step y y'" and inv: "scope_inv y"
  shows "scope_inv y'"
  using step
proof cases
  case (new_scope s p)
  then show ?thesis using scope_inv_new[OF inv] by simp
next
  case (scope_lease i l s p)
  have "sc_owner (y_scopes y ! i) < length (p_owners (y_pool y))"
    using inv scope_lease(2) by (simp add: scope_inv_def scope_ok_def)
  from scope_inv_lease[OF inv scope_lease(2) this refl, of s] scope_lease show ?thesis
    by (auto simp: scope_NewLease_def Let_def NewLease_def split: if_splits)
next
  case (retain i b s)
  have ok: "scope_ok (y_pool y) (y_scopes y ! i)" using inv retain(2) by (simp add: scope_inv_def)
  have s: "sc_leases s = sc_leases (y_scopes y ! i)" "0 < sc_refs (y_scopes y ! i) \<Longrightarrow> 0 < sc_refs s" "scope_ok (y_pool y) s"
    using retain(3) ok by (auto simp: Retain_def scope_ok_def split: if_splits)
  have "owned (y\<lparr>y_pool := y_pool y, y_scopes := (y_scopes y)[i := s]\<rparr>)"
    by (rule owned_update[OF _ retain(2)]) (use inv s in \<open>simp_all add: scope_inv_def\<close>)
  moreover have "\<forall>t \<in> set ((y_scopes y)[i := s]). scope_ok (y_pool y) t"
    using inv s(3) set_update_subset_insert[of "y_scopes y" i s] by (auto simp: scope_inv_def)
  ultimately show ?thesis using inv by (simp add: retain(1) scope_inv_def pool_part_def)
next
  case (release i s p)
  then show ?thesis using scope_inv_release[OF inv] by simp
next
  case (output_from i j n g s p)
  have "sc_owner (y_scopes y ! j) < length (p_owners (y_pool y))"
    using inv output_from(3) by (simp add: scope_inv_def scope_ok_def)
  note L = scope_inv_lease[OF inv output_from(2) this refl, of s]
  show ?thesis
  proof (cases "sc_owner (y_scopes y ! j) = sc_owner (y_scopes y ! i) \<or>
      map_of (sc_outputs (y_scopes y ! i)) (sc_owner (y_scopes y ! j)) \<noteq> None")
    case True
    then have "s = y_scopes y ! i" "p = y_pool y"
      using output_from(4) by (auto simp: OutputFrom_def Let_def split: if_splits)
    then show ?thesis using inv by (simp add: output_from(1))
  next
    case False
    then show ?thesis
      using L output_from(1,4) by (auto simp: OutputFrom_def Let_def NewLease_def split: if_splits)
  qed
next
  case (in_pool t)
  have sys: "sys_inv (pool_part y)" using inv by (simp add: scope_inv_def)
  have "sys_inv (psys (s_pool t) (s_growers t))" using sys_inv_step[OF in_pool(2) sys] by (cases t) simp
  moreover have "l_closed (p_leases (s_pool t) ! l)" if "l < length (p_leases (y_pool y))" "l_closed (p_leases (y_pool y) ! l)" for l
    using pool_step_closed[OF in_pool(2) sys, of l] that by (simp add: pool_part_def)
  ultimately show ?thesis
    using inv in_pool(3,4) unfolding in_pool(1) by (auto simp: scope_inv_def pool_part_def owned_def scope_ok_def)
qed

lemma scope_reach_inv: "scope_reach opts y \<Longrightarrow> scope_inv y"
proof (induction rule: scope_reach.induct)
  case (start opts p)
  have "p_leases p = []" using start by (auto simp: New_def Let_def split: if_splits)
  then show ?case using New_inv[OF start] by (simp add: scope_inv_def pool_part_def owned_def sys_inv_def)
next
  case (step opts y y')
  then show ?case using scope_inv_step by blast
qed

section \<open>The charged reader\<close>

text \<open>The contract of \<open>io.Reader\<close>: a read delivers at most what its buffer has room for.\<close>

fun reader_contract :: "int \<Rightarrow> (bool \<times> int \<times> read_err \<times> bool) list \<Rightarrow> int \<Rightarrow> int \<Rightarrow> bool" where
  "reader_contract maximum [] len cap = True"
| "reader_contract maximum ((grown, n, err, cancelled) # rest) len cap =
     (let cap1 = (if len = cap then min maximum (max 1024 (cap * 2)) else cap) in
      0 \<le> n \<and> n \<le> cap1 - len \<and> reader_contract maximum rest (len + n) cap1)"

definition charged_for :: "int \<Rightarrow> read_outcome \<Rightarrow> bool" where
  "charged_for maximum r =
     (case r of
        ReadBody len cap charged \<Rightarrow> charged = 2 * cap \<and> 0 \<le> len \<and> len \<le> cap \<and> cap \<le> maximum
      | ReadError charged \<Rightarrow> 0 \<le> charged \<and> charged \<le> 2 * maximum
      | Unfinished \<Rightarrow> True)"

lemma ReadAll_charged:
  assumes "0 \<le> len" "len \<le> cap" "cap \<le> maximum" "charged = 2 * cap" "reader_contract maximum script len cap"
  shows "charged_for maximum (ReadAll maximum script len cap charged)"
  using assms
proof (induction script arbitrary: len cap charged)
  case Nil
  show ?case by (simp add: ReadAll.simps charged_for_def)
next
  case (Cons e rest)
  obtain grown n err cancelled where e: "e = (grown, n, err, cancelled)" by (cases e) auto
  let ?next = "min maximum (max 1024 (cap * 2))"
  show ?case
  proof (cases "len = cap \<and> (len = maximum \<or> \<not> grown)")
    case True
    then show ?thesis using Cons.prems by (auto simp: ReadAll.simps[of _ "_ # _"] e charged_for_def)
  next
    case False
    let ?cap = "if len = cap then ?next else cap"
    let ?charged = "if len = cap then charged + 2 * ?next - 2 * cap else charged"
    have run: "ReadAll maximum (e # rest) len cap charged =
        (case err of ReadEOF \<Rightarrow> ReadBody (len + n) ?cap ?charged | ReadFailed \<Rightarrow> ReadError ?charged
         | ReadOk \<Rightarrow> if cancelled then ReadError ?charged else ReadAll maximum rest (len + n) ?cap ?charged)"
      using False by (auto simp: ReadAll.simps[of _ "_ # _"] e Let_def)
    have step: "0 \<le> len + n" "len + n \<le> ?cap" "?cap \<le> maximum" "?charged = 2 * ?cap" "reader_contract maximum rest (len + n) ?cap"
      using Cons.prems False by (auto simp: e Let_def split: if_splits)
    note IH = Cons.IH[OF step]
    show ?thesis unfolding run using step IH by (cases err) (simp_all add: charged_for_def)
  qed
qed

section \<open>Properties\<close>

text \<open>
  C14: a scope's bytes live exactly as long as its references. Releasing a reference that is not
  the last one does not touch the pool; releasing the last one closes every lease of the scope;
  and once every scope has been released the pool is empty, whatever happened in between.
\<close>

theorem scope_lifetime:
  assumes "scope_reach opts y"
  shows "(\<forall>i s p. i < length (y_scopes y) \<and> Release (y_scopes y ! i) (y_pool y) = (s, p) \<longrightarrow>
      (1 < sc_refs (y_scopes y ! i) \<longrightarrow> p = y_pool y \<and> sc_leases s = sc_leases (y_scopes y ! i)) \<and>
      (sc_refs (y_scopes y ! i) = 1 \<longrightarrow>
         (\<forall>l \<in> set (sc_leases (y_scopes y ! i)). l_closed (p_leases p ! l) \<and> Bytes l p = 0))) \<and>
    ((\<forall>s \<in> set (y_scopes y). sc_refs s = 0) \<longrightarrow> Used (y_pool y) = 0 \<and> p_waiters (y_pool y) = [])"
proof -
  have inv: "scope_inv y" using assms by (rule scope_reach_inv)
  have pinv: "pool_inv (y_pool y)"
    using inv by (simp add: scope_inv_def pool_part_def sys_inv_def pool_ok_def)
  have empty: "Used (y_pool y) = 0 \<and> p_waiters (y_pool y) = []" if "\<forall>s \<in> set (y_scopes y). sc_refs s = 0"
  proof -
    have "\<forall>l \<in> set (p_leases (y_pool y)). l_closed l"
      using inv that by (auto simp: scope_inv_def owned_def in_set_conv_nth)
    then show ?thesis using all_closed_empty[OF pinv] by (simp add: Used_def)
  qed
  have last: "l_closed (p_leases p ! l) \<and> Bytes l p = 0"
    if "i < length (y_scopes y)" "Release (y_scopes y ! i) (y_pool y) = (s, p)" "sc_refs (y_scopes y ! i) = 1"
      "l \<in> set (sc_leases (y_scopes y ! i))" for i s p l
  proof -
    have sys: "sys_inv (psys (y_pool y) (y_growers y))" using inv by (simp add: scope_inv_def pool_part_def)
    have ls: "\<forall>l \<in> set (sc_leases (y_scopes y ! i)). l < length (p_leases (y_pool y))"
    proof -
      have "scope_ok (y_pool y) (y_scopes y ! i)" using inv that(1) by (simp add: scope_inv_def)
      then show ?thesis by (simp add: scope_ok_def)
    qed
    have p: "p = fold Close (sc_leases (y_scopes y ! i)) (y_pool y)"
      using that(2,3) by (simp add: Release_def Let_def)
    note F = fold_Close[OF sys ls, folded p]
    then have "l_closed (p_leases p ! l)" "l < length (p_leases p)" using that(4) ls by auto
    moreover from F have "pool_inv p" by (simp add: sys_inv_def pool_ok_def)
    ultimately show ?thesis by (simp add: pool_inv_def Bytes_def)
  qed
  have keep: "p = y_pool y \<and> sc_leases s = sc_leases (y_scopes y ! i)"
    if "Release (y_scopes y ! i) (y_pool y) = (s, p)" "1 < sc_refs (y_scopes y ! i)" for i s p
    using that by (auto simp: Release_def Let_def split: if_splits)
  show ?thesis using empty last keep by blast
qed

text \<open>A scope is made, grows its input lease and is released.\<close>

definition demo_scope_sys :: scope_sys where
  "demo_scope_sys =
     (let p0 = projr (New demo_opts); (s, p1) = NewScope p0
      in \<lparr>y_pool = snd (grow_begin None 0 100 Request p1), y_growers = [], y_scopes = [s]\<rparr>)"

lemma demo_scope_reach: "scope_reach demo_opts demo_scope_sys"
proof -
  let ?p0 = "projr (New demo_opts)"
  let ?s = "fst (NewScope ?p0)" and ?p1 = "snd (NewScope ?p0)"
  let ?y1 = "\<lparr>y_pool = ?p1, y_growers = [], y_scopes = [?s]\<rparr>"
  let ?p2 = "snd (grow_begin None 0 100 Request ?p1)"
  have "New demo_opts = Inr ?p0" by code_simp
  from scope_reach.start[OF this] have "scope_reach demo_opts ?y1"
    using scope_reach.step[OF _ new_scope[of "\<lparr>y_pool = ?p0, y_growers = [], y_scopes = []\<rparr>" ?s ?p1]] by simp
  moreover have "0 < length (p_leases ?p1)" "length (p_leases ?p2) = length (p_leases ?p1)"
    "length (p_owners ?p2) = length (p_owners ?p1)" "fst (grow_begin None 0 100 Request ?p1) = Finished (Inr ())" by code_simp+
  moreover from this have "pool_step (pool_part ?y1) \<lparr>s_pool = ?p2, s_growers = []\<rparr>"
    using grow_done[of 0 "pool_part ?y1" None 100 Request "Inr ()" ?p2] by (simp add: pool_part_def prod_eq_iff)
  ultimately have "scope_reach demo_opts (?y1\<lparr>y_pool := ?p2, y_growers := []\<rparr>)"
    using scope_reach.step[OF _ in_pool[of ?y1 "\<lparr>s_pool = ?p2, s_growers = []\<rparr>"]] by simp
  then show ?thesis by (simp add: demo_scope_sys_def Let_def case_prod_beta)
qed

theorem scope_lifetime_witness:
  "Used (y_pool demo_scope_sys) = 100 \<and>
   (let (s, p) = Release (y_scopes demo_scope_sys ! 0) (y_pool demo_scope_sys) in sc_refs s = 0 \<and> Bytes 0 p = 0)"
proof -
  have ev: "Used (y_pool demo_scope_sys) = 100" "length (y_scopes demo_scope_sys) = 1"
    "sc_refs (y_scopes demo_scope_sys ! 0) = 1" "0 \<in> set (sc_leases (y_scopes demo_scope_sys ! 0))"
    "sc_refs (fst (Release (y_scopes demo_scope_sys ! 0) (y_pool demo_scope_sys))) = 0" by code_simp+
  obtain s p where sp: "Release (y_scopes demo_scope_sys ! 0) (y_pool demo_scope_sys) = (s, p)" by fastforce
  then have "Bytes 0 p = 0" using scope_lifetime[OF demo_scope_reach] ev(2-4) by fastforce
  then show ?thesis using ev sp by simp
qed

text \<open>
  C15: the charged reader holds exactly the bytes of the buffer it returns, twice over, never reads
  beyond its maximum, and never holds more than twice the maximum on an error.
\<close>

theorem ReadAll_charges:
  assumes "0 \<le> maximum" "reader_contract maximum script 0 0"
  shows "charged_for maximum (ReadAll maximum script 0 0 0)"
  using assms by (intro ReadAll_charged) simp_all

theorem ReadAll_charges_witness:
  "ReadAll 3000 [(True, 1024, ReadOk, False), (True, 500, ReadEOF, False)] 0 0 0 = ReadBody 1524 2048 4096 \<and>
   charged_for 3000 (ReadAll 3000 [(True, 1024, ReadOk, False), (True, 500, ReadEOF, False)] 0 0 0)"
  using ReadAll_charges[of 3000 "[(True, 1024, ReadOk, False), (True, 500, ReadEOF, False)]"]
  by (simp add: ReadAll.simps)

end
