(* ===== verification/Sink_API.thy ===== *)
theory Sink_API
  imports Prelude
begin

text \<open>
  The messages of the record RPCs, after \<open>src/proto/sink/sink.proto\<close>. A message field is a
  field of the record; an unset sub-message is \<open>None\<close>; the \<open>oneof\<close> of a write operation is a
  datatype. Scalars have the proto3 default when unset, so the accessors of the generated code
  need no option.
\<close>

datatype CompletionMode =
    MODE_UNSPECIFIED
  | WAIT_UNTIL_APPLIED
  | RETURN_AFTER_ACCEPTED
  | WAIT_UNTIL_VISIBLE
  | MODE_OTHER

datatype DocumentEncoding = ENCODING_UNSPECIFIED | ENCODING_JSON | ENCODING_BSON | ENCODING_OTHER

record Document =
  d_encoding :: DocumentEncoding
  d_payload :: bytes

record RecordAddress =
  a_uri :: string

datatype FailureCode =
    FC_UNSPECIFIED | FC_INVALID_ARGUMENT | FC_PRECONDITION_FAILED | FC_NOT_FOUND | FC_CONFLICT
  | FC_RESOURCE_EXHAUSTED | FC_UNAVAILABLE | FC_DEADLINE_EXCEEDED | FC_INTERNAL

record Failure =
  f_code :: FailureCode
  f_message :: string
  f_retryable :: bool

datatype WriteMode = WRITE_MODE_UNSPECIFIED | WRITE_CREATE | WRITE_REPLACE | WRITE_UPSERT | WRITE_MODE_OTHER

record PutOperation =
  put_document :: "Document option"
  put_mode :: WriteMode

record LuaProgram =
  lua_source :: bytes
  lua_sha256 :: bytes

record MergeOperation =
  merge_incoming :: "Document option"
  merge_program :: "LuaProgram option"

datatype write_action = NoAction | PutAction PutOperation | MergeAction MergeOperation

record WriteOperation =
  wo_address :: "RecordAddress option"
  wo_returnDocument :: bool
  wo_action :: write_action

record WriteRequest =
  wr_mode :: CompletionMode
  wr_operations :: "WriteOperation list"
  wr_programs :: "LuaProgram list"

datatype WriteStatus = WS_UNSPECIFIED | WS_ACCEPTED | WS_APPLIED | WS_PRECONDITION_FAILED | WS_FAILED

record WriteResult =
  wres_index :: "32 word"
  wres_status :: WriteStatus
  wres_revision :: "bytes option"
  wres_failure :: "Failure option"
  wres_document :: "Document option"

record ReadOperation =
  ro_address :: "RecordAddress option"

datatype ReadStatus = RS_UNSPECIFIED | RS_FOUND | RS_NOT_FOUND | RS_FAILED

record ReadResult =
  rres_index :: "32 word"
  rres_status :: ReadStatus
  rres_document :: "Document option"
  rres_revision :: "bytes option"
  rres_failure :: "Failure option"

record DeleteOperation =
  do_address :: "RecordAddress option"

record DeleteRequest =
  dr_mode :: CompletionMode
  dr_operations :: "DeleteOperation list"

datatype DeleteStatus = DS_UNSPECIFIED | DS_ACCEPTED | DS_APPLIED | DS_FAILED

record DeleteResult =
  dres_index :: "32 word"
  dres_status :: DeleteStatus
  dres_failure :: "Failure option"

text \<open>Record identity is the complete canonical URI (\<open>src/internal/service/record_identity.go\<close>).\<close>

type_synonym recordIdentity = string

end
