(* ===== verification/Batcher.thy ===== *)
theory Batcher
  imports Sink_API
begin

text \<open>
  The request batcher, \<open>src/internal/service/batcher.go\<close>: callers queue their RPCs, one runner
  goroutine selects batches that are safe to run concurrently, and batches execute in their own
  goroutines. The state record holds the fields of \<open>requestBatcher\<close>, the local variables of
  \<open>run\<close>, the contents of its channels and the calls that are between two of them. The step
  relation interleaves the callers, the runner and the batches. Execution itself (\<open>execute\<close>)
  appears through what it may do to a call: finish some of its records. Metrics, logging and
  timers are not modelled; the age of a batch is an argument of the step that needs it.
\<close>

section \<open>Calls\<close>

record batchPartition =
  bp_resource :: string
  bp_mode :: CompletionMode
  bp_isolated :: bool

record 'r batchCall =
  bc_id :: nat
  bc_request :: 'r
  bc_operationCount :: int
  bc_encodedBytes :: int
  bc_records :: "recordIdentity list"
  bc_partition :: batchPartition

record batcher_options =
  bo_maxConcurrent :: int
  bo_maxOperations :: int
  bo_maxBytes :: int
  bo_maxQueuedOperations :: int
  bo_maxQueuedBytes :: int

text \<open>The limits \<open>newRequestBatcher\<close> gives the batcher; concurrency zero means unlimited.\<close>

definition newBatcherOptions :: "bool \<Rightarrow> batcher_options \<Rightarrow> batcher_options" where
  "newBatcherOptions unlimited o' =
     o'\<lparr>bo_maxConcurrent := (if unlimited then 0 else max 1 (bo_maxConcurrent o'))\<rparr>"

section \<open>Selecting a batch\<close>

datatype reason = MaxWait | MaxOperations | MaxBytes

record 'r selection =
  sel_selected :: "'r batchCall list"
  sel_remaining :: "'r batchCall list"
  sel_blocked :: "recordIdentity list"
  sel_operations :: int
  sel_bytes :: int
  sel_reason :: reason

definition call_dependent ::
    "(recordIdentity \<Rightarrow> int) \<Rightarrow> recordIdentity list \<Rightarrow> 'r batchCall \<Rightarrow> bool" where
  "call_dependent active blocked c \<longleftrightarrow> (\<exists>key \<in> set (bc_records c). active key > 0 \<or> key \<in> set blocked)"

definition call_fits :: "batcher_options \<Rightarrow> 'r selection \<Rightarrow> 'r batchCall \<Rightarrow> bool" where
  "call_fits o' s c \<longleftrightarrow>
     sel_selected s = [] \<or>
     (bc_operationCount c \<le> bo_maxOperations o' - sel_operations s \<and>
      bc_encodedBytes c \<le> bo_maxBytes o' - sel_bytes s)"

definition call_compatible :: "'r selection \<Rightarrow> 'r batchCall \<Rightarrow> bool" where
  "call_compatible s c \<longleftrightarrow>
     (case sel_selected s of [] \<Rightarrow> True
      | first # _ \<Rightarrow> \<not> bp_isolated (bc_partition c) \<and> \<not> bp_isolated (bc_partition first) \<and>
          bc_partition c = bc_partition first)"

text \<open>One iteration of the loop of \<open>selectReady\<close>; \<open>before\<close> is \<open>pending[:index]\<close>.\<close>

definition select_step ::
    "batcher_options \<Rightarrow> (recordIdentity \<Rightarrow> int) \<Rightarrow> 'r batchCall list \<Rightarrow> 'r batchCall \<Rightarrow> 'r selection \<Rightarrow> 'r selection" where
  "select_step o' active before c s =
     (let dependent = call_dependent active (sel_blocked s) c;
          fits = call_fits o' s c
      in if dependent \<or> \<not> fits \<or> \<not> call_compatible s c then
           s\<lparr>sel_remaining := (if sel_selected s \<noteq> [] then sel_remaining s @ [c] else sel_remaining s),
             sel_blocked := sel_blocked s @ filter (\<lambda>key. active key = 0) (bc_records c),
             sel_reason :=
               (if \<not> fits \<and> \<not> dependent then
                  if bc_operationCount c > bo_maxOperations o' - sel_operations s then MaxOperations else MaxBytes
                else sel_reason s)\<rparr>
         else
           s\<lparr>sel_remaining := (if sel_selected s = [] then sel_remaining s @ before else sel_remaining s),
             sel_selected := sel_selected s @ [c],
             sel_operations := sel_operations s + bc_operationCount c,
             sel_bytes := sel_bytes s + bc_encodedBytes c\<rparr>)"

fun select_loop ::
    "batcher_options \<Rightarrow> (recordIdentity \<Rightarrow> int) \<Rightarrow> 'r batchCall list \<Rightarrow> 'r batchCall list \<Rightarrow> 'r selection \<Rightarrow> 'r selection" where
  "select_loop o' active before [] s = s"
| "select_loop o' active before (c # cs) s =
     select_loop o' active (before @ [c]) cs (select_step o' active before c s)"

definition empty_selection :: "'r selection" where
  "empty_selection =
     \<lparr>sel_selected = [], sel_remaining = [], sel_blocked = [], sel_operations = 0, sel_bytes = 0, sel_reason = MaxWait\<rparr>"

definition selectReady ::
    "batcher_options \<Rightarrow> 'r batchCall list \<Rightarrow> (recordIdentity \<Rightarrow> int) \<Rightarrow>
     'r batchCall list \<times> 'r batchCall list \<times> reason" where
  "selectReady o' pending active =
     (let s = select_loop o' active [] pending empty_selection in
      if sel_selected s = [] then ([], pending, sel_reason s)
      else (sel_selected s, sel_remaining s,
        if sel_operations s \<ge> bo_maxOperations o' then MaxOperations
        else if sel_bytes s \<ge> bo_maxBytes o' then MaxBytes
        else sel_reason s))"

section \<open>State\<close>

text \<open>A call in execution with the records it has not finished (\<open>pendingRecords\<close>).\<close>

record 'r exec =
  x_call :: "'r batchCall"
  x_pending :: "recordIdentity list"

text \<open>Where the runner is: the loop head, past its shutdown test, in its \<open>select\<close>, or shutting down.\<close>

datatype run_pc = Top | Work | Selecting | Draining | Waiting | Returned

text \<open>
  \<open>b_sending\<close> holds the calls between \<open>reserve\<close> and the input channel, \<open>b_batches\<close> the executing
  batches, \<open>b_transit\<close> the finished records a batch has not yet sent, \<open>b_recordsDone\<close> and
  \<open>b_completed\<close> the contents of the channels of those names, \<open>b_answered\<close> the calls that were
  given a result without executing, \<open>b_next\<close> the identity of the next call.
\<close>

record 'r batcher =
  b_opts :: batcher_options
  b_stopped :: bool
  b_queuedCalls :: int
  b_queuedOperations :: int
  b_queuedBytes :: int
  b_next :: nat
  b_sending :: "'r batchCall list"
  b_input :: "'r batchCall list"
  b_pc :: run_pc
  b_pending :: "'r batchCall list"
  b_active :: "recordIdentity \<Rightarrow> int"
  b_running :: int
  b_batches :: "'r exec list list"
  b_completed :: nat
  b_transit :: "recordIdentity list list"
  b_recordsDone :: "recordIdentity list list"
  b_answered :: "(nat \<times> status) list"

definition newRequestBatcher :: "bool \<Rightarrow> batcher_options \<Rightarrow> 'r batcher" where
  "newRequestBatcher unlimited o' =
     \<lparr>b_opts = newBatcherOptions unlimited o', b_stopped = False, b_queuedCalls = 0, b_queuedOperations = 0,
      b_queuedBytes = 0, b_next = 0, b_sending = [], b_input = [], b_pc = Top, b_pending = [],
      b_active = (\<lambda>_. 0), b_running = 0, b_batches = [], b_completed = 0, b_transit = [],
      b_recordsDone = [], b_answered = []\<rparr>"

definition channel_cap :: "batcher_options \<Rightarrow> nat" where
  "channel_cap o' = nat (max 1 (min 1024 (bo_maxConcurrent o')))"

definition shutting_down :: status where
  "shutting_down = status_error Unavailable ''synchronous batcher is shutting down''"

section \<open>Queue accounting\<close>

definition reserve :: "int \<Rightarrow> int \<Rightarrow> 'r batcher \<Rightarrow> status + 'r batcher" where
  "reserve operationCount encodedBytes b =
     (if b_stopped b then Inl shutting_down
      else if operationCount > bo_maxQueuedOperations (b_opts b) \<or>
              b_queuedOperations b > bo_maxQueuedOperations (b_opts b) - operationCount \<or>
              encodedBytes > bo_maxQueuedBytes (b_opts b) \<or>
              b_queuedBytes b > bo_maxQueuedBytes (b_opts b) - encodedBytes
           then Inl (status_error ResourceExhausted ''synchronous batch queue is full'')
           else Inr (b\<lparr>b_queuedCalls := b_queuedCalls b + 1,
                       b_queuedOperations := b_queuedOperations b + operationCount,
                       b_queuedBytes := b_queuedBytes b + encodedBytes\<rparr>))"

definition release :: "'r batchCall \<Rightarrow> 'r batcher \<Rightarrow> 'r batcher" where
  "release c b =
     b\<lparr>b_queuedCalls := b_queuedCalls b - 1,
       b_queuedOperations := b_queuedOperations b - bc_operationCount c,
       b_queuedBytes := b_queuedBytes b - bc_encodedBytes c\<rparr>"

text \<open>\<open>completeCall\<close> for a call that is not executing: its result, and no records to finish.\<close>

definition answer :: "'r batchCall \<Rightarrow> status \<Rightarrow> 'r batcher \<Rightarrow> 'r batcher" where
  "answer c e b = b\<lparr>b_answered := b_answered b @ [(bc_id c, e)]\<rparr>"

fun failCalls :: "'r batchCall list \<Rightarrow> 'r batcher \<Rightarrow> 'r batcher" where
  "failCalls [] b = b"
| "failCalls (c # cs) b = failCalls cs (answer c shutting_down (release c b))"

section \<open>The runner\<close>

text \<open>The loop of \<open>run\<close> that drops canceled calls; \<open>cerr\<close> is the error of a call's context.\<close>

fun sweep ::
    "('r batchCall \<Rightarrow> ctx_err option) \<Rightarrow> 'r batchCall list \<Rightarrow> 'r batcher \<Rightarrow> 'r batchCall list \<times> 'r batcher" where
  "sweep cerr [] b = ([], b)"
| "sweep cerr (c # cs) b =
     (case cerr c of
        Some e \<Rightarrow> sweep cerr cs (answer c (fromContextError e) (release c b))
      | None \<Rightarrow> (let (live, b') = sweep cerr cs b in (c # live, b')))"

text \<open>Mark one selected call as executing: its distinct records become pending and active.\<close>

definition bump :: "recordIdentity list \<Rightarrow> (recordIdentity \<Rightarrow> int) \<Rightarrow> recordIdentity \<Rightarrow> int" where
  "bump keys active = fold (\<lambda>key a. a(key := a key + 1)) keys active"

definition start_call :: "'r batchCall \<Rightarrow> 'r batcher \<Rightarrow> 'r exec \<times> 'r batcher" where
  "start_call c b =
     (let keys = remdups (bc_records c); b1 = release c b in
      (\<lparr>x_call = c, x_pending = keys\<rparr>, b1\<lparr>b_active := bump keys (b_active b1)\<rparr>))"

fun start_calls :: "'r batchCall list \<Rightarrow> 'r batcher \<Rightarrow> 'r exec list \<times> 'r batcher" where
  "start_calls [] b = ([], b)"
| "start_calls (c # cs) b =
     (let (x, b1) = start_call c b; (xs, b2) = start_calls cs b1 in (x # xs, b2))"

text \<open>
  The rest of an iteration of \<open>run\<close> after the shutdown test: drain the input channel, drop
  canceled calls, and start a batch if a slot is free and the batch is full or old enough.
  \<open>aged\<close> says whether the oldest selected call has waited long enough.
\<close>

definition run_work :: "('r batchCall \<Rightarrow> ctx_err option) \<Rightarrow> bool \<Rightarrow> 'r batcher \<Rightarrow> 'r batcher" where
  "run_work cerr aged b =
     (let (live, b1) = sweep cerr (b_pending b @ b_input b) (b\<lparr>b_input := []\<rparr>);
          o' = b_opts b
      in if bo_maxConcurrent o' = 0 \<or> b_running b1 < bo_maxConcurrent o' then
           let (selected, remaining, reason) = selectReady o' live (b_active b1) in
           if selected \<noteq> [] \<and> (reason \<noteq> MaxWait \<or> aged) then
             let (xs, b2) = start_calls selected b1 in
             b2\<lparr>b_pending := remaining, b_running := b_running b2 + 1, b_batches := b_batches b2 @ [xs], b_pc := Top\<rparr>
           else b1\<lparr>b_pending := live, b_pc := Selecting\<rparr>
         else b1\<lparr>b_pending := live, b_pc := Selecting\<rparr>)"

text \<open>The \<open>recordsDone\<close> branch of the \<open>select\<close>; a deleted map entry reads as zero.\<close>

definition drop_active :: "recordIdentity list \<Rightarrow> (recordIdentity \<Rightarrow> int) \<Rightarrow> recordIdentity \<Rightarrow> int" where
  "drop_active keys active = fold (\<lambda>key a. a(key := a key - 1)) keys active"

section \<open>Finishing records\<close>

text \<open>The loop of \<open>finishRecords\<close>: the keys that were pending, each once, and the keys left.\<close>

fun finish_loop :: "recordIdentity list \<Rightarrow> recordIdentity list \<Rightarrow> recordIdentity list \<times> recordIdentity list" where
  "finish_loop [] pend = ([], pend)"
| "finish_loop (key # keys) pend =
     (if key \<in> set pend then
        let (done, rest) = finish_loop keys (removeAll key pend) in (key # done, rest)
      else finish_loop keys pend)"

definition finishRecords :: "recordIdentity list \<Rightarrow> 'r exec \<Rightarrow> recordIdentity list \<times> 'r exec" where
  "finishRecords keys x =
     (if x_pending x = [] then ([], x)
      else let (done, rest) = finish_loop keys (x_pending x) in (done, x\<lparr>x_pending := rest\<rparr>))"

section \<open>Steps\<close>

inductive batch_step :: "'r batcher \<Rightarrow> 'r batcher \<Rightarrow> bool" where
  submit: "\<lbrakk>reserve (bc_operationCount c) (bc_encodedBytes c) b = Inr b'; bc_id c = b_next b;
    0 \<le> bc_operationCount c; 0 \<le> bc_encodedBytes c\<rbrakk> \<Longrightarrow>
    batch_step b (b'\<lparr>b_next := b_next b + 1, b_sending := b_sending b @ [c]\<rparr>)"
| send: "\<lbrakk>c \<in> set (b_sending b); int (length (b_input b)) < bo_maxQueuedOperations (b_opts b)\<rbrakk> \<Longrightarrow>
    batch_step b (b\<lparr>b_sending := remove1 c (b_sending b), b_input := b_input b @ [c]\<rparr>)"
| abandon: "c \<in> set (b_sending b) \<Longrightarrow>
    batch_step b ((release c b)\<lparr>b_sending := remove1 c (b_sending b)\<rparr>)"
| stop: "batch_step b (b\<lparr>b_stopped := True\<rparr>)"
| top_work: "\<lbrakk>b_pc b = Top; \<not> b_stopped b\<rbrakk> \<Longrightarrow> batch_step b (b\<lparr>b_pc := Work\<rparr>)"
| top_fail: "\<lbrakk>b_pc b = Top; b_stopped b\<rbrakk> \<Longrightarrow>
    batch_step b ((failCalls (b_pending b) b)\<lparr>b_pending := [], b_pc := Draining\<rparr>)"
| work: "b_pc b = Work \<Longrightarrow> batch_step b (run_work cerr aged b)"
| recv_input: "\<lbrakk>b_pc b = Selecting; b_input b = c # cs\<rbrakk> \<Longrightarrow>
    batch_step b (b\<lparr>b_input := cs, b_pending := b_pending b @ [c], b_pc := Top\<rparr>)"
| recv_completed: "\<lbrakk>b_pc b = Selecting; 0 < b_completed b\<rbrakk> \<Longrightarrow>
    batch_step b (b\<lparr>b_completed := b_completed b - 1, b_running := b_running b - 1, b_pc := Top\<rparr>)"
| recv_records: "\<lbrakk>b_pc b = Selecting; b_recordsDone b = keys # rest\<rbrakk> \<Longrightarrow>
    batch_step b (b\<lparr>b_recordsDone := rest, b_active := drop_active keys (b_active b), b_pc := Top\<rparr>)"
| recv_wake: "b_pc b = Selecting \<Longrightarrow> batch_step b (b\<lparr>b_pc := Top\<rparr>)"
| drain_recv: "\<lbrakk>b_pc b = Draining; b_queuedCalls b > 0; b_input b = c # cs\<rbrakk> \<Longrightarrow>
    batch_step b (failCalls [c] (b\<lparr>b_input := cs\<rparr>))"
| drain_done: "\<lbrakk>b_pc b = Draining; b_queuedCalls b \<le> 0\<rbrakk> \<Longrightarrow> batch_step b (b\<lparr>b_pc := Waiting\<rparr>)"
| wait_recv: "\<lbrakk>b_pc b = Waiting; b_running b > 0; 0 < b_completed b\<rbrakk> \<Longrightarrow>
    batch_step b (b\<lparr>b_completed := b_completed b - 1, b_running := b_running b - 1\<rparr>)"
| wait_done: "\<lbrakk>b_pc b = Waiting; b_running b \<le> 0\<rbrakk> \<Longrightarrow> batch_step b (b\<lparr>b_pc := Returned\<rparr>)"
| finish: "\<lbrakk>b_batches b = xss @ (xs @ x # ys) # yss; finishRecords keys x = (done, x')\<rbrakk> \<Longrightarrow>
    batch_step b (b\<lparr>b_batches := xss @ (xs @ x' # ys) # yss,
      b_transit := (if done = [] then b_transit b else b_transit b @ [done])\<rparr>)"
| deliver: "\<lbrakk>b_transit b = us @ keys # vs; length (b_recordsDone b) < channel_cap (b_opts b)\<rbrakk> \<Longrightarrow>
    batch_step b (b\<lparr>b_transit := us @ vs, b_recordsDone := b_recordsDone b @ [keys]\<rparr>)"
| drop: "\<lbrakk>b_transit b = us @ keys # vs; b_stopped b\<rbrakk> \<Longrightarrow> batch_step b (b\<lparr>b_transit := us @ vs\<rparr>)"
| batch_done: "\<lbrakk>b_batches b = xss @ xs # yss; \<forall>x \<in> set xs. x_pending x = [];
    b_completed b < channel_cap (b_opts b)\<rbrakk> \<Longrightarrow>
    batch_step b (b\<lparr>b_batches := xss @ yss, b_completed := b_completed b + 1\<rparr>)"

inductive batch_reach :: "'r batcher \<Rightarrow> bool" where
  start: "batch_reach (newRequestBatcher unlimited o')"
| step: "batch_reach b \<Longrightarrow> batch_step b b' \<Longrightarrow> batch_reach b'"

section \<open>What a selection promises\<close>

definition sel_order :: "'r batchCall list \<Rightarrow> 'r batchCall set \<Rightarrow> bool" where
  "sel_order calls S \<longleftrightarrow>
     (\<forall>i j. i < j \<longrightarrow> j < length calls \<longrightarrow> calls ! j \<in> S \<longrightarrow> calls ! i \<notin> S \<longrightarrow>
        set (bc_records (calls ! i)) \<inter> set (bc_records (calls ! j)) = {})"

definition sel_inv ::
    "batcher_options \<Rightarrow> (recordIdentity \<Rightarrow> int) \<Rightarrow> 'r batchCall list \<Rightarrow> 'r selection \<Rightarrow> bool" where
  "sel_inv o' active before s \<longleftrightarrow>
     (let S = set (sel_selected s) in
      sel_selected s = filter (\<lambda>c. c \<in> S) before \<and>
      sel_remaining s = (if sel_selected s = [] then [] else filter (\<lambda>c. c \<notin> S) before) \<and>
      (\<forall>c \<in> set before - S. \<forall>k \<in> set (bc_records c). active k > 0 \<or> k \<in> set (sel_blocked s)) \<and>
      (\<forall>k \<in> set (sel_blocked s). \<exists>c \<in> set before - S. k \<in> set (bc_records c)) \<and>
      (\<forall>c \<in> S. \<forall>k \<in> set (bc_records c). active k = 0) \<and>
      sel_order before S \<and>
      sel_operations s = sum_list (map bc_operationCount (sel_selected s)) \<and>
      sel_bytes s = sum_list (map bc_encodedBytes (sel_selected s)) \<and>
      (1 < length (sel_selected s) \<longrightarrow>
         sel_operations s \<le> bo_maxOperations o' \<and> sel_bytes s \<le> bo_maxBytes o' \<and>
         (\<forall>c \<in> S. \<not> bp_isolated (bc_partition c) \<and> bc_partition c = bc_partition (hd (sel_selected s)))))"

lemma sel_order_snoc:
  assumes "sel_order calls S" "x \<notin> set calls" "x \<notin> S"
  shows "sel_order (calls @ [x]) S"
    and "(\<And>d. d \<in> set calls - S \<Longrightarrow> set (bc_records d) \<inter> set (bc_records x) = {}) \<Longrightarrow>
      sel_order (calls @ [x]) (insert x S)"
proof -
  show "sel_order (calls @ [x]) S"
    using assms by (auto simp: sel_order_def nth_append less_Suc_eq)
  assume dis: "\<And>d. d \<in> set calls - S \<Longrightarrow> set (bc_records d) \<inter> set (bc_records x) = {}"
  have "set (bc_records ((calls @ [x]) ! i)) \<inter> set (bc_records ((calls @ [x]) ! j)) = {}"
    if ij: "i < j" "j < length (calls @ [x])" and j: "(calls @ [x]) ! j \<in> insert x S"
      and i: "(calls @ [x]) ! i \<notin> insert x S" for i j
  proof (cases "j = length calls")
    case True
    with ij i dis[of "calls ! i"] show ?thesis by (simp add: nth_append)
  next
    case False
    with ij have "j < length calls" by simp
    moreover from this assms(2) have "calls ! j \<noteq> x" by (metis nth_mem)
    ultimately show ?thesis using assms(1) ij i j by (simp add: sel_order_def nth_append)
  qed
  then show "sel_order (calls @ [x]) (insert x S)" by (simp add: sel_order_def)
qed

lemma sel_invD:
  assumes "sel_inv o' active before s"
  shows "sel_selected s = filter (\<lambda>c. c \<in> set (sel_selected s)) before"
    "sel_remaining s = (if sel_selected s = [] then [] else filter (\<lambda>c. c \<notin> set (sel_selected s)) before)"
    "\<forall>d \<in> set before - set (sel_selected s). \<forall>k \<in> set (bc_records d). active k > 0 \<or> k \<in> set (sel_blocked s)"
    "\<forall>k \<in> set (sel_blocked s). \<exists>d \<in> set before - set (sel_selected s). k \<in> set (bc_records d)"
    "\<forall>d \<in> set (sel_selected s). \<forall>k \<in> set (bc_records d). active k = 0"
    "sel_operations s = sum_list (map bc_operationCount (sel_selected s))"
    "sel_bytes s = sum_list (map bc_encodedBytes (sel_selected s))"
    "sel_order before (set (sel_selected s))"
    "1 < length (sel_selected s) \<Longrightarrow> sel_operations s \<le> bo_maxOperations o' \<and> sel_bytes s \<le> bo_maxBytes o' \<and>
       (\<forall>c \<in> set (sel_selected s). \<not> bp_isolated (bc_partition c) \<and>
          bc_partition c = bc_partition (hd (sel_selected s)))"
    "set (sel_selected s) \<subseteq> set before"
  using assms unfolding sel_inv_def Let_def by (blast | metis filter_is_subset)+

lemma sel_inv_skip:
  assumes inv: "sel_inv o' active before s" and fresh: "c \<notin> set before" and nn: "\<And>k. 0 \<le> active k"
    and skip: "call_dependent active (sel_blocked s) c \<or> \<not> call_fits o' s c \<or> \<not> call_compatible s c"
  shows "sel_inv o' active (before @ [c]) (select_step o' active before c s)"
proof -
  let ?S = "set (sel_selected s)"
  let ?t = "select_step o' active before c s"
  note old = sel_invD[OF inv]
  have cS: "c \<notin> ?S" using fresh old(10) by blast
  have t: "sel_selected ?t = sel_selected s" "sel_operations ?t = sel_operations s" "sel_bytes ?t = sel_bytes s"
    "sel_blocked ?t = sel_blocked s @ filter (\<lambda>key. active key = 0) (bc_records c)"
    "sel_remaining ?t = (if sel_selected s \<noteq> [] then sel_remaining s @ [c] else sel_remaining s)"
    using skip by (simp_all add: select_step_def Let_def)
  have "active k > 0 \<or> active k = 0" for k using nn[of k] by auto
  then have "\<forall>d \<in> set (before @ [c]) - ?S. \<forall>k \<in> set (bc_records d). active k > 0 \<or> k \<in> set (sel_blocked ?t)"
    using old(3) unfolding t by auto
  moreover have "\<forall>k \<in> set (sel_blocked ?t). \<exists>d \<in> set (before @ [c]) - ?S. k \<in> set (bc_records d)"
    using old(4) cS unfolding t by auto
  moreover have "sel_selected s = filter (\<lambda>x. x \<in> ?S) (before @ [c])"
    "sel_remaining ?t = (if sel_selected s = [] then [] else filter (\<lambda>x. x \<notin> ?S) (before @ [c]))"
    using old(1,2) cS by (simp_all add: t)
  ultimately show ?thesis
    unfolding sel_inv_def Let_def t(1-3)
    using old(5-7,9) sel_order_snoc(1)[OF old(8) fresh cS] by blast
qed

lemma sel_inv_take:
  assumes inv: "sel_inv o' active before s" and fresh: "c \<notin> set before" and nn: "\<And>k. 0 \<le> active k"
    and False: "\<not> (call_dependent active (sel_blocked s) c \<or> \<not> call_fits o' s c \<or> \<not> call_compatible s c)"
  shows "sel_inv o' active (before @ [c]) (select_step o' active before c s)"
proof -
  let ?S = "set (sel_selected s)"
  note old = sel_invD[OF inv]
  have cS: "c \<notin> ?S" using fresh old(10) by blast
  let ?t = "select_step o' active before c s"
  have t: "sel_selected ?t = sel_selected s @ [c]" "sel_operations ?t = sel_operations s + bc_operationCount c"
    "sel_bytes ?t = sel_bytes s + bc_encodedBytes c" "sel_blocked ?t = sel_blocked s"
    "sel_remaining ?t = (if sel_selected s = [] then sel_remaining s @ before else sel_remaining s)"
    using False by (simp_all add: select_step_def Let_def)
  have free: "active k = 0 \<and> k \<notin> set (sel_blocked s)" if "k \<in> set (bc_records c)" for k
    using False that nn[of k] by (force simp: call_dependent_def)
  have dis: "set (bc_records d) \<inter> set (bc_records c) = {}" if "d \<in> set before - ?S" for d
  proof -
    have "\<forall>k \<in> set (bc_records d). active k > 0 \<or> k \<in> set (sel_blocked s)"
      using old(3) that by blast
    with free show ?thesis by force
  qed
  have order: "sel_order (before @ [c]) (insert c ?S)"
    using old(8) fresh cS dis by (rule sel_order_snoc(2))
  have "filter (\<lambda>x. x \<in> insert c ?S) before = filter (\<lambda>x. x \<in> ?S) before"
    using fresh by (intro filter_cong) auto
  also have "\<dots> = sel_selected s" using old(1) by (rule sym)
  finally have filt: "filter (\<lambda>x. x \<in> insert c ?S) before = sel_selected s"
    "filter (\<lambda>x. x \<notin> insert c ?S) before = filter (\<lambda>x. x \<notin> ?S) before"
    using fresh by (simp_all, intro filter_cong) auto
  have part: "\<not> bp_isolated (bc_partition x) \<and> bc_partition x = bc_partition (hd (sel_selected s @ [c]))"
    if ne: "sel_selected s \<noteq> []" and x: "x \<in> insert c ?S" for x
  proof -
    obtain f fs where f: "sel_selected s = f # fs" using ne by (cases "sel_selected s") auto
    then have cf: "\<not> bp_isolated (bc_partition c)" "\<not> bp_isolated (bc_partition f)" "bc_partition c = bc_partition f"
      using False by (simp_all add: call_compatible_def)
    show ?thesis
    proof (cases "x = c \<or> x = f")
      case True
      then show ?thesis using cf f by auto
    next
      case False
      then have "x \<in> set fs" using x f by simp
      then have "1 < length (sel_selected s)" using f by (cases fs) auto
      then show ?thesis using old(9) x False f by auto
    qed
  qed
  have bounds: "sel_operations s + bc_operationCount c \<le> bo_maxOperations o' \<and>
      sel_bytes s + bc_encodedBytes c \<le> bo_maxBytes o'" if "sel_selected s \<noteq> []"
    using False that by (simp add: call_fits_def)
  have S': "set (sel_selected s @ [c]) = insert c ?S" by simp
  have diff: "set (before @ [c]) - insert c ?S = set before - ?S" using fresh by auto
  have rem: "sel_remaining ?t = filter (\<lambda>x. x \<notin> insert c ?S) (before @ [c])"
  proof (cases "sel_selected s = []")
    case True
    then have "filter (\<lambda>x. x \<notin> ?S) before = before" by simp
    with True show ?thesis using filt old(2) by (simp add: t)
  next
    case False
    with filt old(2) show ?thesis by (simp add: t)
  qed
  have picked: "sel_selected s @ [c] = filter (\<lambda>x. x \<in> insert c ?S) (before @ [c])"
    using filt(1) by simp
  have keys: "\<forall>d \<in> insert c ?S. \<forall>k \<in> set (bc_records d). active k = 0" using free old(5) by blast
  have "sel_remaining ?t = (if sel_selected s @ [c] = [] then [] else filter (\<lambda>x. x \<notin> insert c ?S) (before @ [c]))"
    using rem by simp
  moreover have "sel_operations s + bc_operationCount c = sum_list (map bc_operationCount (sel_selected s @ [c]))"
    "sel_bytes s + bc_encodedBytes c = sum_list (map bc_encodedBytes (sel_selected s @ [c]))"
    using old(6,7) by simp_all
  moreover have "1 < length (sel_selected s @ [c]) \<Longrightarrow> sel_selected s \<noteq> []" by auto
  ultimately show ?thesis
    unfolding sel_inv_def Let_def t(1-4) S' diff
    using picked old(3,4) keys order part bounds by blast
qed

lemma sel_inv_step:
  assumes "sel_inv o' active before s" "c \<notin> set before" "\<And>k. 0 \<le> active k"
  shows "sel_inv o' active (before @ [c]) (select_step o' active before c s)"
  using assms sel_inv_skip sel_inv_take by blast

lemma sel_inv_loop:
  assumes "sel_inv o' active before s" "distinct (before @ cs)" "\<And>k. 0 \<le> active k"
  shows "sel_inv o' active (before @ cs) (select_loop o' active before cs s)"
  using assms
proof (induction cs arbitrary: before s)
  case Nil
  then show ?case by simp
next
  case (Cons c cs)
  then have "sel_inv o' active (before @ [c]) (select_step o' active before c s)"
    by (intro sel_inv_step) simp_all
  then show ?case using Cons.IH[of "before @ [c]"] Cons.prems by simp
qed

end
