(* ===== verification/Batcher_Steps.thy ===== *)
theory Batcher_Steps
  imports Batcher
begin

text \<open>
  What the request batcher promises: batches that execute at the same time work on disjoint
  records, calls on a record start in queue order, the queue counters and the concurrency limit
  are exact, the runner starts whatever can start, and a shutdown gives every queued call its
  result. The proofs follow the steps of \<open>Batcher\<close> with one invariant per concern.
\<close>

lemma select_step_grows: "\<exists>ys. sel_selected (select_step o' active before c s) = sel_selected s @ ys"
  by (simp add: select_step_def Let_def)

lemma select_loop_grows: "\<exists>ys. sel_selected (select_loop o' active before cs s) = sel_selected s @ ys"
proof (induction cs arbitrary: before s)
  case (Cons c cs)
  obtain ys where "sel_selected (select_step o' active before c s) = sel_selected s @ ys"
    using select_step_grows by blast
  then show ?case using Cons[of "before @ [c]" "select_step o' active before c s"] by auto
qed simp

lemma selectReady_spec:
  assumes run: "selectReady o' pending active = (selected, remaining, r)"
    and d: "distinct pending" and nn: "\<And>k. 0 \<le> active k"
  shows "selected = filter (\<lambda>c. c \<in> set selected) pending" "remaining = filter (\<lambda>c. c \<notin> set selected) pending"
    "\<And>c k. c \<in> set selected \<Longrightarrow> k \<in> set (bc_records c) \<Longrightarrow> active k = 0"
    "sel_order pending (set selected)"
    "1 < length selected \<Longrightarrow> sum_list (map bc_operationCount selected) \<le> bo_maxOperations o' \<and>
       sum_list (map bc_encodedBytes selected) \<le> bo_maxBytes o' \<and>
       (\<forall>c \<in> set selected. \<not> bp_isolated (bc_partition c) \<and> bc_partition c = bc_partition (hd selected))"
proof -
  let ?s = "select_loop o' active [] pending empty_selection"
  have "sel_inv o' active [] empty_selection"
    by (simp add: sel_inv_def empty_selection_def sel_order_def)
  then have "sel_inv o' active ([] @ pending) ?s"
    by (rule sel_inv_loop) (use d nn in simp_all)
  then have inv: "sel_inv o' active pending ?s" by simp
  note D = sel_invD[OF inv]
  have sel: "selected = sel_selected ?s" using run by (auto simp: selectReady_def Let_def split: if_splits)
  have rem: "remaining = filter (\<lambda>c. c \<notin> set selected) pending"
  proof (cases "sel_selected ?s = []")
    case True
    then show ?thesis using run sel by (simp add: selectReady_def Let_def)
  next
    case False
    then have "remaining = sel_remaining ?s" using run by (simp add: selectReady_def Let_def)
    then show ?thesis using D(2) False sel by simp
  qed
  show "remaining = filter (\<lambda>c. c \<notin> set selected) pending" by (fact rem)
  show "selected = filter (\<lambda>c. c \<in> set selected) pending" "sel_order pending (set selected)"
    using D(1,8) unfolding sel by blast+
  show "active k = 0" if "c \<in> set selected" "k \<in> set (bc_records c)" for c k
    using D(5) that unfolding sel by blast
  show "1 < length selected \<Longrightarrow> sum_list (map bc_operationCount selected) \<le> bo_maxOperations o' \<and>
       sum_list (map bc_encodedBytes selected) \<le> bo_maxBytes o' \<and>
       (\<forall>c \<in> set selected. \<not> bp_isolated (bc_partition c) \<and> bc_partition c = bc_partition (hd selected))"
    using D(9) unfolding sel D(6)[symmetric] D(7)[symmetric] by blast
qed

lemma selectReady_head:
  assumes run: "selectReady o' (c # cs) active = (selected, remaining, r)"
    and free: "\<And>k. k \<in> set (bc_records c) \<Longrightarrow> active k = 0"
  shows "\<exists>ys. selected = c # ys"
proof -
  let ?t = "select_step o' active [] c empty_selection"
  have "\<not> call_dependent active [] c" using free by (auto simp: call_dependent_def)
  then have "sel_selected ?t = [c]"
    by (simp add: select_step_def empty_selection_def call_fits_def call_compatible_def Let_def)
  then obtain ys where "sel_selected (select_loop o' active [] (c # cs) empty_selection) = c # ys"
    using select_loop_grows[of o' active "[c]" cs ?t] by auto
  moreover from this have "selected = sel_selected (select_loop o' active [] (c # cs) empty_selection)"
    using run by (simp add: selectReady_def Let_def)
  ultimately show ?thesis by simp
qed

section \<open>What the runner's loops compute\<close>

lemma bump_apply: "bump keys a k = a k + int (count_list keys k)"
  unfolding bump_def by (induction keys arbitrary: a) auto

lemma drop_active_apply: "drop_active keys a k = a k - int (count_list keys k)"
  unfolding drop_active_def by (induction keys arbitrary: a) auto

lemma release_fields [simp]:
  "b_opts (release c b) = b_opts b" "b_stopped (release c b) = b_stopped b" "b_next (release c b) = b_next b"
  "b_sending (release c b) = b_sending b" "b_input (release c b) = b_input b" "b_pc (release c b) = b_pc b"
  "b_pending (release c b) = b_pending b" "b_active (release c b) = b_active b"
  "b_running (release c b) = b_running b" "b_batches (release c b) = b_batches b"
  "b_completed (release c b) = b_completed b" "b_transit (release c b) = b_transit b"
  "b_recordsDone (release c b) = b_recordsDone b" "b_answered (release c b) = b_answered b"
  "b_queuedCalls (release c b) = b_queuedCalls b - 1"
  "b_queuedOperations (release c b) = b_queuedOperations b - bc_operationCount c"
  "b_queuedBytes (release c b) = b_queuedBytes b - bc_encodedBytes c"
  by (simp_all add: release_def)

lemma answer_fields [simp]:
  "b_opts (answer c e b) = b_opts b" "b_stopped (answer c e b) = b_stopped b" "b_next (answer c e b) = b_next b"
  "b_sending (answer c e b) = b_sending b" "b_input (answer c e b) = b_input b" "b_pc (answer c e b) = b_pc b"
  "b_pending (answer c e b) = b_pending b" "b_active (answer c e b) = b_active b"
  "b_running (answer c e b) = b_running b" "b_batches (answer c e b) = b_batches b"
  "b_completed (answer c e b) = b_completed b" "b_transit (answer c e b) = b_transit b"
  "b_recordsDone (answer c e b) = b_recordsDone b"
  "b_queuedCalls (answer c e b) = b_queuedCalls b" "b_queuedOperations (answer c e b) = b_queuedOperations b"
  "b_queuedBytes (answer c e b) = b_queuedBytes b"
  "b_answered (answer c e b) = b_answered b @ [(bc_id c, e)]"
  by (simp_all add: answer_def)

text \<open>\<open>settles cs b b'\<close>: \<open>b'\<close> is \<open>b\<close> with the calls \<open>cs\<close> released and given results.\<close>

definition settles :: "'r batchCall list \<Rightarrow> 'r batcher \<Rightarrow> 'r batcher \<Rightarrow> bool" where
  "settles cs b b' \<longleftrightarrow>
     (\<exists>ans. map fst ans = map bc_id cs \<and>
       b' = b\<lparr>b_queuedCalls := b_queuedCalls b - int (length cs),
              b_queuedOperations := b_queuedOperations b - sum_list (map bc_operationCount cs),
              b_queuedBytes := b_queuedBytes b - sum_list (map bc_encodedBytes cs),
              b_answered := b_answered b @ ans\<rparr>)"

lemma settles_Nil [simp]: "settles [] b b"
  by (simp add: settles_def)

lemma settles_Cons:
  assumes "settles cs (answer c e (release c b)) b'"
  shows "settles (c # cs) b b'"
proof -
  obtain ans where ans: "map fst ans = map bc_id cs" and b': "b' = (answer c e (release c b))
      \<lparr>b_queuedCalls := b_queuedCalls (answer c e (release c b)) - int (length cs),
       b_queuedOperations := b_queuedOperations (answer c e (release c b)) - sum_list (map bc_operationCount cs),
       b_queuedBytes := b_queuedBytes (answer c e (release c b)) - sum_list (map bc_encodedBytes cs),
       b_answered := b_answered (answer c e (release c b)) @ ans\<rparr>"
    using assms by (auto simp: settles_def)
  show ?thesis
    unfolding settles_def
    by (rule exI[of _ "(bc_id c, e) # ans"]) (use ans b' in \<open>simp add: answer_def release_def algebra_simps\<close>)
qed

lemma failCalls_settles: "settles cs b (failCalls cs b)"
  by (induction cs arbitrary: b) (auto intro: settles_Cons)

lemma sweep_settles:
  "sweep cerr cs b = (live, b') \<Longrightarrow>
     live = filter (\<lambda>c. cerr c = None) cs \<and> settles (filter (\<lambda>c. cerr c \<noteq> None) cs) b b'"
proof (induction cs arbitrary: b live b')
  case (Cons c cs)
  show ?case
  proof (cases "cerr c")
    case None
    then obtain l where "sweep cerr cs b = (l, b')" "live = c # l"
      using Cons.prems by (auto split: prod.splits)
    then show ?thesis using Cons.IH None by auto
  next
    case (Some e)
    then show ?thesis using Cons.IH[of "answer c (fromContextError e) (release c b)"] Cons.prems
      by (auto intro: settles_Cons)
  qed
qed simp

definition held1 :: "'r exec list \<Rightarrow> recordIdentity list" where
  "held1 xs = concat (map x_pending xs)"

definition held :: "'r exec list list \<Rightarrow> recordIdentity list" where
  "held xss = concat (map held1 xss)"

lemma start_calls_spec:
  "start_calls cs b = (xs, b') \<Longrightarrow>
     xs = map (\<lambda>c. \<lparr>x_call = c, x_pending = remdups (bc_records c)\<rparr>) cs \<and>
     b' = b\<lparr>b_queuedCalls := b_queuedCalls b - int (length cs),
            b_queuedOperations := b_queuedOperations b - sum_list (map bc_operationCount cs),
            b_queuedBytes := b_queuedBytes b - sum_list (map bc_encodedBytes cs),
            b_active := (\<lambda>k. b_active b k + int (count_list (held1 xs) k))\<rparr>"
proof (induction cs arbitrary: b xs b')
  case Nil
  then show ?case by (simp add: held1_def)
next
  case (Cons c cs)
  obtain x b1 where one: "start_call c b = (x, b1)" by fastforce
  obtain ys where two: "start_calls cs b1 = (ys, b')" "xs = x # ys"
    using Cons.prems one by (auto split: prod.splits)
  have x: "x = \<lparr>x_call = c, x_pending = remdups (bc_records c)\<rparr>"
    and b1: "b1 = (release c b)\<lparr>b_active := bump (remdups (bc_records c)) (b_active b)\<rparr>"
    using one by (simp_all add: start_call_def Let_def)
  have ys: "ys = map (\<lambda>c. \<lparr>x_call = c, x_pending = remdups (bc_records c)\<rparr>) cs"
    using Cons.IH[OF two(1)] by simp
  have "(\<lambda>k. b_active b1 k + int (count_list (held1 ys) k)) = (\<lambda>k. b_active b k + int (count_list (held1 xs) k))"
    by (simp add: b1 bump_apply two(2) x held1_def fun_eq_iff)
  then show ?case using Cons.IH[OF two(1)] two(2) x ys b1 by (simp add: release_def algebra_simps)
qed

lemma finish_loop_spec:
  "distinct pend \<Longrightarrow> finish_loop keys pend = (done, rest) \<Longrightarrow>
     distinct rest \<and> set rest \<subseteq> set pend \<and> (\<forall>k. count_list pend k = count_list done k + count_list rest k) \<and>
     set rest = set pend - set keys"
proof (induction keys arbitrary: pend "done" rest)
  case Nil
  then show ?case by simp
next
  case (Cons key keys)
  show ?case
  proof (cases "key \<in> set pend")
    case True
    then obtain d where d: "finish_loop keys (removeAll key pend) = (d, rest)" "done = key # d"
      using Cons.prems by (auto split: prod.splits)
    have c: "count_list pend k = (if k = key then 1 else count_list (removeAll key pend) k)" for k
      using True Cons.prems(1) by (induction pend) auto
    have z: "count_list (removeAll key pend) key = 0" by (simp add: count_list_0_iff)
    show ?thesis using Cons.IH[OF _ d(1)] Cons.prems(1) d(2) c z
      by (auto simp: distinct_removeAll)
  next
    case False
    then show ?thesis using Cons by auto
  qed
qed

lemma run_work_cases:
  assumes "run_work cerr aged b = b'"
  obtains (idle) b1 live dropped where
      "live = filter (\<lambda>c. cerr c = None) (b_pending b @ b_input b)"
      "dropped = filter (\<lambda>c. cerr c \<noteq> None) (b_pending b @ b_input b)"
      "settles dropped (b\<lparr>b_input := []\<rparr>) b1"
      "b' = b1\<lparr>b_pending := live, b_pc := Selecting\<rparr>"
  | (started) b1 live dropped selected remaining r xs where
      "live = filter (\<lambda>c. cerr c = None) (b_pending b @ b_input b)"
      "dropped = filter (\<lambda>c. cerr c \<noteq> None) (b_pending b @ b_input b)"
      "settles dropped (b\<lparr>b_input := []\<rparr>) b1"
      "bo_maxConcurrent (b_opts b) = 0 \<or> b_running b < bo_maxConcurrent (b_opts b)"
      "selectReady (b_opts b) live (b_active b) = (selected, remaining, r)"
      "xs = map (\<lambda>c. \<lparr>x_call = c, x_pending = remdups (bc_records c)\<rparr>) selected"
      "b' = b1\<lparr>b_queuedCalls := b_queuedCalls b1 - int (length selected),
               b_queuedOperations := b_queuedOperations b1 - sum_list (map bc_operationCount selected),
               b_queuedBytes := b_queuedBytes b1 - sum_list (map bc_encodedBytes selected),
               b_active := (\<lambda>k. b_active b k + int (count_list (held1 xs) k)),
               b_pending := remaining, b_running := b_running b + 1,
               b_batches := b_batches b @ [xs], b_pc := Top\<rparr>"
proof -
  obtain live b1 where sw: "sweep cerr (b_pending b @ b_input b) (b\<lparr>b_input := []\<rparr>) = (live, b1)" by fastforce
  note spec = sweep_settles[OF sw]
  then have same: "b_running b1 = b_running b" "b_active b1 = b_active b" "b_batches b1 = b_batches b"
    by (auto simp: settles_def)
  obtain selected remaining r where sel: "selectReady (b_opts b) live (b_active b) = (selected, remaining, r)"
    by (cases "selectReady (b_opts b) live (b_active b)") auto
  obtain xs b2 where st: "start_calls selected b1 = (xs, b2)" by fastforce
  note start = start_calls_spec[OF st]
  let ?free = "bo_maxConcurrent (b_opts b) = 0 \<or> b_running b < bo_maxConcurrent (b_opts b)"
  show ?thesis
  proof (cases "?free \<and> selected \<noteq> [] \<and> (r \<noteq> MaxWait \<or> aged)")
    case True
    then have "b' = b2\<lparr>b_pending := remaining, b_running := b_running b2 + 1, b_batches := b_batches b2 @ [xs], b_pc := Top\<rparr>"
      using assms sw sel st same by (simp add: run_work_def Let_def)
    with True spec start sel same show ?thesis by (intro started) auto
  next
    case False
    then have "b' = b1\<lparr>b_pending := live, b_pc := Selecting\<rparr>"
      using assms sw sel same by (auto simp: run_work_def Let_def)
    with spec show ?thesis by (intro idle) auto
  qed
qed

section \<open>Invariant\<close>

definition queued :: "'r batcher \<Rightarrow> 'r batchCall list" where
  "queued b = b_sending b @ b_input b @ b_pending b"

definition queue_inv :: "'r batcher \<Rightarrow> bool" where
  "queue_inv b \<longleftrightarrow>
     b_queuedCalls b = int (length (queued b)) \<and>
     b_queuedOperations b = sum_list (map bc_operationCount (queued b)) \<and>
     b_queuedBytes b = sum_list (map bc_encodedBytes (queued b)) \<and>
     (\<forall>c \<in> set (queued b). 0 \<le> bc_operationCount c \<and> 0 \<le> bc_encodedBytes c) \<and>
     b_queuedOperations b \<le> max 0 (bo_maxQueuedOperations (b_opts b)) \<and>
     b_queuedBytes b \<le> max 0 (bo_maxQueuedBytes (b_opts b))"

text \<open>Calls that leave the queue take their share of the counters with them.\<close>

lemma queue_inv_moved:
  assumes inv: "queue_inv b" and m: "mset (queued b) = mset gone + mset (queued b')"
    and "b_opts b' = b_opts b" "b_queuedCalls b' = b_queuedCalls b - int (length gone)"
    "b_queuedOperations b' = b_queuedOperations b - sum_list (map bc_operationCount gone)"
    "b_queuedBytes b' = b_queuedBytes b - sum_list (map bc_encodedBytes gone)"
  shows "queue_inv b'"
proof -
  have sums: "sum_list (map f (queued b)) = sum_list (map f gone) + sum_list (map f (queued b'))" for f :: "_ \<Rightarrow> int"
    using m by (metis mset_append mset_map map_append sum_list_append sum_mset_sum_list)
  have len: "length (queued b) = length gone + length (queued b')"
    using m by (metis size_mset size_union)
  have mem: "set gone \<subseteq> set (queued b)" "set (queued b') \<subseteq> set (queued b)"
    using m by (metis set_mset_mset Un_upper1 Un_upper2 set_mset_union)+
  have "0 \<le> sum_list (map bc_operationCount gone)" "0 \<le> sum_list (map bc_encodedBytes gone)"
    using inv mem by (intro sum_list_nonneg_int; force simp: queue_inv_def)+
  then show ?thesis
    using inv mem(2) assms(3-) sums len unfolding queue_inv_def by (auto simp: subset_iff)
qed

definition known_calls :: "'r batcher \<Rightarrow> 'r batchCall list" where
  "known_calls b = queued b @ map x_call (concat (b_batches b))"

definition ident_inv :: "'r batcher \<Rightarrow> bool" where
  "ident_inv b \<longleftrightarrow> distinct (map bc_id (known_calls b)) \<and> (\<forall>c \<in> set (known_calls b). bc_id c < b_next b)"

lemma ident_inv_mono:
  assumes "ident_inv b" "mset (known_calls b') \<subseteq># mset (known_calls b)" "b_next b' = b_next b"
  shows "ident_inv b'"
proof -
  have "mset (map bc_id (known_calls b')) \<subseteq># mset (map bc_id (known_calls b))"
    using assms(2) by (simp add: image_mset_subseteq_mono)
  then have "distinct (map bc_id (known_calls b'))"
    by (rule distinct_mset_mono) (use assms(1) in \<open>simp add: ident_inv_def\<close>)
  moreover have "set (known_calls b') \<subseteq> set (known_calls b)"
    using assms(2) by (metis set_mset_mono set_mset_mset)
  ultimately show ?thesis using assms(1,3) by (auto simp: ident_inv_def)
qed

lemma settles_frame:
  assumes "settles cs b b'"
  shows "b_opts b' = b_opts b" "b_stopped b' = b_stopped b" "b_next b' = b_next b" "b_sending b' = b_sending b"
    "b_input b' = b_input b" "b_pc b' = b_pc b" "b_pending b' = b_pending b" "b_active b' = b_active b"
    "b_running b' = b_running b" "b_batches b' = b_batches b" "b_completed b' = b_completed b"
    "b_transit b' = b_transit b" "b_recordsDone b' = b_recordsDone b"
    "b_queuedCalls b' = b_queuedCalls b - int (length cs)"
    "b_queuedOperations b' = b_queuedOperations b - sum_list (map bc_operationCount cs)"
    "b_queuedBytes b' = b_queuedBytes b - sum_list (map bc_encodedBytes cs)"
  using assms by (auto simp: settles_def)

text \<open>
  What an iteration of the runner does to the queue: the canceled calls leave it, and either the
  rest stays pending or a batch leaves it as well.
\<close>

lemma run_work_queue:
  assumes run: "run_work cerr aged b = b'" and ident: "ident_inv b" and nn: "\<And>k. 0 \<le> b_active b k"
  shows "\<exists>gone. mset (queued b) = mset gone + mset (queued b') \<and> b_opts b' = b_opts b \<and>
      b_queuedCalls b' = b_queuedCalls b - int (length gone) \<and>
      b_queuedOperations b' = b_queuedOperations b - sum_list (map bc_operationCount gone) \<and>
      b_queuedBytes b' = b_queuedBytes b - sum_list (map bc_encodedBytes gone)"
    and "mset (known_calls b') \<subseteq># mset (known_calls b)" "b_next b' = b_next b"
proof -
  have "(\<exists>gone. mset (queued b) = mset gone + mset (queued b') \<and> b_opts b' = b_opts b \<and>
      b_queuedCalls b' = b_queuedCalls b - int (length gone) \<and>
      b_queuedOperations b' = b_queuedOperations b - sum_list (map bc_operationCount gone) \<and>
      b_queuedBytes b' = b_queuedBytes b - sum_list (map bc_encodedBytes gone)) \<and>
    mset (known_calls b') \<subseteq># mset (known_calls b) \<and> b_next b' = b_next b"
    using run
  proof (cases rule: run_work_cases)
    case (idle b1 live dropped)
    note f = settles_frame[OF idle(3)]
    have m: "mset (b_pending b @ b_input b) = mset live + mset dropped"
      using mset_filter_split[of "b_pending b @ b_input b" "\<lambda>c. cerr c = None"] idle(1,2) by simp
    then have q: "mset (queued b) = mset dropped + mset (queued b')"
      using idle(4) f by (simp add: queued_def ac_simps)
    then have "mset (known_calls b') \<subseteq># mset (known_calls b)"
      using idle(4) f by (simp add: known_calls_def)
    with q idle(4) f show ?thesis by (intro conjI exI[of _ dropped]) simp_all
  next
    case (started b1 live dropped selected remaining r xs)
    note f = settles_frame[OF started(3)]
    have m: "mset (b_pending b @ b_input b) = mset live + mset dropped"
      using mset_filter_split[of "b_pending b @ b_input b" "\<lambda>c. cerr c = None"] started(1,2) by simp
    have "distinct (map bc_id (b_pending b @ b_input b))"
      using ident by (auto simp: ident_inv_def known_calls_def queued_def)
    then have "distinct (b_pending b @ b_input b)" by (simp add: distinct_map del: map_append distinct_append)
    then have dl: "distinct live" unfolding started(1) by (rule distinct_filter)
    note spec = selectReady_spec[OF started(5) dl nn]
    have "mset live = mset selected + mset remaining"
      using mset_filter_split[of live "\<lambda>c. c \<in> set selected"] spec(1,2) by simp
    with m have q: "mset (queued b) = mset (dropped @ selected) + mset (queued b')"
      using started(7) f by (simp add: queued_def ac_simps)
    have "map x_call xs = selected" unfolding started(6) by (simp add: o_def)
    then have "mset (known_calls b') \<subseteq># mset (known_calls b)"
      using q started(7) f by (simp add: known_calls_def)
    with q started(7) f show ?thesis by (intro conjI exI[of _ "dropped @ selected"]) simp_all
  qed
  then show "\<exists>gone. mset (queued b) = mset gone + mset (queued b') \<and> b_opts b' = b_opts b \<and>
      b_queuedCalls b' = b_queuedCalls b - int (length gone) \<and>
      b_queuedOperations b' = b_queuedOperations b - sum_list (map bc_operationCount gone) \<and>
      b_queuedBytes b' = b_queuedBytes b - sum_list (map bc_encodedBytes gone)"
    "mset (known_calls b') \<subseteq># mset (known_calls b)" "b_next b' = b_next b"
    by blast+
qed

lemma queue_inv_same:
  assumes "queue_inv b" "mset (queued b') = mset (queued b)" "b_opts b' = b_opts b"
    "b_queuedCalls b' = b_queuedCalls b" "b_queuedOperations b' = b_queuedOperations b"
    "b_queuedBytes b' = b_queuedBytes b"
  shows "queue_inv b'"
  using queue_inv_moved[OF assms(1), of "[]" b'] assms by simp

lemma queue_step:
  assumes step: "batch_step b b'" and q: "queue_inv b" and i: "ident_inv b" and nn: "\<And>k. 0 \<le> b_active b k"
  shows "queue_inv b' \<and> ident_inv b'"
  using step
proof cases
  case (submit c b1)
  have b1: "b1 = b\<lparr>b_queuedCalls := b_queuedCalls b + 1, b_queuedOperations := b_queuedOperations b + bc_operationCount c,
      b_queuedBytes := b_queuedBytes b + bc_encodedBytes c\<rparr>"
    and lim: "b_queuedOperations b \<le> bo_maxQueuedOperations (b_opts b) - bc_operationCount c"
      "b_queuedBytes b \<le> bo_maxQueuedBytes (b_opts b) - bc_encodedBytes c"
    using submit(2) by (auto simp: reserve_def split: if_splits)
  have "queue_inv b'"
    using q submit(4,5) lim by (auto simp: submit(1) b1 queue_inv_def queued_def)
  moreover have "bc_id c \<notin> bc_id ` set (known_calls b)"
    using i submit(3) by (force simp: ident_inv_def)
  moreover have "mset (known_calls b') = mset (c # known_calls b)"
    by (simp add: submit(1) b1 known_calls_def queued_def)
  then have "mset (map bc_id (known_calls b')) = mset (map bc_id (c # known_calls b))"
    "set (known_calls b') = insert c (set (known_calls b))"
    by (metis mset_map, metis list.simps(15) mset_eq_setD)
  moreover have "b_next b' = Suc (b_next b)" by (simp add: submit(1))
  ultimately have "ident_inv b'"
    using i submit(3) mset_eq_imp_distinct_iff[of "map bc_id (known_calls b')" "map bc_id (c # known_calls b)"]
    unfolding ident_inv_def by (auto intro: less_SucI)
  with \<open>queue_inv b'\<close> show ?thesis by simp
next
  case (send c)
  have "mset (queued b') = mset (queued b)"
    using send by (simp add: queued_def)
  then show ?thesis
    using queue_inv_same[OF q] ident_inv_mono[OF i] by (simp add: send(1) known_calls_def)
next
  case (abandon c)
  have m: "mset (queued b) = mset [c] + mset (queued b')"
    using abandon by (simp add: queued_def)
  then have "mset (known_calls b') \<subseteq># mset (known_calls b)"
    by (simp add: known_calls_def abandon(1))
  then show ?thesis
    using queue_inv_moved[OF q m] ident_inv_mono[OF i] by (simp add: abandon(1))
next
  case top_fail
  note f = settles_frame[OF failCalls_settles[of "b_pending b" b]]
  have m: "mset (queued b) = mset (b_pending b) + mset (queued b')"
    using f by (simp add: queued_def top_fail(1))
  then have "mset (known_calls b') \<subseteq># mset (known_calls b)"
    using f by (simp add: known_calls_def top_fail(1))
  then show ?thesis
    using queue_inv_moved[OF q m] ident_inv_mono[OF i] f by (simp add: top_fail(1))
next
  case (work cerr aged)
  note r = run_work_queue[OF work(1)[symmetric] i nn]
  then show ?thesis using queue_inv_moved[OF q] ident_inv_mono[OF i] by blast
next
  case (recv_input c cs)
  have "mset (queued b') = mset (queued b)"
    using recv_input by (simp add: queued_def)
  then show ?thesis
    using queue_inv_same[OF q] ident_inv_mono[OF i] by (simp add: recv_input(1) known_calls_def)
next
  case (drain_recv c cs)
  note f = settles_frame[OF failCalls_settles[of "[c]" "b\<lparr>b_input := cs\<rparr>"]]
  have m: "mset (queued b) = mset [c] + mset (queued b')"
    using f drain_recv(4) by (simp add: queued_def drain_recv(1))
  then have "mset (known_calls b') \<subseteq># mset (known_calls b)"
    using f by (simp add: known_calls_def drain_recv(1))
  then show ?thesis
    using queue_inv_moved[OF q m] ident_inv_mono[OF i] f by (simp add: drain_recv(1))
next
  case (finish xss xs x ys yss keys d x')
  have "x_call x' = x_call x" using finish(3) by (auto simp: finishRecords_def Let_def split: if_splits prod.splits)
  then have "mset (known_calls b') = mset (known_calls b)"
    using finish(2) by (simp add: finish(1) known_calls_def queued_def)
  then show ?thesis
    using queue_inv_same[OF q] ident_inv_mono[OF i] by (simp add: finish(1) queued_def)
next
  case (batch_done xss xs yss)
  have "mset (known_calls b') \<subseteq># mset (known_calls b)"
    using batch_done(2) by (simp add: batch_done(1) known_calls_def queued_def)
  then show ?thesis
    using queue_inv_same[OF q] ident_inv_mono[OF i] by (simp add: batch_done(1) queued_def)
qed (use queue_inv_same[OF q] ident_inv_mono[OF i] in \<open>simp_all add: queued_def known_calls_def\<close>)

text \<open>
  Records: the outstanding claims on a record are the executing calls that have not finished it
  and the notices of finished records that are still on their way to the runner.
\<close>

definition outstanding :: "'r batcher \<Rightarrow> recordIdentity list" where
  "outstanding b = held (b_batches b) @ concat (b_transit b) @ concat (b_recordsDone b)"

definition apart :: "'r exec list \<Rightarrow> 'r exec list \<Rightarrow> bool" where
  "apart xs ys \<longleftrightarrow> set (held1 xs) \<inter> set (held1 ys) = {}"

definition record_inv :: "'r batcher \<Rightarrow> bool" where
  "record_inv b \<longleftrightarrow>
     (\<forall>k. int (count_list (outstanding b) k) \<le> b_active b k) \<and>
     (\<not> b_stopped b \<longrightarrow> (\<forall>k. b_active b k = int (count_list (outstanding b) k))) \<and>
     sorted_wrt apart (b_batches b) \<and>
     (\<forall>xs \<in> set (b_batches b). \<forall>x \<in> set xs.
        distinct (x_pending x) \<and> set (x_pending x) \<subseteq> set (bc_records (x_call x)))"

lemma held_simps [simp]:
  "held [] = []" "held (xs # xss) = held1 xs @ held xss" "held (xss @ yss) = held xss @ held yss"
  "held1 [] = []" "held1 (x # xs) = x_pending x @ held1 xs" "held1 (xs @ ys) = held1 xs @ held1 ys"
  by (simp_all add: held_def held1_def)

lemma record_inv_nonneg: "record_inv b \<Longrightarrow> 0 \<le> b_active b k"
  unfolding record_inv_def by (meson of_nat_0_le_iff order_trans)

lemma record_inv_same:
  assumes "record_inv b" "mset (outstanding b') = mset (outstanding b)" "b_active b' = b_active b"
    "b_stopped b \<longrightarrow> b_stopped b'" "sorted_wrt apart (b_batches b')"
    "\<forall>xs \<in> set (b_batches b'). \<forall>x \<in> set xs. distinct (x_pending x) \<and> set (x_pending x) \<subseteq> set (bc_records (x_call x))"
  shows "record_inv b'"
proof -
  have "count_list (outstanding b') k = count_list (outstanding b) k" for k
    using assms(2) by (metis count_mset)
  then show ?thesis using assms unfolding record_inv_def by auto
qed

lemma record_inv_work:
  assumes run: "run_work cerr aged b = b'" and inv: "record_inv b" and ident: "ident_inv b"
  shows "record_inv b'"
  using run
proof (cases rule: run_work_cases)
  case (idle b1 live dropped)
  note f = settles_frame[OF idle(3)]
  show ?thesis
    by (rule record_inv_same[OF inv]) (use inv f in \<open>simp_all add: idle(4) outstanding_def record_inv_def\<close>)
next
  case (started b1 live dropped selected remaining r xs)
  note f = settles_frame[OF started(3)]
  have nn: "\<And>k. 0 \<le> b_active b k" using inv by (rule record_inv_nonneg)
  have "distinct (map bc_id (b_pending b @ b_input b))"
    using ident by (auto simp: ident_inv_def known_calls_def queued_def)
  then have "distinct (b_pending b @ b_input b)" by (simp add: distinct_map del: map_append distinct_append)
  then have "distinct live" unfolding started(1) by (rule distinct_filter)
  note spec = selectReady_spec[OF started(5) this nn]
  have keys: "b_active b k = 0" if "k \<in> set (held1 xs)" for k
    using that spec(3) by (auto simp: started(6) held1_def)
  have "apart ys xs" if "ys \<in> set (b_batches b)" for ys
  proof -
    have "count_list (outstanding b) k > 0" if "k \<in> set (held1 ys)" for k
      using that \<open>ys \<in> set (b_batches b)\<close>
      by (auto simp: outstanding_def held_def count_list_0_iff simp flip: neq0_conv)
    then have "0 < b_active b k" if "k \<in> set (held1 ys)" for k
      using that inv unfolding record_inv_def by (metis of_nat_0_less_iff order_less_le_trans)
    then show ?thesis using keys by (force simp: apart_def)
  qed
  then show ?thesis
    using inv f
    by (auto simp: started(7) record_inv_def outstanding_def sorted_wrt_append started(6))
qed

lemma sorted_apart_shrink:
  assumes "sorted_wrt apart (xss @ xs # yss)" "set (held1 ys) \<subseteq> set (held1 xs)"
  shows "sorted_wrt apart (xss @ ys # yss)"
  using assms by (auto simp: sorted_wrt_append apart_def)

lemma record_inv_finish:
  assumes inv: "record_inv b" and b: "b_batches b = xss @ (xs @ x # ys) # yss"
    and fin: "finishRecords keys x = (d, x')"
  shows "record_inv (b\<lparr>b_batches := xss @ (xs @ x' # ys) # yss,
      b_transit := (if d = [] then b_transit b else b_transit b @ [d])\<rparr>)"
proof -
  have x: "distinct (x_pending x)" "set (x_pending x) \<subseteq> set (bc_records (x_call x))"
    using inv b by (simp_all add: record_inv_def)
  have x': "distinct (x_pending x')" "set (x_pending x') \<subseteq> set (x_pending x)" "x_call x' = x_call x"
    "\<forall>k. count_list (x_pending x) k = count_list d k + count_list (x_pending x') k"
  proof -
    have *: "x_pending x' = x_pending x \<and> d = [] \<and> x' = x \<or>
        (\<exists>rest. finish_loop keys (x_pending x) = (d, rest) \<and> x' = x\<lparr>x_pending := rest\<rparr>)"
      using fin by (auto simp: finishRecords_def Let_def split: if_splits prod.splits)
    then show "distinct (x_pending x')" "set (x_pending x') \<subseteq> set (x_pending x)" "x_call x' = x_call x"
      "\<forall>k. count_list (x_pending x) k = count_list d k + count_list (x_pending x') k"
      using finish_loop_spec[OF x(1)] x by auto
  qed
  let ?b = "b\<lparr>b_batches := xss @ (xs @ x' # ys) # yss, b_transit := (if d = [] then b_transit b else b_transit b @ [d])\<rparr>"
  have "count_list (outstanding ?b) k = count_list (outstanding b) k" for k
    using x'(4) by (cases "d = []") (simp_all add: outstanding_def b)
  then have "mset (outstanding ?b) = mset (outstanding b)" by (intro multiset_eqI) (simp add: count_mset)
  moreover have "sorted_wrt apart (b_batches ?b)"
  proof -
    have "sorted_wrt apart (xss @ (xs @ x # ys) # yss)" using inv unfolding record_inv_def b by blast
    then have "sorted_wrt apart (xss @ (xs @ x' # ys) # yss)"
      by (rule sorted_apart_shrink) (use x'(2) in auto)
    then show ?thesis by simp
  qed
  moreover have "\<forall>zs \<in> set (b_batches ?b). \<forall>z \<in> set zs.
      distinct (x_pending z) \<and> set (x_pending z) \<subseteq> set (bc_records (x_call z))"
    using inv x' unfolding record_inv_def b by auto
  ultimately show ?thesis by (intro record_inv_same[OF inv]) simp_all
qed

lemma record_step:
  assumes step: "batch_step b b'" and inv: "record_inv b" and ident: "ident_inv b"
  shows "record_inv b'"
  using step
proof cases
  case (submit c b1)
  then have "b_batches b1 = b_batches b \<and> b_transit b1 = b_transit b \<and> b_recordsDone b1 = b_recordsDone b \<and>
      b_active b1 = b_active b \<and> b_stopped b1 = b_stopped b"
    by (auto simp: reserve_def split: if_splits)
  then show ?thesis using inv by (simp add: submit(1) record_inv_def outstanding_def)
next
  case top_fail
  note f = settles_frame[OF failCalls_settles[of "b_pending b" b]]
  show ?thesis using inv f by (simp add: top_fail(1) record_inv_def outstanding_def)
next
  case (work cerr aged)
  show ?thesis using record_inv_work[OF work(1)[symmetric] inv ident] .
next
  case (recv_records keys rest)
  have "int (count_list (outstanding b) k) = int (count_list (outstanding b') k) + int (count_list keys k)" for k
    by (simp add: recv_records(1) outstanding_def recv_records(3))
  moreover have "b_active b' k = b_active b k - int (count_list keys k)" for k
    by (simp add: recv_records(1) drop_active_apply)
  moreover have "b_batches b' = b_batches b" "b_stopped b' = b_stopped b" by (simp_all add: recv_records(1))
  ultimately show ?thesis using inv unfolding record_inv_def by (auto simp: le_diff_eq)
next
  case (drain_recv c cs)
  note f = settles_frame[OF failCalls_settles[of "[c]" "b\<lparr>b_input := cs\<rparr>"]]
  show ?thesis using inv f by (simp add: drain_recv(1) record_inv_def outstanding_def)
next
  case (finish xss xs x ys yss keys d x')
  show ?thesis unfolding finish(1) using inv finish(2,3) by (rule record_inv_finish)
next
  case (deliver us keys vs)
  show ?thesis
    by (rule record_inv_same[OF inv])
      (use inv deliver in \<open>simp_all add: outstanding_def record_inv_def\<close>)
next
  case (drop us keys vs)
  have "count_list (outstanding b') k \<le> count_list (outstanding b) k" for k
    using drop by (simp add: outstanding_def)
  moreover have "int (count_list (outstanding b) k) \<le> b_active b k" for k
    using inv by (simp add: record_inv_def)
  ultimately have "int (count_list (outstanding b') k) \<le> b_active b k" for k
    by (meson of_nat_mono order_trans)
  with inv drop show ?thesis by (simp add: record_inv_def)
next
  case (batch_done xss xs yss)
  have "held1 xs = []" using batch_done(3) by (simp add: held1_def)
  then show ?thesis
    by (intro record_inv_same[OF inv]) (use inv batch_done in \<open>auto simp: outstanding_def record_inv_def sorted_wrt_append\<close>)
qed (use inv in \<open>simp_all add: record_inv_def outstanding_def\<close>)

definition run_inv :: "'r batcher \<Rightarrow> bool" where
  "run_inv b \<longleftrightarrow>
     b_running b = int (length (b_batches b)) + int (b_completed b) \<and>
     0 \<le> bo_maxConcurrent (b_opts b) \<and>
     (bo_maxConcurrent (b_opts b) = 0 \<or>
      int (length (b_batches b)) + int (b_completed b) \<le> bo_maxConcurrent (b_opts b))"

definition stop_inv :: "'r batcher \<Rightarrow> bool" where
  "stop_inv b \<longleftrightarrow>
     (b_pc b \<in> {Draining, Waiting, Returned} \<longrightarrow> b_stopped b \<and> b_pending b = []) \<and>
     (b_pc b \<in> {Waiting, Returned} \<longrightarrow> b_sending b = [] \<and> b_input b = []) \<and>
     (b_pc b = Returned \<longrightarrow> b_batches b = [])"

lemma run_stop_work:
  assumes run: "run_work cerr aged b = b'" and "run_inv b"
  shows "run_inv b' \<and> stop_inv b'"
  using run
proof (cases rule: run_work_cases)
  case (idle b1 live dropped)
  then show ?thesis using settles_frame[OF idle(3)] assms(2) by (auto simp: run_inv_def stop_inv_def)
next
  case (started b1 live dropped selected remaining r xs)
  then show ?thesis using settles_frame[OF started(3)] assms(2) by (auto simp: run_inv_def stop_inv_def)
qed

lemma run_stop_step:
  assumes step: "batch_step b b'" and inv: "run_inv b" "stop_inv b" and q: "queue_inv b"
  shows "run_inv b' \<and> stop_inv b'"
  using step
proof cases
  case (submit c b1)
  then have "b1 = b\<lparr>b_queuedCalls := b_queuedCalls b + 1, b_queuedOperations := b_queuedOperations b + bc_operationCount c,
      b_queuedBytes := b_queuedBytes b + bc_encodedBytes c\<rparr> \<and> \<not> b_stopped b"
    by (auto simp: reserve_def split: if_splits)
  then show ?thesis using inv by (simp add: submit(1) run_inv_def stop_inv_def)
next
  case top_fail
  note f = settles_frame[OF failCalls_settles[of "b_pending b" b]]
  show ?thesis using inv f top_fail by (simp add: run_inv_def stop_inv_def)
next
  case (work cerr aged)
  show ?thesis using run_stop_work[OF work(1)[symmetric] inv(1)] .
next
  case (drain_recv c cs)
  note f = settles_frame[OF failCalls_settles[of "[c]" "b\<lparr>b_input := cs\<rparr>"]]
  show ?thesis using inv f drain_recv by (simp add: run_inv_def stop_inv_def)
next
  case drain_done
  then have "queued b = []" using q by (simp add: queue_inv_def)
  then show ?thesis using inv drain_done by (simp add: run_inv_def stop_inv_def queued_def)
next
  case (send c)
  then show ?thesis using inv by (auto simp: run_inv_def stop_inv_def)
next
  case (abandon c)
  then show ?thesis using inv by (auto simp: run_inv_def stop_inv_def)
next
  case (finish xss xs x ys yss keys d x')
  then show ?thesis using inv by (simp add: run_inv_def stop_inv_def)
next
  case (batch_done xss xs yss)
  then show ?thesis using inv by (simp add: run_inv_def stop_inv_def algebra_simps)
next
  case recv_completed
  then show ?thesis using inv by (simp add: run_inv_def stop_inv_def of_nat_diff) arith
next
  case wait_recv
  then show ?thesis using inv by (simp add: run_inv_def stop_inv_def of_nat_diff) arith
next
  case wait_done
  have "length (b_batches b) = 0" using wait_done(3) inv(1) unfolding run_inv_def by linarith
  then show ?thesis using wait_done inv by (simp add: run_inv_def stop_inv_def)
qed (use inv in \<open>simp_all add: run_inv_def stop_inv_def\<close>)

lemma batch_reach_inv:
  "batch_reach b \<Longrightarrow> queue_inv b \<and> ident_inv b \<and> record_inv b \<and> run_inv b \<and> stop_inv b"
proof (induction rule: batch_reach.induct)
  case (start unlimited o')
  show ?case
    by (simp add: newRequestBatcher_def newBatcherOptions_def queue_inv_def ident_inv_def record_inv_def run_inv_def stop_inv_def
        queued_def known_calls_def outstanding_def) arith
next
  case (step b b')
  have nn: "\<And>k. 0 \<le> b_active b k" using step.IH record_inv_nonneg by blast
  show ?case
    using step queue_step[OF step.hyps(2) _ _ nn] record_step[OF step.hyps(2)] run_stop_step[OF step.hyps(2)] by blast
qed

section \<open>A run of the batcher\<close>

text \<open>A caller submits and sends a call, and the runner then makes an iteration that may not wait.\<close>

definition demo_queue :: "'r batchCall \<Rightarrow> 'r batcher \<Rightarrow> 'r batcher" where
  "demo_queue c b =
     (let b1 = (projr (reserve (bc_operationCount c) (bc_encodedBytes c) b))\<lparr>b_next := b_next b + 1, b_sending := b_sending b @ [c]\<rparr>
      in b1\<lparr>b_sending := remove1 c (b_sending b1), b_input := b_input b1 @ [c]\<rparr>)"

definition demo_round :: "'r batchCall \<Rightarrow> 'r batcher \<Rightarrow> 'r batcher" where
  "demo_round c b = run_work (\<lambda>_. None) True ((demo_queue c b)\<lparr>b_pc := Work\<rparr>)"

definition can_queue :: "'r batchCall \<Rightarrow> 'r batcher \<Rightarrow> bool" where
  "can_queue c b \<longleftrightarrow> \<not> isl (reserve (bc_operationCount c) (bc_encodedBytes c) b) \<and> bc_id c = b_next b \<and>
     0 \<le> bc_operationCount c \<and> 0 \<le> bc_encodedBytes c \<and>
     int (length (b_input b)) < bo_maxQueuedOperations (b_opts b)"

lemma reach_queue:
  assumes "batch_reach b" "can_queue c b"
  shows "batch_reach (demo_queue c b)"
proof -
  let ?b = "projr (reserve (bc_operationCount c) (bc_encodedBytes c) b)"
  let ?b1 = "?b\<lparr>b_next := b_next b + 1, b_sending := b_sending b @ [c]\<rparr>"
  have r: "reserve (bc_operationCount c) (bc_encodedBytes c) b = Inr ?b"
    using assms(2) by (cases "reserve (bc_operationCount c) (bc_encodedBytes c) b") (simp_all add: can_queue_def)
  have "batch_reach ?b1"
    using batch_reach.step[OF assms(1) submit[OF r]] assms(2) by (simp add: can_queue_def)
  moreover have "b_input ?b = b_input b" "b_opts ?b = b_opts b"
    using r by (auto simp: reserve_def split: if_splits)
  ultimately show ?thesis
    using batch_reach.step[OF _ send[of c ?b1]] assms(2) by (simp add: demo_queue_def Let_def can_queue_def)
qed

lemma demo_queue_pc: "can_queue c b \<Longrightarrow> b_pc (demo_queue c b) = b_pc b \<and> \<not> b_stopped (demo_queue c b)"
  by (auto simp: can_queue_def demo_queue_def Let_def reserve_def split: if_splits)

lemma reach_round:
  assumes "batch_reach b" "can_queue c b \<and> b_pc b = Top"
  shows "batch_reach (demo_round c b)"
proof -
  have "batch_reach ((demo_queue c b)\<lparr>b_pc := Work\<rparr>)"
    using batch_reach.step[OF reach_queue top_work] assms demo_queue_pc by metis
  then show ?thesis
    using batch_reach.step[OF _ work[of "(demo_queue c b)\<lparr>b_pc := Work\<rparr>"]] by (simp add: demo_round_def)
qed

definition demo_call :: "nat \<Rightarrow> recordIdentity list \<Rightarrow> unit batchCall" where
  "demo_call n keys =
     \<lparr>bc_id = n, bc_request = (), bc_operationCount = int (length keys), bc_encodedBytes = 10, bc_records = keys,
      bc_partition = \<lparr>bp_resource = ''r'', bp_mode = WAIT_UNTIL_APPLIED, bp_isolated = False\<rparr>\<rparr>"

definition demo_batch_opts :: batcher_options where
  "demo_batch_opts = \<lparr>bo_maxConcurrent = 2, bo_maxOperations = 4, bo_maxBytes = 100,
     bo_maxQueuedOperations = 8, bo_maxQueuedBytes = 200\<rparr>"

text \<open>Two batches execute, on the records \<open>a\<close> and \<open>b\<close>.\<close>

definition demo_batcher :: "unit batcher" where
  "demo_batcher = demo_round (demo_call 1 [''b'']) (demo_round (demo_call 0 [''a'', ''a'']) (newRequestBatcher False demo_batch_opts))"

lemma demo_batcher_reach: "batch_reach demo_batcher"
  unfolding demo_batcher_def by (intro reach_round batch_reach.start) code_simp+

lemma demo_batcher_batches:
  "map (map x_pending) (b_batches demo_batcher) = [[[''a'']], [[''b'']]]" "b_running demo_batcher = 2"
  by code_simp+

section \<open>Properties\<close>

text \<open>
  C7: two batches never work on the same record at the same time. In every reachable state the
  records that the calls of one executing batch have yet to finish are disjoint from those of
  any other executing batch, and each of them is marked active, so no further batch can take it.
\<close>

theorem batches_exclusive:
  assumes "batch_reach b" "i < j" "j < length (b_batches b)" "x \<in> set (b_batches b ! i)" "y \<in> set (b_batches b ! j)"
  shows "set (x_pending x) \<inter> set (x_pending y) = {} \<and>
    (\<forall>k \<in> set (x_pending x) \<union> set (x_pending y). b_active b k > 0)"
proof -
  have inv: "record_inv b" using batch_reach_inv[OF assms(1)] by blast
  have sub: "set (x_pending z) \<subseteq> set (held1 (b_batches b ! n))" if "z \<in> set (b_batches b ! n)" for z n
    using that by (auto simp: held1_def)
  have "apart (b_batches b ! i) (b_batches b ! j)"
    using inv assms(2,3) by (simp add: record_inv_def sorted_wrt_iff_nth_less)
  then have dis: "set (x_pending x) \<inter> set (x_pending y) = {}"
    using sub[OF assms(4)] sub[OF assms(5)] unfolding apart_def by blast
  have "0 < b_active b k" if "k \<in> set (x_pending z)" "z \<in> set (b_batches b ! n)" "n < length (b_batches b)" for k z n
  proof -
    have "k \<in> set (held (b_batches b))" using that nth_mem[OF that(3)] by (force simp: held_def held1_def)
    then have "0 < count_list (outstanding b) k" by (simp add: outstanding_def count_list_0_iff flip: neq0_conv)
    then show ?thesis using inv unfolding record_inv_def by (metis of_nat_0_less_iff order_less_le_trans)
  qed
  then show ?thesis using dis assms by (meson UnE less_trans)
qed

theorem batches_exclusive_witness:
  "b_active demo_batcher ''a'' > 0 \<and> b_active demo_batcher ''b'' > 0 \<and> length (b_batches demo_batcher) = 2"
proof -
  have len: "length (b_batches demo_batcher) = 2" by code_simp
  have x: "\<lparr>x_call = demo_call 0 [''a'', ''a''], x_pending = [''a'']\<rparr> \<in> set (b_batches demo_batcher ! 0)" by code_simp
  have y: "\<lparr>x_call = demo_call 1 [''b''], x_pending = [''b'']\<rparr> \<in> set (b_batches demo_batcher ! 1)" by code_simp
  show ?thesis
    using batches_exclusive[OF demo_batcher_reach _ _ x y] len by simp
qed

text \<open>
  C8: what a selected batch is. The batch and the rest of the queue are the pending calls in
  their order; no selected call touches an active record; a call that is passed over blocks every
  later call that shares a record with it, so calls on a record start in queue order; a batch of
  several calls is within both size limits and within one partition that is not isolated. A single
  call is selected whatever its size: one request may be larger than a batch.
\<close>

theorem selectReady_sound:
  assumes "selectReady o' pending active = (selected, remaining, r)" "distinct pending" "\<And>k. 0 \<le> active k"
  shows "selected = filter (\<lambda>c. c \<in> set selected) pending \<and> remaining = filter (\<lambda>c. c \<notin> set selected) pending \<and>
    (\<forall>c \<in> set selected. \<forall>k \<in> set (bc_records c). active k = 0) \<and>
    (\<forall>i j. i < j \<and> j < length pending \<and> pending ! j \<in> set selected \<and>
       set (bc_records (pending ! i)) \<inter> set (bc_records (pending ! j)) \<noteq> {} \<longrightarrow> pending ! i \<in> set selected) \<and>
    (1 < length selected \<longrightarrow>
       sum_list (map bc_operationCount selected) \<le> bo_maxOperations o' \<and>
       sum_list (map bc_encodedBytes selected) \<le> bo_maxBytes o' \<and>
       (\<forall>c \<in> set selected. \<not> bp_isolated (bc_partition c) \<and> bc_partition c = bc_partition (hd selected)))"
proof -
  note spec = selectReady_spec[OF assms]
  have "pending ! i \<in> set selected" if "i < j" "j < length pending" "pending ! j \<in> set selected"
    "set (bc_records (pending ! i)) \<inter> set (bc_records (pending ! j)) \<noteq> {}" for i j
    using spec(4) that unfolding sel_order_def by blast
  then show ?thesis using spec(1,2,3,5) by blast
qed

text \<open>Record \<open>a\<close> is active: the first call waits, the second passes it, the third shares its record \<open>b\<close>.\<close>

theorem selectReady_sound_witness:
  "selectReady demo_batch_opts [demo_call 0 [''a'', ''b''], demo_call 1 [''c''], demo_call 2 [''b'']] (\<lambda>k. if k = ''a'' then 1 else 0)
     = ([demo_call 1 [''c'']], [demo_call 0 [''a'', ''b''], demo_call 2 [''b'']], MaxWait) \<and>
   [demo_call 0 [''a'', ''b''], demo_call 2 [''b'']] =
     filter (\<lambda>c. c \<notin> set [demo_call 1 [''c'']]) [demo_call 0 [''a'', ''b''], demo_call 1 [''c''], demo_call 2 [''b'']]"
proof -
  let ?p = "[demo_call 0 [''a'', ''b''], demo_call 1 [''c''], demo_call 2 [''b'']]"
  let ?a = "\<lambda>k. if k = ''a'' then 1 else 0 :: int"
  have run: "selectReady demo_batch_opts ?p ?a =
      ([demo_call 1 [''c'']], [demo_call 0 [''a'', ''b''], demo_call 2 [''b'']], MaxWait)"
    by code_simp
  have d: "distinct ?p" by (simp add: demo_call_def)
  have nn: "\<And>k. 0 \<le> ?a k" by simp
  show ?thesis using run selectReady_sound[OF run d nn] by blast
qed

text \<open>
  C9: the runner never leaves the oldest live call behind an idle slot. If no executing call and
  no notice on its way holds a record of the first live pending call, and a slot is free, then an
  iteration that may not wait any longer starts a batch with that call first.
\<close>

theorem run_work_progress:
  assumes "batch_reach b" "\<not> b_stopped b"
    and "filter (\<lambda>c. cerr c = None) (b_pending b @ b_input b) = c # cs"
    and "\<forall>k \<in> set (bc_records c). k \<notin> set (outstanding b)"
    and "bo_maxConcurrent (b_opts b) = 0 \<or> b_running b < bo_maxConcurrent (b_opts b)"
  shows "\<exists>xs. b_batches (run_work cerr True b) = b_batches b @ [xs] \<and> xs \<noteq> [] \<and> x_call (hd xs) = c"
proof -
  have free: "b_active b k = 0" if "k \<in> set (bc_records c)" for k
    using batch_reach_inv[OF assms(1)] assms(2,4) that by (simp add: record_inv_def)
  obtain live b1 where sw: "sweep cerr (b_pending b @ b_input b) (b\<lparr>b_input := []\<rparr>) = (live, b1)" by fastforce
  then have live: "live = c # cs" and f: "settles (filter (\<lambda>c. cerr c \<noteq> None) (b_pending b @ b_input b)) (b\<lparr>b_input := []\<rparr>) b1"
    using sweep_settles assms(3) by fastforce+
  obtain sel rest r where sel: "selectReady (b_opts b) live (b_active b) = (sel, rest, r)"
    by (cases "selectReady (b_opts b) live (b_active b)") auto
  then obtain ys where ys: "sel = c # ys" using selectReady_head[OF sel[unfolded live]] free by blast
  obtain xs b2 where st: "start_calls sel b1 = (xs, b2)" by fastforce
  have "b_batches (run_work cerr True b) = b_batches b @ [xs]"
    using sw sel ys st assms(5) settles_frame[OF f] start_calls_spec[OF st] by (simp add: run_work_def Let_def)
  then show ?thesis using start_calls_spec[OF st] ys by simp
qed

theorem run_work_progress_witness:
  "\<exists>xs. b_batches (run_work (\<lambda>_. None) True (demo_queue (demo_call 0 [''a'']) (newRequestBatcher False demo_batch_opts))) = [xs] \<and>
     xs \<noteq> [] \<and> x_call (hd xs) = demo_call 0 [''a'']"
proof -
  let ?b = "demo_queue (demo_call 0 [''a'']) (newRequestBatcher False demo_batch_opts)"
  have r: "batch_reach ?b" by (intro reach_queue batch_reach.start) code_simp
  have "\<not> b_stopped ?b" "filter (\<lambda>c. None = (None :: ctx_err option)) (b_pending ?b @ b_input ?b) = [demo_call 0 [''a'']]"
    "\<forall>k \<in> set (bc_records (demo_call 0 [''a''])). k \<notin> set (outstanding ?b)"
    "bo_maxConcurrent (b_opts ?b) = 0 \<or> b_running ?b < bo_maxConcurrent (b_opts ?b)" "b_batches ?b = []"
    by code_simp+
  then show ?thesis using run_work_progress[OF r, of "\<lambda>_. None" "demo_call 0 [''a'']" "[]"] by simp
qed

text \<open>
  C10: the queue's books and the concurrency limit. The three counters of \<open>requestBatcher\<close> are the
  totals of the calls between \<open>reserve\<close> and their selection, within the configured bounds, and
  \<open>running\<close> counts the batches that execute or await their completion, within the limit.
\<close>

theorem batcher_accounts:
  assumes "batch_reach b"
  shows "b_queuedCalls b = int (length (queued b)) \<and>
    b_queuedOperations b = sum_list (map bc_operationCount (queued b)) \<and>
    b_queuedBytes b = sum_list (map bc_encodedBytes (queued b)) \<and>
    b_queuedOperations b \<le> max 0 (bo_maxQueuedOperations (b_opts b)) \<and>
    b_queuedBytes b \<le> max 0 (bo_maxQueuedBytes (b_opts b)) \<and>
    b_running b = int (length (b_batches b)) + int (b_completed b) \<and>
    (bo_maxConcurrent (b_opts b) > 0 \<longrightarrow>
       int (length (b_batches b)) \<le> bo_maxConcurrent (b_opts b) \<and> b_running b \<le> bo_maxConcurrent (b_opts b))"
  using batch_reach_inv[OF assms] by (auto simp: queue_inv_def run_inv_def)

theorem batcher_accounts_witness:
  "b_running demo_batcher = 2 \<and> int (length (b_batches demo_batcher)) \<le> 2 \<and> b_queuedCalls demo_batcher = int (length (queued demo_batcher))"
proof -
  have "bo_maxConcurrent (b_opts demo_batcher) = 2" by code_simp
  then show ?thesis using batcher_accounts[OF demo_batcher_reach] demo_batcher_batches(2) by simp
qed

text \<open>
  C11: a shutdown forgets nobody. When the runner has returned, no call is between \<open>reserve\<close> and a
  result, no batch executes, and nothing can be reserved any more.
\<close>

theorem batcher_shutdown:
  assumes "batch_reach b" "b_pc b = Returned"
  shows "queued b = [] \<and> b_batches b = [] \<and> b_queuedCalls b = 0 \<and>
    (\<forall>n m. reserve n m b = Inl shutting_down)"
  using batch_reach_inv[OF assms(1)] assms(2)
  by (auto simp: stop_inv_def queue_inv_def queued_def reserve_def)

text \<open>A shutdown with a call still in the input channel.\<close>

definition demo_stopping :: "unit batcher" where
  "demo_stopping =
     (let b = (demo_queue (demo_call 0 [''a'']) (newRequestBatcher False demo_batch_opts))\<lparr>b_stopped := True\<rparr>
      in (failCalls (b_pending b) b)\<lparr>b_pending := [], b_pc := Draining\<rparr>)"

definition demo_returned :: "unit batcher" where
  "demo_returned = (failCalls [demo_call 0 [''a'']] (demo_stopping\<lparr>b_input := []\<rparr>))\<lparr>b_pc := Returned\<rparr>"

lemma demo_returned_reach: "batch_reach demo_returned"
proof -
  let ?b = "(demo_queue (demo_call 0 [''a'']) (newRequestBatcher False demo_batch_opts))"
  let ?d = "failCalls [demo_call 0 [''a'']] (demo_stopping\<lparr>b_input := []\<rparr>)"
  have "batch_reach ?b" by (intro reach_queue batch_reach.start) code_simp
  then have "batch_reach (?b\<lparr>b_stopped := True\<rparr>)" using stop batch_reach.step by blast
  moreover have "b_pc (?b\<lparr>b_stopped := True\<rparr>) = Top" "b_stopped (?b\<lparr>b_stopped := True\<rparr>)" by code_simp+
  ultimately have "batch_reach demo_stopping"
    unfolding demo_stopping_def Let_def using batch_reach.step top_fail by blast
  moreover have "b_pc demo_stopping = Draining" "b_queuedCalls demo_stopping > 0" "b_input demo_stopping = [demo_call 0 [''a'']]"
    by code_simp+
  ultimately have "batch_reach ?d" using batch_reach.step drain_recv by blast
  moreover have "b_pc ?d = Draining" "b_queuedCalls ?d \<le> 0" by code_simp+
  ultimately have "batch_reach (?d\<lparr>b_pc := Waiting\<rparr>)" using batch_reach.step drain_done by blast
  moreover have "b_pc (?d\<lparr>b_pc := Waiting\<rparr>) = Waiting" "b_running (?d\<lparr>b_pc := Waiting\<rparr>) \<le> 0" by code_simp+
  ultimately have "batch_reach ((?d\<lparr>b_pc := Waiting\<rparr>)\<lparr>b_pc := Returned\<rparr>)" using batch_reach.step wait_done by blast
  then show ?thesis by (simp add: demo_returned_def)
qed

theorem batcher_shutdown_witness:
  "queued demo_returned = [] \<and> map fst (b_answered demo_returned) = [0]"
proof -
  have "b_pc demo_returned = Returned" "map fst (b_answered demo_returned) = [0]" by code_simp+
  then show ?thesis using batcher_shutdown[OF demo_returned_reach] by simp
qed

end
