(* ===== verification/Sha256.thy ===== *)
theory Sha256
  imports Prelude
begin

text \<open>
  \<open>crypto/sha256.Sum256\<close> of Go's standard library, which the sources use to name Lua programs
  (FIPS 180-4): padding, message schedule and compression over 32-bit words.
\<close>

unbundle bit_operations_syntax

text \<open>
  The constants are the first 32 fractional bits of roots of the first primes: cube roots of 64
  primes for the rounds, square roots of eight for the initial state. \<open>root_bits k n b r\<close> extends \<open>r\<close>
  below bit \<open>b\<close> to the integer \<open>k\<close>-th root of \<open>n\<close>.
\<close>

fun root_bits :: "nat \<Rightarrow> nat \<Rightarrow> nat \<Rightarrow> nat \<Rightarrow> nat" where
  "root_bits k n 0 r = r"
| "root_bits k n (Suc b) r = root_bits k n b (if (r + 2 ^ b) ^ k \<le> n then r + 2 ^ b else r)"

definition fraction_bits :: "nat \<Rightarrow> nat \<Rightarrow> 32 word" where
  "fraction_bits k p = of_nat (root_bits k (p * 2 ^ (32 * k)) 37 0)"

definition first_primes :: "nat list" where
  "first_primes =
     [2, 3, 5, 7, 11, 13, 17, 19, 23, 29, 31, 37, 41, 43, 47, 53,
      59, 61, 67, 71, 73, 79, 83, 89, 97, 101, 103, 107, 109, 113, 127, 131,
      137, 139, 149, 151, 157, 163, 167, 173, 179, 181, 191, 193, 197, 199, 211, 223,
      227, 229, 233, 239, 241, 251, 257, 263, 269, 271, 277, 281, 283, 293, 307, 311]"

definition sha_K :: "32 word list" where
  "sha_K = map (fraction_bits 3) first_primes"

definition sha_H0 :: "32 word list" where
  "sha_H0 = map (fraction_bits 2) (take 8 first_primes)"

definition sha_pad :: "bytes \<Rightarrow> bytes" where
  "sha_pad m =
     (let n = length m;
          zeros = (119 - n mod 64) mod 64;
          bits = (of_nat (8 * n) :: 64 word)
      in m @ [0x80] @ replicate zeros 0 @ map (\<lambda>i. ucast (drop_bit (56 - 8 * i) bits)) [0..<8])"

fun sha_words :: "bytes \<Rightarrow> 32 word list" where
  "sha_words (a # b # c # d # rest) =
     (push_bit 24 (ucast a) OR push_bit 16 (ucast b) OR push_bit 8 (ucast c) OR ucast d) # sha_words rest"
| "sha_words _ = []"

definition sha_sigma0 :: "32 word \<Rightarrow> 32 word" where
  "sha_sigma0 x = word_rotr 7 x XOR word_rotr 18 x XOR drop_bit 3 x"

definition sha_sigma1 :: "32 word \<Rightarrow> 32 word" where
  "sha_sigma1 x = word_rotr 17 x XOR word_rotr 19 x XOR drop_bit 10 x"

text \<open>The schedule grows at its end by words 2, 7, 15 and 16 places back.\<close>

definition sha_extend :: "32 word list \<Rightarrow> 32 word list" where
  "sha_extend w =
     (let n = length w in
      w @ [sha_sigma1 (w ! (n - 2)) + w ! (n - 7) + sha_sigma0 (w ! (n - 15)) + w ! (n - 16)])"

definition sha_schedule :: "32 word list \<Rightarrow> 32 word list" where
  "sha_schedule block = (sha_extend ^^ 48) block"

fun sha_round :: "32 word \<times> 32 word \<Rightarrow> 32 word list \<Rightarrow> 32 word list" where
  "sha_round (k, w) [a, b, c, d, e, f, g, h] =
     (let s1 = word_rotr 6 e XOR word_rotr 11 e XOR word_rotr 25 e;
          ch = (e AND f) XOR (NOT e AND g);
          t1 = h + s1 + ch + k + w;
          s0 = word_rotr 2 a XOR word_rotr 13 a XOR word_rotr 22 a;
          maj = (a AND b) XOR (a AND c) XOR (b AND c)
      in [t1 + (s0 + maj), a, b, c, d + t1, e, f, g])"
| "sha_round _ st = st"

definition sha_block :: "32 word list \<Rightarrow> 32 word list \<Rightarrow> 32 word list" where
  "sha_block block st = map2 (+) st (fold sha_round (zip sha_K (sha_schedule block)) st)"

fun sha_blocks :: "nat \<Rightarrow> 32 word list \<Rightarrow> 32 word list \<Rightarrow> 32 word list" where
  "sha_blocks 0 ws st = st"
| "sha_blocks (Suc n) ws st = sha_blocks n (drop 16 ws) (sha_block (take 16 ws) st)"

definition word_bytes :: "32 word \<Rightarrow> bytes" where
  "word_bytes w = [ucast (drop_bit 24 w), ucast (drop_bit 16 w), ucast (drop_bit 8 w), ucast w]"

definition Sum256 :: "bytes \<Rightarrow> bytes" where
  "Sum256 m =
     (let ws = sha_words (sha_pad m) in concat (map word_bytes (sha_blocks (length ws div 16) ws sha_H0)))"

lemma first_primes_length: "length first_primes = 64"
  by (simp add: first_primes_def)

lemma sha_round_length: "length st = 8 \<Longrightarrow> length (sha_round kw st) = 8"
  by (cases "(kw, st)" rule: sha_round.cases) (auto simp: Let_def)

lemma sha_fold_length: "length st = 8 \<Longrightarrow> length (fold sha_round kws st) = 8"
  by (induction kws arbitrary: st) (simp_all add: sha_round_length)

lemma sha_blocks_length: "length st = 8 \<Longrightarrow> length (sha_blocks n ws st) = 8"
  by (induction n ws st rule: sha_blocks.induct) (simp_all add: sha_block_def sha_fold_length)

lemma Sum256_length [simp]: "length (Sum256 m) = 32"
proof -
  have "length (sha_blocks n ws sha_H0) = 8" for n ws
    by (rule sha_blocks_length) (simp add: sha_H0_def first_primes_length)
  then show ?thesis
    by (simp add: Sum256_def Let_def length_concat o_def word_bytes_def sum_list_triv)
qed

end
