(* ===== verification/Protocol.thy ===== *)
theory Protocol
  imports Sink_API Sha256
begin

text \<open>
  Routing checks shared by the gateway and the stores, \<open>src/internal/protocol/routing.go\<close>. The URI
  library \<open>github.com/liran/sink-go/uri\<close> is a parameter: \<open>uri\<close> parses a URI, an address is what the
  sources read of its result (store, path segments, canonical string, routing key).
\<close>

record Address =
  ad_store :: string
  ad_segments :: "string list"
  ad_string :: string
  ad_routingKey :: string

type_synonym uri_parser = "string \<Rightarrow> string + Address"

record Command =
  cmd_uri :: string
  cmd_method :: string
  cmd_path :: string
  cmd_query :: string
  cmd_headers :: "(string \<times> string list) list"
  cmd_contentType :: string
  cmd_payload :: bytes

datatype rpc_request =
    RpcRead "ReadOperation list"
  | RpcWrite WriteRequest
  | RpcDelete DeleteRequest
  | RpcExecute "Command option"
  | RpcQuery "Command option"
  | RpcCount "Command option"
  | RpcScan "Command option"
  | RpcOther

definition getUri :: "RecordAddress option \<Rightarrow> string" where
  "getUri a = (case a of None \<Rightarrow> [] | Some r \<Rightarrow> a_uri r)"

definition ParseAddress :: "uri_parser \<Rightarrow> RecordAddress option \<Rightarrow> string + Address" where
  "ParseAddress uri a =
     (case uri (getUri a) of
        Inl e \<Rightarrow> Inl e
      | Inr parsed \<Rightarrow>
          if ad_segments parsed = [] then Inl ''record URI requires a resource path'' else Inr parsed)"

definition RecordStore :: "uri_parser \<Rightarrow> RecordAddress option \<Rightarrow> string" where
  "RecordStore uri a = (case ParseAddress uri a of Inl _ \<Rightarrow> [] | Inr parsed \<Rightarrow> ad_store parsed)"

definition CommandStore :: "uri_parser \<Rightarrow> Command option \<Rightarrow> string" where
  "CommandStore uri c =
     (case uri (case c of None \<Rightarrow> [] | Some cmd \<Rightarrow> cmd_uri cmd) of Inl _ \<Rightarrow> [] | Inr parsed \<Rightarrow> ad_store parsed)"

fun request_stores :: "uri_parser \<Rightarrow> rpc_request \<Rightarrow> string list" where
  "request_stores uri (RpcRead ops) = map (\<lambda>op. RecordStore uri (ro_address op)) ops"
| "request_stores uri (RpcWrite req) = map (\<lambda>op. RecordStore uri (wo_address op)) (wr_operations req)"
| "request_stores uri (RpcDelete req) = map (\<lambda>op. RecordStore uri (do_address op)) (dr_operations req)"
| "request_stores uri (RpcExecute c) = [CommandStore uri c]"
| "request_stores uri (RpcQuery c) = [CommandStore uri c]"
| "request_stores uri (RpcCount c) = [CommandStore uri c]"
| "request_stores uri (RpcScan c) = [CommandStore uri c]"
| "request_stores uri RpcOther = []"

definition CheckStore :: "uri_parser \<Rightarrow> rpc_request \<Rightarrow> string \<Rightarrow> status option" where
  "CheckStore uri req store =
     (if store = [] then Some (status_error FailedPrecondition ''process Store is not configured'')
      else if \<exists>actual \<in> set (request_stores uri req). actual \<noteq> store
           then Some (status_error InvalidArgument ''request does not belong to the configured Store'')
           else None)"

text \<open>An accepted request names no other store, and every address in it parses.\<close>

lemma RecordStore_parsed: "RecordStore uri a \<noteq> [] \<Longrightarrow> \<exists>p. ParseAddress uri a = Inr p \<and> ad_store p = RecordStore uri a"
  by (auto simp: RecordStore_def split: sum.splits)

lemma CheckStore_addresses:
  assumes "CheckStore uri req store = None"
  shows "\<forall>s \<in> set (request_stores uri req). s = store" "store \<noteq> []"
  using assms by (auto simp: CheckStore_def split: if_splits)

section \<open>Lua declarations\<close>

datatype declaration_error = SourceRequired nat | DigestMismatch nat | DuplicateDigest nat

text \<open>The loop of \<open>ValidateLuaDeclarations\<close>; \<open>seen\<close> maps a digest to the source it was declared with.\<close>

fun declarations_loop ::
    "nat \<Rightarrow> (bytes \<rightharpoonup> bytes) \<Rightarrow> LuaProgram option list \<Rightarrow> declaration_error option" where
  "declarations_loop index seen [] = None"
| "declarations_loop index seen (program # programs) =
     (case program of
        None \<Rightarrow> Some (SourceRequired index)
      | Some prog \<Rightarrow>
          if lua_source prog = [] then Some (SourceRequired index)
          else
            let digest = Sum256 (lua_source prog) in
            if lua_sha256 prog \<noteq> [] \<and> lua_sha256 prog \<noteq> digest then Some (DigestMismatch index)
            else if seen digest \<noteq> None \<and> seen digest \<noteq> Some (lua_source prog)
                 then Some (DuplicateDigest index)
                 else declarations_loop (Suc index) (seen(digest \<mapsto> lua_source prog)) programs)"

definition ValidateLuaDeclarations :: "LuaProgram option list \<Rightarrow> declaration_error option" where
  "ValidateLuaDeclarations programs = declarations_loop 0 Map.empty programs"

end
