(* ===== verification/Mutation_Batches.thy ===== *)
theory Mutation_Batches
  imports Batcher Protocol
begin

text \<open>
  Partitions and waves of mutation batches, \<open>src/internal/service/mutation_batches.go\<close>. The
  methods \<open>GetOperations\<close> (through the addresses of the operations) and \<open>GetCompletionMode\<close> of a
  request type are arguments; \<open>BatchKey\<close> of the storage backend is a parameter.
\<close>

section \<open>Records and partition of a request\<close>

fun mutationRequestRecords :: "uri_parser \<Rightarrow> RecordAddress option list \<Rightarrow> recordIdentity list" where
  "mutationRequestRecords uri [] = []"
| "mutationRequestRecords uri (a # as) =
     (case ParseAddress uri a of
        Inl _ \<Rightarrow> mutationRequestRecords uri as
      | Inr address \<Rightarrow> ad_string address # mutationRequestRecords uri as)"

text \<open>The loop of \<open>mutationRequestPartition\<close>, which breaks at the first isolating operation.\<close>

fun partition_loop ::
    "uri_parser \<Rightarrow> (Address \<Rightarrow> string + string) \<Rightarrow> nat \<Rightarrow> RecordAddress option list \<Rightarrow> batchPartition \<Rightarrow> batchPartition" where
  "partition_loop uri batchKey index [] p = p"
| "partition_loop uri batchKey index (a # as) p =
     (case ParseAddress uri a of
        Inl _ \<Rightarrow> p\<lparr>bp_isolated := True\<rparr>
      | Inr address \<Rightarrow>
          (case batchKey address of
             Inl _ \<Rightarrow> p\<lparr>bp_isolated := True\<rparr>
           | Inr resource \<Rightarrow>
               if index = 0 then partition_loop uri batchKey (Suc index) as (p\<lparr>bp_resource := resource\<rparr>)
               else if bp_resource p \<noteq> resource then p\<lparr>bp_isolated := True\<rparr>
               else partition_loop uri batchKey (Suc index) as p))"

definition mutationRequestPartition ::
    "uri_parser \<Rightarrow> (Address \<Rightarrow> string + string) \<Rightarrow> CompletionMode \<Rightarrow> RecordAddress option list \<Rightarrow> batchPartition" where
  "mutationRequestPartition uri batchKey mode addresses =
     partition_loop uri batchKey 0 addresses \<lparr>bp_resource = [], bp_mode = mode, bp_isolated = False\<rparr>"

section \<open>Waves\<close>

record 'r mutationWave =
  mw_applied :: "'r batchCall list"
  mw_visible :: "'r batchCall list"

record mutationPosition =
  mp_wave :: nat
  mp_mode :: CompletionMode

text \<open>The wave the keys of a call require (the inner loop over the operations).\<close>

fun required_wave :: "(recordIdentity \<rightharpoonup> mutationPosition) \<Rightarrow> CompletionMode \<Rightarrow> recordIdentity list \<Rightarrow> nat \<Rightarrow> nat" where
  "required_wave lastp mode [] wave = wave"
| "required_wave lastp mode (key # keys) wave =
     required_wave lastp mode keys
       (case lastp key of
          None \<Rightarrow> wave
        | Some previous \<Rightarrow> max wave (if mp_mode previous \<noteq> mode then mp_wave previous + 1 else mp_wave previous))"

definition empty_wave :: "'r mutationWave" where
  "empty_wave = \<lparr>mw_applied = [], mw_visible = []\<rparr>"

definition extend_waves :: "nat \<Rightarrow> 'r mutationWave list \<Rightarrow> 'r mutationWave list" where
  "extend_waves wave waves = waves @ replicate (Suc wave - length waves) empty_wave"

definition add_to_wave :: "CompletionMode \<Rightarrow> 'r batchCall \<Rightarrow> 'r mutationWave \<Rightarrow> 'r mutationWave" where
  "add_to_wave mode call w =
     (if mode = WAIT_UNTIL_VISIBLE then w\<lparr>mw_visible := mw_visible w @ [call]\<rparr>
      else w\<lparr>mw_applied := mw_applied w @ [call]\<rparr>)"

definition set_last ::
    "mutationPosition \<Rightarrow> recordIdentity list \<Rightarrow> (recordIdentity \<rightharpoonup> mutationPosition) \<Rightarrow> (recordIdentity \<rightharpoonup> mutationPosition)" where
  "set_last position keys lastp = fold (\<lambda>key m. m(key \<mapsto> position)) keys lastp"

fun plan_loop ::
    "uri_parser \<Rightarrow> ('r \<Rightarrow> CompletionMode) \<Rightarrow> ('r \<Rightarrow> RecordAddress option list) \<Rightarrow>
     'r batchCall list \<Rightarrow> 'r mutationWave list \<Rightarrow> (recordIdentity \<rightharpoonup> mutationPosition) \<Rightarrow> 'r mutationWave list" where
  "plan_loop uri getMode getAddresses [] waves lastp = waves"
| "plan_loop uri getMode getAddresses (call # calls) waves lastp =
     (let mode = getMode (bc_request call);
          keys = mutationRequestRecords uri (getAddresses (bc_request call));
          wave = required_wave lastp mode keys 0;
          waves1 = extend_waves wave waves;
          waves2 = waves1[wave := add_to_wave mode call (waves1 ! wave)]
      in plan_loop uri getMode getAddresses calls waves2 (set_last \<lparr>mp_wave = wave, mp_mode = mode\<rparr> keys lastp))"

definition planMutationWaves ::
    "uri_parser \<Rightarrow> ('r \<Rightarrow> CompletionMode) \<Rightarrow> ('r \<Rightarrow> RecordAddress option list) \<Rightarrow>
     'r batchCall list \<Rightarrow> 'r mutationWave list" where
  "planMutationWaves uri getMode getAddresses calls =
     plan_loop uri getMode getAddresses calls [] Map.empty"

section \<open>Waves respect the order of calls on a record\<close>

text \<open>The wave number \<open>plan_loop\<close> gives each call.\<close>

fun wave_numbers ::
    "uri_parser \<Rightarrow> ('r \<Rightarrow> CompletionMode) \<Rightarrow> ('r \<Rightarrow> RecordAddress option list) \<Rightarrow>
     'r batchCall list \<Rightarrow> (recordIdentity \<rightharpoonup> mutationPosition) \<Rightarrow> nat list" where
  "wave_numbers uri getMode getAddresses [] lastp = []"
| "wave_numbers uri getMode getAddresses (call # calls) lastp =
     (let mode = getMode (bc_request call);
          keys = mutationRequestRecords uri (getAddresses (bc_request call));
          wave = required_wave lastp mode keys 0
      in wave # wave_numbers uri getMode getAddresses calls (set_last \<lparr>mp_wave = wave, mp_mode = mode\<rparr> keys lastp))"

text \<open>The calls of a wave with a given visibility, in call order.\<close>

definition group_of ::
    "('r \<Rightarrow> CompletionMode) \<Rightarrow> 'r batchCall list \<Rightarrow> nat list \<Rightarrow> nat \<Rightarrow> bool \<Rightarrow> 'r batchCall list" where
  "group_of getMode calls ns w visible =
     map fst (filter (\<lambda>(c, n). n = w \<and> (getMode (bc_request c) = WAIT_UNTIL_VISIBLE) = visible) (zip calls ns))"

lemma required_wave_ge: "wave \<le> required_wave lastp mode keys wave"
  by (induction keys arbitrary: wave) (auto split: option.splits intro: order_trans[OF _ max.cobounded1] order_trans)

lemma required_wave_key:
  assumes "key \<in> set keys" "lastp key = Some pos"
  shows "(if mp_mode pos \<noteq> mode then mp_wave pos + 1 else mp_wave pos) \<le> required_wave lastp mode keys wave"
  using assms
proof (induction keys arbitrary: wave)
  case (Cons k ks)
  let ?n = "if mp_mode pos \<noteq> mode then mp_wave pos + 1 else mp_wave pos"
  show ?case
  proof (cases "k = key")
    case True
    have "?n \<le> max wave ?n" by simp
    also have "\<dots> \<le> required_wave lastp mode ks (max wave ?n)" by (rule required_wave_ge)
    finally show ?thesis using True Cons.prems by simp
  next
    case False
    then show ?thesis using Cons by simp
  qed
qed simp

lemma set_last_apply: "set_last pos keys m k = (if k \<in> set keys then Some pos else m k)"
  unfolding set_last_def by (induction keys arbitrary: m) auto

lemma length_wave_numbers [simp]: "length (wave_numbers uri getMode getAddresses calls lastp) = length calls"
  by (induction calls arbitrary: lastp) (simp_all add: Let_def)

definition call_keys :: "uri_parser \<Rightarrow> ('r \<Rightarrow> RecordAddress option list) \<Rightarrow> 'r batchCall \<Rightarrow> recordIdentity list" where
  "call_keys uri getAddresses c = mutationRequestRecords uri (getAddresses (bc_request c))"

text \<open>A record's last position bounds every later call on the record.\<close>

lemma wave_numbers_after:
  assumes "lastp key = Some pos" "j < length calls" "key \<in> set (call_keys uri getAddresses (calls ! j))"
  shows "mp_wave pos \<le> wave_numbers uri getMode getAddresses calls lastp ! j \<and>
    (mp_mode pos \<noteq> getMode (bc_request (calls ! j)) \<longrightarrow>
       mp_wave pos < wave_numbers uri getMode getAddresses calls lastp ! j)"
  using assms
proof (induction calls arbitrary: lastp pos j)
  case (Cons c cs)
  let ?m = "getMode (bc_request c)"
  let ?ks = "mutationRequestRecords uri (getAddresses (bc_request c))"
  let ?w = "required_wave lastp ?m ?ks 0"
  let ?l = "set_last \<lparr>mp_wave = ?w, mp_mode = ?m\<rparr> ?ks lastp"
  have here: "mp_wave pos \<le> ?w \<and> (mp_mode pos \<noteq> ?m \<longrightarrow> mp_wave pos < ?w)" if "key \<in> set ?ks"
    using required_wave_key[where lastp = lastp and key = key and pos = pos and keys = ?ks and mode = ?m and wave = 0] that Cons.prems(1) by (auto split: if_splits)
  show ?case
  proof (cases j)
    case 0
    then show ?thesis using here Cons.prems(3) by (simp add: Let_def call_keys_def)
  next
    case (Suc i)
    show ?thesis
    proof (cases "key \<in> set ?ks")
      case True
      then have "?l key = Some \<lparr>mp_wave = ?w, mp_mode = ?m\<rparr>" by (simp add: set_last_apply)
      from Cons.IH[where lastp = ?l and j = i, OF this] Suc Cons.prems(2,3) here[OF True] show ?thesis
        by (auto simp: Let_def)
    next
      case False
      then have "?l key = Some pos" using Cons.prems(1) by (simp add: set_last_apply)
      from Cons.IH[where lastp = ?l and j = i, OF this] Suc Cons.prems(2,3) show ?thesis by (simp add: Let_def)
    qed
  qed
qed simp

lemma wave_numbers_order:
  assumes "i < j" "j < length calls" "key \<in> set (call_keys uri getAddresses (calls ! i))"
    "key \<in> set (call_keys uri getAddresses (calls ! j))"
  shows "wave_numbers uri getMode getAddresses calls lastp ! i \<le> wave_numbers uri getMode getAddresses calls lastp ! j \<and>
    (getMode (bc_request (calls ! i)) \<noteq> getMode (bc_request (calls ! j)) \<longrightarrow>
       wave_numbers uri getMode getAddresses calls lastp ! i < wave_numbers uri getMode getAddresses calls lastp ! j)"
  using assms
proof (induction calls arbitrary: lastp i j)
  case (Cons c cs)
  obtain j' where j: "j = Suc j'" using Cons.prems(1) by (cases j) auto
  let ?m = "getMode (bc_request c)"
  let ?ks = "mutationRequestRecords uri (getAddresses (bc_request c))"
  let ?w = "required_wave lastp ?m ?ks 0"
  let ?l = "set_last \<lparr>mp_wave = ?w, mp_mode = ?m\<rparr> ?ks lastp"
  show ?case
  proof (cases i)
    case 0
    then have "?l key = Some \<lparr>mp_wave = ?w, mp_mode = ?m\<rparr>"
      using Cons.prems(3) by (simp add: set_last_apply call_keys_def)
    from wave_numbers_after[where lastp = ?l and key = key, OF this, of j' cs uri getAddresses getMode] 0 j Cons.prems(2,4) show ?thesis
      by (simp add: Let_def)
  next
    case (Suc i')
    then show ?thesis using Cons.IH[of i' j' ?l] Cons.prems j by (simp add: Let_def)
  qed
qed simp

definition planned :: "('r \<Rightarrow> CompletionMode) \<Rightarrow> 'r batchCall list \<Rightarrow> nat list \<Rightarrow> 'r mutationWave list \<Rightarrow> bool" where
  "planned getMode calls ns waves \<longleftrightarrow>
     length ns = length calls \<and> (\<forall>n \<in> set ns. n < length waves) \<and>
     (\<forall>w < length waves. mw_applied (waves ! w) = group_of getMode calls ns w False \<and>
        mw_visible (waves ! w) = group_of getMode calls ns w True)"

lemma group_of_snoc:
  "length ns = length calls \<Longrightarrow> group_of getMode (calls @ [c]) (ns @ [n]) w v =
     group_of getMode calls ns w v @ (if n = w \<and> (getMode (bc_request c) = WAIT_UNTIL_VISIBLE) = v then [c] else [])"
  by (simp add: group_of_def)

lemma group_of_none: "length ns = length calls \<Longrightarrow> w \<notin> set ns \<Longrightarrow> group_of getMode calls ns w v = []"
  by (auto simp: group_of_def filter_empty_conv dest: set_zip_rightD)

lemma planned_extend:
  assumes "planned getMode calls ns waves"
  shows "planned getMode calls ns (extend_waves wave waves)"
proof -
  have "group_of getMode calls ns w v = []" if "length waves \<le> w" for w v
    using assms that by (intro group_of_none) (auto simp: planned_def)
  then show ?thesis
    using assms by (auto simp: planned_def extend_waves_def nth_append empty_wave_def)
qed

lemma planned_add:
  assumes "planned getMode calls ns waves" "n < length waves"
  shows "planned getMode (calls @ [c]) (ns @ [n]) (waves[n := add_to_wave (getMode (bc_request c)) c (waves ! n)])"
  using assms by (auto simp: planned_def group_of_snoc add_to_wave_def nth_list_update)

lemma plan_loop_planned:
  assumes "planned getMode before ns waves"
  shows "planned getMode (before @ calls) (ns @ wave_numbers uri getMode getAddresses calls lastp)
    (plan_loop uri getMode getAddresses calls waves lastp)"
  using assms
proof (induction calls arbitrary: before ns waves lastp)
  case (Cons c cs)
  let ?m = "getMode (bc_request c)"
  let ?ks = "mutationRequestRecords uri (getAddresses (bc_request c))"
  let ?w = "required_wave lastp ?m ?ks 0"
  let ?ws = "extend_waves ?w waves"
  have "?w < length ?ws" by (simp add: extend_waves_def)
  then have "planned getMode (before @ [c]) (ns @ [?w]) (?ws[?w := add_to_wave ?m c (?ws ! ?w)])"
    using planned_add planned_extend Cons.prems by blast
  from Cons.IH[OF this, of "set_last \<lparr>mp_wave = ?w, mp_mode = ?m\<rparr> ?ks lastp"] show ?case
    by (simp add: Let_def)
qed simp

text \<open>
  C12: the wave plan of a mutation batch. Every call is in exactly one wave, in the group of its
  visibility, and groups keep the call order. A later call on a record is never in an earlier
  wave than a predecessor on that record, and in a later one if their completion modes differ,
  so the two groups of a wave, which may run in parallel, never share a record.
\<close>

theorem mutation_waves_order:
  "\<exists>ns. length ns = length calls \<and>
     (\<forall>n \<in> set ns. n < length (planMutationWaves uri getMode getAddresses calls)) \<and>
     (\<forall>w < length (planMutationWaves uri getMode getAddresses calls).
        mw_applied (planMutationWaves uri getMode getAddresses calls ! w) = group_of getMode calls ns w False \<and>
        mw_visible (planMutationWaves uri getMode getAddresses calls ! w) = group_of getMode calls ns w True) \<and>
     (\<forall>i j key. i < j \<and> j < length calls \<and> key \<in> set (call_keys uri getAddresses (calls ! i)) \<and>
        key \<in> set (call_keys uri getAddresses (calls ! j)) \<longrightarrow>
        ns ! i \<le> ns ! j \<and> (getMode (bc_request (calls ! i)) \<noteq> getMode (bc_request (calls ! j)) \<longrightarrow> ns ! i < ns ! j))"
proof -
  let ?ns = "wave_numbers uri getMode getAddresses calls Map.empty"
  have "planned getMode ([] @ calls) ([] @ ?ns) (plan_loop uri getMode getAddresses calls [] Map.empty)"
    by (rule plan_loop_planned) (simp add: planned_def)
  then have "planned getMode calls ?ns (planMutationWaves uri getMode getAddresses calls)"
    by (simp add: planMutationWaves_def)
  then show ?thesis
    using wave_numbers_order[of _ _ calls _ uri getAddresses getMode Map.empty]
    unfolding planned_def by (intro exI[of _ ?ns]) blast
qed

definition demo_uri :: uri_parser where
  "demo_uri u = (if u = [] then Inl ''empty'' else Inr \<lparr>ad_store = ''s'', ad_segments = [u], ad_string = u, ad_routingKey = u\<rparr>)"

definition demo_mutation :: "nat \<Rightarrow> CompletionMode \<Rightarrow> string list \<Rightarrow> (CompletionMode \<times> string list) batchCall" where
  "demo_mutation n mode keys =
     \<lparr>bc_id = n, bc_request = (mode, keys), bc_operationCount = int (length keys), bc_encodedBytes = 1, bc_records = keys,
      bc_partition = \<lparr>bp_resource = ''r'', bp_mode = mode, bp_isolated = False\<rparr>\<rparr>"

text \<open>Three calls on record \<open>a\<close>, of which the second alone waits until visible: three waves.\<close>

theorem mutation_waves_order_witness:
  "\<exists>ns. length ns = 3 \<and> ns ! 0 < ns ! 1 \<and> ns ! 1 < (ns ! 2 :: nat) \<and>
     map (\<lambda>w. (map bc_id (mw_applied w), map bc_id (mw_visible w)))
       (planMutationWaves demo_uri fst (\<lambda>r. map (\<lambda>k. Some \<lparr>a_uri = k\<rparr>) (snd r))
          [demo_mutation 0 WAIT_UNTIL_APPLIED [''a''], demo_mutation 1 WAIT_UNTIL_VISIBLE [''a'', ''b''],
           demo_mutation 2 WAIT_UNTIL_APPLIED [''a'']]) = [([0], []), ([], [1]), ([2], [])]"
proof -
  let ?cs = "[demo_mutation 0 WAIT_UNTIL_APPLIED [''a''], demo_mutation 1 WAIT_UNTIL_VISIBLE [''a'', ''b''],
           demo_mutation 2 WAIT_UNTIL_APPLIED [''a'']]"
  let ?addr = "\<lambda>r :: CompletionMode \<times> string list. map (\<lambda>k. Some \<lparr>a_uri = k\<rparr>) (snd r)"
  have ev: "map (\<lambda>w. (map bc_id (mw_applied w), map bc_id (mw_visible w))) (planMutationWaves demo_uri fst ?addr ?cs)
      = [([0], []), ([], [1]), ([2], [])]" by code_simp
  have keys: "''a'' \<in> set (call_keys demo_uri ?addr (?cs ! i))" if "i < 3" for i
    using that by (auto simp: less_Suc_eq numeral_3_eq_3 call_keys_def demo_mutation_def demo_uri_def ParseAddress_def getUri_def)
  have "\<exists>ns. length ns = 3 \<and> ns ! 0 < ns ! 1 \<and> ns ! 1 < (ns ! 2 :: nat)"
    using mutation_waves_order[of ?cs demo_uri fst ?addr]
  proof (elim exE conjE, goal_cases)
    case (1 ns)
    note order = 1(4)[rule_format, where key = "''a''"]
    have "ns ! 0 < ns ! 1" "ns ! 1 < ns ! 2"
      using order[of 0 1] order[of 1 2] keys[of 0] keys[of 1] keys[of 2] by (simp_all add: demo_mutation_def)
    then show ?case using 1(1) by (intro exI[of _ ns]) simp
  qed
  then obtain ns :: "nat list" where "length ns = 3" "ns ! 0 < ns ! 1" "ns ! 1 < ns ! 2" by blast
  then show ?thesis using ev by (intro exI[of _ ns] conjI)
qed

end
