(* ===== verification/Storage.thy ===== *)
theory Storage
  imports Protocol
begin

text \<open>
  The storage contract, \<open>src/internal/storage/storage.go\<close> and \<open>document.go\<close>: documents, revisions,
  preconditions, results, and the classification of errors. An error value is a datatype whose
  constructors are the error types the sources distinguish; \<open>errors.As\<close> and \<open>errors.Is\<close> walk its
  causes.
\<close>

section \<open>Errors\<close>

datatype ErrorCode =
    ErrorCodeInternal | ErrorCodeInvalidArgument | ErrorCodeResourceExhausted | ErrorCodeUnavailable
  | ErrorCodeDeadlineExceeded | ErrorCodeConflict | ErrorCodePreconditionFailed

text \<open>
  \<open>ErrStatus\<close> is a gRPC status error with the text that library renders for it, \<open>ErrWrap\<close> an error
  of \<open>fmt.Errorf\<close> whose format ends in a \<open>%w\<close> verb.
\<close>

datatype err =
    ErrText string
  | ErrContext ctx_err
  | ErrStatus status string
  | ErrReadWorkingSetFull
  | ErrWrap string err
  | OperationError ErrorCode bool "err option"

fun error_text :: "err \<Rightarrow> string" where
  "error_text (ErrText s) = s"
| "error_text (ErrContext CtxCanceled) = ''context canceled''"
| "error_text (ErrContext CtxDeadline) = ''context deadline exceeded''"
| "error_text (ErrStatus _ text) = text"
| "error_text ErrReadWorkingSetFull = ''read working set is full''"
| "error_text (ErrWrap p e) = p @ error_text e"
| "error_text (OperationError _ _ None) = ''storage operation failed''"
| "error_text (OperationError _ _ (Some e)) = error_text e"

text \<open>\<open>errors.As\<close> for \<open>*OperationError\<close>: the outermost one in the chain.\<close>

fun as_operation :: "err \<Rightarrow> (ErrorCode \<times> bool \<times> err option) option" where
  "as_operation (OperationError c r e) = Some (c, r, e)"
| "as_operation (ErrWrap _ e) = as_operation e"
| "as_operation _ = None"

fun is_context :: "ctx_err \<Rightarrow> err \<Rightarrow> bool" where
  "is_context c (ErrContext c') = (c = c')"
| "is_context c (ErrWrap _ e) = is_context c e"
| "is_context c (OperationError _ _ (Some e)) = is_context c e"
| "is_context _ _ = False"

fun is_workingSetFull :: "err \<Rightarrow> bool" where
  "is_workingSetFull ErrReadWorkingSetFull = True"
| "is_workingSetFull (ErrWrap _ e) = is_workingSetFull e"
| "is_workingSetFull (OperationError _ _ (Some e)) = is_workingSetFull e"
| "is_workingSetFull _ = False"

definition NewOperationError :: "ErrorCode \<Rightarrow> bool \<Rightarrow> err option \<Rightarrow> err" where
  "NewOperationError code retryable cause = OperationError code retryable cause"

definition InvalidArgumentError :: "err \<Rightarrow> err" where
  "InvalidArgumentError cause = NewOperationError ErrorCodeInvalidArgument False (Some cause)"

definition ResourceExhaustedError :: "err \<Rightarrow> err" where
  "ResourceExhaustedError cause = NewOperationError ErrorCodeResourceExhausted True (Some cause)"

definition BackendError :: "err \<Rightarrow> err" where
  "BackendError cause =
     (case as_operation cause of
        Some (c, r, e) \<Rightarrow> OperationError c r e
      | None \<Rightarrow>
          if is_context CtxDeadline cause then NewOperationError ErrorCodeDeadlineExceeded True (Some cause)
          else if is_context CtxCanceled cause then NewOperationError ErrorCodeInternal False (Some cause)
          else NewOperationError ErrorCodeUnavailable True (Some cause))"

definition ErrorDetails :: "err option \<Rightarrow> ErrorCode \<times> bool" where
  "ErrorDetails e =
     (case e of None \<Rightarrow> (ErrorCodeInternal, False)
      | Some e' \<Rightarrow>
          (case as_operation e' of None \<Rightarrow> (ErrorCodeInternal, False) | Some (c, r, _) \<Rightarrow> (c, r)))"

section \<open>Documents and requests\<close>

datatype storageEncoding = EncodingUnspecified | EncodingJSON | EncodingBSON

record storageDocument =
  sd_encoding :: storageEncoding
  sd_payload :: bytes

datatype readStatus = ReadStatusUnspecified | ReadStatusFound | ReadStatusNotFound | ReadStatusFailed

record readResult =
  rr_status :: readStatus
  rr_document :: storageDocument
  rr_revision :: bytes
  rr_err :: "err option"

datatype preconditionKind =
    PreconditionNone | PreconditionRecordExists | PreconditionRecordNotExists
  | PreconditionRevisionMatches | PreconditionRevisionAbsent | PreconditionOther nat

record precondition =
  pc_kind :: preconditionKind
  pc_revision :: bytes

record writeOperation =
  so_address :: Address
  so_document :: storageDocument
  so_precondition :: precondition

datatype writeStatus = WriteStatusUnspecified | WriteStatusApplied | WriteStatusPreconditionFailed | WriteStatusFailed

record writeResult =
  sw_status :: writeStatus
  sw_revision :: bytes
  sw_err :: "err option"

datatype deleteStatus = DeleteStatusUnspecified | DeleteStatusApplied | DeleteStatusFailed

record deleteResult =
  sx_status :: deleteStatus
  sx_err :: "err option"

definition empty_document :: storageDocument where
  "empty_document = \<lparr>sd_encoding = EncodingUnspecified, sd_payload = []\<rparr>"

definition empty_readResult :: readResult where
  "empty_readResult =
     \<lparr>rr_status = ReadStatusUnspecified, rr_document = empty_document, rr_revision = [], rr_err = None\<rparr>"

definition empty_writeResult :: writeResult where
  "empty_writeResult = \<lparr>sw_status = WriteStatusUnspecified, sw_revision = [], sw_err = None\<rparr>"

text \<open>\<open>ValidateDocument\<close>; whether bytes are a JSON object or a BSON document is decided by arguments.\<close>

definition ValidateDocument :: "(bytes \<Rightarrow> bool) \<Rightarrow> (bytes \<Rightarrow> string option) \<Rightarrow> storageDocument \<Rightarrow> string option" where
  "ValidateDocument json bson d =
     (case sd_encoding d of
        EncodingJSON \<Rightarrow>
          if json (sd_payload d) then None
          else Some ''document payload must contain a valid UTF-8 JSON object''
      | EncodingBSON \<Rightarrow>
          (case bson (sd_payload d) of
             None \<Rightarrow> None
           | Some e \<Rightarrow> Some (''document payload must contain a valid BSON document: '' @ e))
      | EncodingUnspecified \<Rightarrow> Some ''document encoding is required'')"

text \<open>Classifying an error twice changes nothing, and a classified error keeps its cause's code.\<close>

lemma BackendError_idem: "BackendError (BackendError e) = BackendError e"
  by (auto simp: BackendError_def NewOperationError_def split: option.splits)

lemma ErrorDetails_Backend:
  "ErrorDetails (Some (BackendError e)) =
     (case as_operation e of
        Some (c, r, _) \<Rightarrow> (c, r)
      | None \<Rightarrow> if is_context CtxDeadline e then (ErrorCodeDeadlineExceeded, True)
                else if is_context CtxCanceled e then (ErrorCodeInternal, False)
                else (ErrorCodeUnavailable, True))"
  by (auto simp: ErrorDetails_def BackendError_def NewOperationError_def split: option.splits)

end
