(* ===== verification/Read_Budget.thy ===== *)
theory Read_Budget
  imports Storage
begin

text \<open>
  Byte budgets of reads, \<open>src/internal/storage/read_budget.go\<close>, and the trackers that hand them out
  for forwarded requests, \<open>src/internal/forwarding/budget.go\<close>. A plain budget is a heap cell; a
  composite budget is a tree over cells. The two composites that charge process memory call the
  pool through the arguments \<open>output\<close> (\<open>Scope.Output\<close>) and \<open>grow\<close> (\<open>capacity.Grow\<close>), which act on a
  world of their own.
\<close>

section \<open>Budgets\<close>

record budgetCell =
  rb_remaining :: int
  rb_maximum :: int
  rb_tracked :: bool
  rb_reports :: "int list"

type_synonym cells = "budgetCell list"

datatype readBudget =
    Plain nat
  | Shared "readBudget list"
  | WorkingSet readBudget nat
  | Managed readBudget
  | Responding readBudget

definition DefaultMaxReadBytes :: int where
  "DefaultMaxReadBytes = 33554432"

definition NewReadBudget :: "int \<Rightarrow> cells \<Rightarrow> readBudget \<times> cells" where
  "NewReadBudget maxBytes cs =
     (let m = (if maxBytes \<le> 0 then DefaultMaxReadBytes else maxBytes) in
      (Plain (length cs), cs @ [\<lparr>rb_remaining = m, rb_maximum = m, rb_tracked = False, rb_reports = []\<rparr>]))"

definition NewTrackedReadBudget :: "int \<Rightarrow> cells \<Rightarrow> readBudget \<times> cells" where
  "NewTrackedReadBudget maxBytes cs =
     (Plain (length cs),
      cs @ [\<lparr>rb_remaining = max 0 maxBytes, rb_maximum = max 0 maxBytes, rb_tracked = True, rb_reports = []\<rparr>])"

definition NewSharedReadBudget :: "readBudget list \<Rightarrow> readBudget" where
  "NewSharedReadBudget budgets = (if length budgets = 1 then budgets ! 0 else Shared budgets)"

definition NewWorkingSetReadBudget :: "readBudget \<Rightarrow> nat \<Rightarrow> readBudget" where
  "NewWorkingSetReadBudget caller working = WorkingSet caller working"

definition WithMemoryBudget :: "bool \<Rightarrow> readBudget \<Rightarrow> readBudget" where
  "WithMemoryBudget lease budget = (if lease then Managed budget else budget)"

definition NewResponseBudget :: "bool \<Rightarrow> int \<Rightarrow> cells \<Rightarrow> readBudget \<times> cells" where
  "NewResponseBudget scope maximum cs =
     (let (b, cs') = NewReadBudget maximum cs in (if scope then Responding b else b, cs'))"

section \<open>Reserving\<close>

definition overhead :: int where
  "overhead = 128"

definition exhausted :: "bool \<Rightarrow> err" where
  "exhausted retryable =
     NewOperationError ErrorCodeResourceExhausted retryable
       (Some (ErrText ''read response exceeds its byte budget; request fewer or smaller records''))"

definition reserve_cell :: "nat \<Rightarrow> int \<Rightarrow> cells \<Rightarrow> err option \<times> cells" where
  "reserve_cell i n cs =
     (let c = cs ! i in
      if n < 0 \<or> rb_remaining c < overhead \<or> n > rb_remaining c - overhead
      then (Some (exhausted (0 \<le> n \<and> n \<le> rb_maximum c - overhead)), cs)
      else
        let remaining = rb_remaining c - (n + overhead) in
        (None, cs[i := c\<lparr>rb_remaining := remaining,
          rb_reports := (if rb_tracked c then rb_reports c @ [rb_maximum c - remaining] else rb_reports c)\<rparr>]))"

definition refund_cell :: "nat \<Rightarrow> int \<Rightarrow> cells \<Rightarrow> cells" where
  "refund_cell i n cs = cs[i := (cs ! i)\<lparr>rb_remaining := rb_remaining (cs ! i) + n\<rparr>]"

text \<open>
  \<open>Reserve\<close>. The loop over shared budgets asks every one and succeeds if any accepts; a shared
  budget over no callers is the zero budget.
\<close>

fun Reserve ::
    "(int \<Rightarrow> 'w \<Rightarrow> err option \<times> 'w) \<Rightarrow> (int \<Rightarrow> 'w \<Rightarrow> err option \<times> 'w) \<Rightarrow>
     readBudget \<Rightarrow> int \<Rightarrow> cells \<Rightarrow> 'w \<Rightarrow> err option \<times> cells \<times> 'w"
  and reserve_shared ::
    "(int \<Rightarrow> 'w \<Rightarrow> err option \<times> 'w) \<Rightarrow> (int \<Rightarrow> 'w \<Rightarrow> err option \<times> 'w) \<Rightarrow>
     readBudget list \<Rightarrow> int \<Rightarrow> bool \<Rightarrow> err option \<Rightarrow> cells \<Rightarrow> 'w \<Rightarrow> err option \<times> cells \<times> 'w" where
  "Reserve output grow (Plain i) n cs w = (let (e, cs') = reserve_cell i n cs in (e, cs', w))"
| "Reserve output grow (Shared budgets) n cs w =
     (if budgets = [] then (Some (exhausted (0 \<le> n \<and> n \<le> 0 - overhead)), cs, w)
      else reserve_shared output grow budgets n False None cs w)"
| "Reserve output grow (WorkingSet caller working) n cs w =
     (case reserve_cell working n cs of
        (Some e, cs1) \<Rightarrow>
          (Some (if 0 \<le> n \<and> n \<le> rb_maximum (cs ! working) - 128 then ErrReadWorkingSetFull else e), cs1, w)
      | (None, cs1) \<Rightarrow>
          (case Reserve output grow caller n cs1 w of
             (Some e, cs2, w2) \<Rightarrow> (Some e, refund_cell working (n + 128) cs2, w2)
           | (None, cs2, w2) \<Rightarrow> (None, cs2, w2)))"
| "Reserve output grow (Managed caller) n cs w =
     (case Reserve output grow caller n cs w of
        (Some e, cs1, w1) \<Rightarrow> (Some e, cs1, w1)
      | (None, cs1, w1) \<Rightarrow>
          (case grow (n + 128) w1 of
             (Some e, w2) \<Rightarrow> (Some (ResourceExhaustedError e), cs1, w2)
           | (None, w2) \<Rightarrow> (None, cs1, w2)))"
| "Reserve output grow (Responding caller) n cs w =
     (case Reserve output grow caller n cs w of
        (Some e, cs1, w1) \<Rightarrow> (Some e, cs1, w1)
      | (None, cs1, w1) \<Rightarrow>
          (case output (n + 128) w1 of
             (Some e, w2) \<Rightarrow> (Some (ResourceExhaustedError e), cs1, w2)
           | (None, w2) \<Rightarrow> (None, cs1, w2)))"
| "reserve_shared output grow [] n accepted failure cs w = (if accepted then None else failure, cs, w)"
| "reserve_shared output grow (b # bs) n accepted failure cs w =
     (case Reserve output grow b n cs w of
        (Some e, cs1, w1) \<Rightarrow> reserve_shared output grow bs n accepted (Some e) cs1 w1
      | (None, cs1, w1) \<Rightarrow> reserve_shared output grow bs n True failure cs1 w1)"

section \<open>Trackers\<close>

datatype Kind = Snapshots | Inputs | Outputs | Returns

record forwardBudget =
  fb_snapshots :: uint64
  fb_inputs :: uint64
  fb_outputs :: uint64
  fb_returns :: uint64

record Tracker =
  tr_limits :: "Kind \<Rightarrow> int"
  tr_used :: "Kind \<Rightarrow> int"

text \<open>\<open>int(min(size, uint64(maximum)))\<close> for a nonnegative maximum that fits an \<open>int\<close>.\<close>

definition grant_of :: "forwardBudget \<Rightarrow> Kind \<Rightarrow> uint64" where
  "grant_of g k = (case k of Snapshots \<Rightarrow> fb_snapshots g | Inputs \<Rightarrow> fb_inputs g | Outputs \<Rightarrow> fb_outputs g | Returns \<Rightarrow> fb_returns g)"

definition NewTracker :: "forwardBudget \<Rightarrow> int \<Rightarrow> Tracker" where
  "NewTracker grant maximum =
     \<lparr>tr_limits = (\<lambda>k. sint (min (grant_of grant k) (word_of_int maximum))), tr_used = (\<lambda>_. 0)\<rparr>"

definition tracker_Limit :: "Tracker option \<Rightarrow> Kind \<Rightarrow> int \<Rightarrow> int" where
  "tracker_Limit t k maximum = (case t of None \<Rightarrow> maximum | Some tr \<Rightarrow> min maximum (tr_limits tr k))"

definition Observe :: "Kind \<Rightarrow> int \<Rightarrow> Tracker \<Rightarrow> Tracker" where
  "Observe k used t = t\<lparr>tr_used := (tr_used t)(k := max (tr_used t k) used)\<rparr>"

definition Fresh :: "Tracker option \<Rightarrow> Kind \<Rightarrow> int \<Rightarrow> cells \<Rightarrow> readBudget \<times> cells" where
  "Fresh t k maximum cs =
     (case t of None \<Rightarrow> NewReadBudget maximum cs
      | Some _ \<Rightarrow> NewTrackedReadBudget (tracker_Limit t k maximum) cs)"

definition Usage :: "Tracker \<Rightarrow> forwardBudget" where
  "Usage t =
     \<lparr>fb_snapshots = word_of_int (tr_used t Snapshots), fb_inputs = word_of_int (tr_used t Inputs),
      fb_outputs = word_of_int (tr_used t Outputs), fb_returns = word_of_int (tr_used t Returns)\<rparr>"

definition FullBudget :: "int \<Rightarrow> forwardBudget" where
  "FullBudget maximum =
     (let n = word_of_int maximum in
      \<lparr>fb_snapshots = n, fb_inputs = n, fb_outputs = n, fb_returns = n\<rparr>)"

section \<open>What reserving does to the cells\<close>

fun budget_cells :: "readBudget \<Rightarrow> nat set" where
  "budget_cells (Plain i) = {i}"
| "budget_cells (Shared bs) = (\<Union>b \<in> set bs. budget_cells b)"
| "budget_cells (WorkingSet caller i) = insert i (budget_cells caller)"
| "budget_cells (Managed b) = budget_cells b"
| "budget_cells (Responding b) = budget_cells b"

definition cells_ok :: "cells \<Rightarrow> bool" where
  "cells_ok cs \<longleftrightarrow> (\<forall>c \<in> set cs. 0 \<le> rb_remaining c \<and> rb_remaining c \<le> rb_maximum c)"

text \<open>\<open>charged cs cs' B\<close>: only cells of \<open>B\<close> changed, and they only lost bytes.\<close>

definition charged :: "cells \<Rightarrow> cells \<Rightarrow> nat set \<Rightarrow> bool" where
  "charged cs cs' B \<longleftrightarrow>
     length cs' = length cs \<and>
     (\<forall>i < length cs. rb_maximum (cs' ! i) = rb_maximum (cs ! i) \<and> rb_tracked (cs' ! i) = rb_tracked (cs ! i) \<and>
        0 \<le> rb_remaining (cs' ! i) \<and> rb_remaining (cs' ! i) \<le> rb_remaining (cs ! i) \<and>
        (i \<notin> B \<longrightarrow> rb_remaining (cs' ! i) = rb_remaining (cs ! i)))"

lemma charged_ok: "cells_ok cs \<Longrightarrow> charged cs cs' B \<Longrightarrow> cells_ok cs'"
  by (auto simp: cells_ok_def charged_def all_set_conv_all_nth intro: order_trans)

lemma charged_refl: "cells_ok cs \<Longrightarrow> charged cs cs B"
  by (auto simp: charged_def cells_ok_def)

lemma charged_trans: "charged cs cs' B \<Longrightarrow> charged cs' cs'' B' \<Longrightarrow> charged cs cs'' (B \<union> B')"
  unfolding charged_def by (auto intro: order_trans)

lemma charged_mono: "charged cs cs' B \<Longrightarrow> B \<subseteq> B' \<Longrightarrow> charged cs cs' B'"
  unfolding charged_def by blast

lemma reserve_cell_spec:
  assumes "cells_ok cs" "i < length cs" "reserve_cell i n cs = (e, cs')"
  shows "charged cs cs' {i}" "e \<noteq> None \<Longrightarrow> cs' = cs"
    "e = None \<Longrightarrow> 0 \<le> n \<and> rb_remaining (cs' ! i) = rb_remaining (cs ! i) - (n + overhead)"
  using assms by (auto simp: reserve_cell_def charged_def cells_ok_def Let_def nth_list_update overhead_def split: if_splits)

lemma Reserve_charged:
  "cells_ok cs \<Longrightarrow> budget_cells b \<subseteq> {..<length cs} \<Longrightarrow> Reserve out grow b n cs w = (e, cs', w') \<Longrightarrow>
     charged cs cs' (budget_cells b)"
  "cells_ok cs \<Longrightarrow> (\<Union>b \<in> set bs. budget_cells b) \<subseteq> {..<length cs} \<Longrightarrow>
     reserve_shared out grow bs n acc fl cs w = (e, cs', w') \<Longrightarrow> charged cs cs' (\<Union>b \<in> set bs. budget_cells b)"
proof (induction out grow b n cs w and out grow bs n acc fl cs w arbitrary: e cs' w' and e cs' w' rule: Reserve_reserve_shared.induct)
  case (1 out grow i n cs w)
  then show ?case using reserve_cell_spec(1)[of cs i n] by (auto split: prod.splits)
next
  case (2 out grow budgets n cs w)
  then show ?case by (auto simp: charged_refl split: if_splits)
next
  case (3 out grow caller working n cs w)
  obtain e1 cs1 where one: "reserve_cell working n cs = (e1, cs1)" by fastforce
  have w: "working < length cs" using "3.prems"(2) by auto
  note s = reserve_cell_spec[OF "3.prems"(1) w one]
  have ok1: "cells_ok cs1" using charged_ok[OF "3.prems"(1) s(1)] .
  show ?case
  proof (cases e1)
    case (Some x)
    then have "cs' = cs" using "3.prems"(3) one s(2) by simp
    then show ?thesis using charged_refl[OF "3.prems"(1)] by simp
  next
    case None
    obtain e2 cs2 w2 where two: "Reserve out grow caller n cs1 w = (e2, cs2, w2)" by (metis prod_cases3)
    have "charged cs1 cs2 (budget_cells caller)"
      by (rule "3.IH"[OF one[symmetric] None ok1 _ two]) (use "3.prems"(2) s(1) in \<open>auto simp: charged_def\<close>)
    note both = charged_trans[OF s(1) this]
    have len: "length cs2 = length cs" using both by (simp add: charged_def)
    show ?thesis
    proof (cases e2)
      case None
      then show ?thesis using "3.prems"(3) one two \<open>e1 = None\<close> both by auto
    next
      case (Some x)
      have cs': "cs' = refund_cell working (n + 128) cs2" using "3.prems"(3) one two \<open>e1 = None\<close> Some by auto
      have n: "0 \<le> n" "rb_remaining (cs1 ! working) = rb_remaining (cs ! working) - (n + 128)"
        using s(3)[OF None] by (simp_all add: overhead_def)
      have le: "rb_remaining (cs2 ! working) \<le> rb_remaining (cs1 ! working)"
        using \<open>charged cs1 cs2 (budget_cells caller)\<close> w s(1) by (simp add: charged_def)
      show ?thesis
        using both n le w len unfolding cs' refund_cell_def charged_def by (auto simp: nth_list_update)
    qed
  qed
next
  case (4 out grow caller n cs w)
  then show ?case by (fastforce split: prod.splits option.splits)
next
  case (5 out grow caller n cs w)
  then show ?case by (fastforce split: prod.splits option.splits)
next
  case (6 out grow n acc fl cs w)
  then show ?case by (simp add: charged_refl)
next
  case (7 out grow b bs n acc fl cs w)
  obtain e1 cs1 w1 where one: "Reserve out grow b n cs w = (e1, cs1, w1)" by (metis prod_cases3)
  have c1: "charged cs cs1 (budget_cells b)" using "7.IH"(1)[OF "7.prems"(1) _ one] "7.prems"(2) by simp
  have ok1: "cells_ok cs1" using charged_ok[OF "7.prems"(1) c1] .
  have len: "length cs1 = length cs" using c1 by (simp add: charged_def)
  have "charged cs1 cs' (\<Union>b \<in> set bs. budget_cells b)"
  proof (cases e1)
    case None
    then have run: "reserve_shared out grow bs n True fl cs1 w1 = (e, cs', w')" using "7.prems"(3) one by simp
    show ?thesis by (rule "7.IH"(2)[OF one[symmetric] None refl ok1 _ run]) (use "7.prems"(2) len in auto)
  next
    case (Some x)
    then have run: "reserve_shared out grow bs n acc (Some x) cs1 w1 = (e, cs', w')" using "7.prems"(3) one by simp
    show ?thesis by (rule "7.IH"(3)[OF one[symmetric] Some refl ok1 _ run]) (use "7.prems"(2) len in auto)
  qed
  then show ?case using charged_trans[OF c1] by simp
qed

lemma working_set_cell:
  assumes ok: "cells_ok cs" and cells: "budget_cells (WorkingSet caller i) \<subseteq> {..<length cs}" and i: "i \<notin> budget_cells caller"
    and run: "Reserve out grow (WorkingSet caller i) n cs w = (e, cs', w')"
  shows "rb_remaining (cs' ! i) = rb_remaining (cs ! i) - (if e = None then n + 128 else 0)"
    and "fst (reserve_cell i n cs) \<noteq> None \<Longrightarrow> cs' = cs \<and> w' = w"
proof -
  obtain e1 cs1 where one: "reserve_cell i n cs = (e1, cs1)" by fastforce
  have w: "i < length cs" using cells by auto
  note s = reserve_cell_spec[OF ok w one]
  have ok1: "cells_ok cs1" using charged_ok[OF ok s(1)] .
  have len: "length cs1 = length cs" using s(1) by (simp add: charged_def)
  obtain e2 cs2 w2 where two: "Reserve out grow caller n cs1 w = (e2, cs2, w2)" by (metis prod_cases3)
  have "charged cs1 cs2 (budget_cells caller)"
    by (rule Reserve_charged(1)[OF ok1 _ two]) (use cells len in auto)
  then have same: "rb_remaining (cs2 ! i) = rb_remaining (cs1 ! i)" "length cs2 = length cs"
    using i w len by (simp_all add: charged_def)
  show "rb_remaining (cs' ! i) = rb_remaining (cs ! i) - (if e = None then n + 128 else 0)"
    using run one two s same w by (cases e1; cases e2) (auto simp: refund_cell_def overhead_def)
  show "fst (reserve_cell i n cs) \<noteq> None \<Longrightarrow> cs' = cs \<and> w' = w"
    using run one s(2) by auto
qed

section \<open>Properties\<close>

text \<open>
  C13: byte budgets, however composed, are never overdrawn. Reserving through any tree of budgets
  keeps every cell between zero and its maximum and touches only cells of the tree, which only
  lose bytes. A plain budget is charged the size and the envelope exactly when it accepts. A
  working-set budget charges the working set exactly when the whole reservation succeeds, and
  a read it defers charges nobody.
\<close>

theorem read_budget_sound:
  assumes "cells_ok cs" "budget_cells b \<subseteq> {..<length cs}" "Reserve out grow b n cs w = (e, cs', w')"
  shows "cells_ok cs' \<and> length cs' = length cs \<and>
    (\<forall>i < length cs. rb_remaining (cs' ! i) \<le> rb_remaining (cs ! i) \<and>
       (i \<notin> budget_cells b \<longrightarrow> rb_remaining (cs' ! i) = rb_remaining (cs ! i))) \<and>
    (\<forall>i. b = Plain i \<longrightarrow>
       rb_remaining (cs' ! i) = rb_remaining (cs ! i) - (if e = None then n + 128 else 0)) \<and>
    (\<forall>caller i. b = WorkingSet caller i \<and> i \<notin> budget_cells caller \<longrightarrow>
       rb_remaining (cs' ! i) = rb_remaining (cs ! i) - (if e = None then n + 128 else 0) \<and>
       (fst (reserve_cell i n cs) \<noteq> None \<longrightarrow> cs' = cs \<and> w' = w))"
proof -
  have c: "charged cs cs' (budget_cells b)" using Reserve_charged(1)[OF assms] .
  have plain: "rb_remaining (cs' ! i) = rb_remaining (cs ! i) - (if e = None then n + 128 else 0)" if "b = Plain i" for i
    using assms that reserve_cell_spec[OF assms(1), of i n e cs'] by (auto simp: overhead_def split: prod.splits)
  have working: "rb_remaining (cs' ! i) = rb_remaining (cs ! i) - (if e = None then n + 128 else 0) \<and>
      (fst (reserve_cell i n cs) \<noteq> None \<longrightarrow> cs' = cs \<and> w' = w)"
    if "b = WorkingSet caller i" "i \<notin> budget_cells caller" for caller i
    using working_set_cell[OF assms(1) assms(2)[unfolded that(1)] that(2) assms(3)[unfolded that(1)]] by blast
  show ?thesis
    using charged_ok[OF assms(1) c] c plain working by (simp add: charged_def)
qed

text \<open>A working set of 1000 bytes refuses a record its caller could afford, and charges nobody.\<close>

theorem read_budget_sound_witness:
  "let cs = [\<lparr>rb_remaining = 5000, rb_maximum = 5000, rb_tracked = False, rb_reports = []\<rparr>,
             \<lparr>rb_remaining = 400, rb_maximum = 1000, rb_tracked = False, rb_reports = []\<rparr>];
       r = Reserve (\<lambda>_ w. (None, w)) (\<lambda>_ w. (None, w)) (WorkingSet (Plain 0) 1) 500 cs ()
   in fst r = Some ErrReadWorkingSetFull \<and> fst (snd r) = cs"
proof -
  let ?cs = "[\<lparr>rb_remaining = 5000, rb_maximum = 5000, rb_tracked = False, rb_reports = []\<rparr>,
             \<lparr>rb_remaining = 400, rb_maximum = 1000, rb_tracked = False, rb_reports = []\<rparr>] :: cells"
  let ?r = "Reserve (\<lambda>_ w. (None, w)) (\<lambda>_ w. (None, w)) (WorkingSet (Plain 0) 1) 500 ?cs ()"
  have ev: "fst ?r = Some ErrReadWorkingSetFull" "fst (reserve_cell 1 500 ?cs) \<noteq> None" by code_simp+
  have ok: "cells_ok ?cs" "budget_cells (WorkingSet (Plain 0) 1) \<subseteq> {..<length ?cs}" by (auto simp: cells_ok_def)
  have r: "?r = (fst ?r, fst (snd ?r), snd (snd ?r))" by (simp only: prod.collapse)
  have "fst (snd ?r) = ?cs"
    using read_budget_sound[OF ok r] ev(2) by (simp del: Reserve.simps)
  with ev(1) show ?thesis by (simp only: Let_def simp_thms)
qed

end
