(* ===== verification/Failures.thy ===== *)
theory Failures
  imports Storage
begin

text \<open>
  Failure messages and result conversion: \<open>src/internal/service/failure_budget.go\<close> and
  \<open>src/internal/service/convert.go\<close>. A Go string is its bytes, a list of characters; \<open>unicode/utf8\<close>
  and \<open>strings.ToValidUTF8\<close> are modelled on them.
\<close>

section \<open>UTF-8\<close>

definition byte_in :: "nat \<Rightarrow> nat \<Rightarrow> char \<Rightarrow> bool" where
  "byte_in lo hi c \<longleftrightarrow> lo \<le> of_char c \<and> of_char c \<le> hi"

text \<open>\<open>utf8.RuneStart\<close>: not a continuation byte.\<close>

definition RuneStart :: "char \<Rightarrow> bool" where
  "RuneStart c \<longleftrightarrow> \<not> byte_in 0x80 0xBF c"

text \<open>The width of the encoded rune at the head of a string, if there is a well-formed one.\<close>

fun rune_width :: "string \<Rightarrow> nat option" where
  "rune_width [] = None"
| "rune_width (a # rest) =
     (if byte_in 0 0x7F a then Some 1
      else if byte_in 0xC2 0xDF a then
        (case rest of b # _ \<Rightarrow> if byte_in 0x80 0xBF b then Some 2 else None | _ \<Rightarrow> None)
      else if byte_in 0xE0 0xEF a then
        (case rest of
           b # c # _ \<Rightarrow>
             if byte_in (if of_char a = (0xE0 :: nat) then 0xA0 else 0x80) (if of_char a = (0xED :: nat) then 0x9F else 0xBF) b \<and>
                byte_in 0x80 0xBF c then Some 3 else None
         | _ \<Rightarrow> None)
      else if byte_in 0xF0 0xF4 a then
        (case rest of
           b # c # d # _ \<Rightarrow>
             if byte_in (if of_char a = (0xF0 :: nat) then 0x90 else 0x80) (if of_char a = (0xF4 :: nat) then 0x8F else 0xBF) b \<and>
                byte_in 0x80 0xBF c \<and> byte_in 0x80 0xBF d then Some 4 else None
         | _ \<Rightarrow> None)
      else None)"

lemma rune_width_bounds: "rune_width s = Some n \<Longrightarrow> 0 < n \<and> n \<le> length s"
  by (cases s) (auto split: if_splits list.splits)

function utf8_valid :: "string \<Rightarrow> bool" where
  "utf8_valid s =
     (if s = [] then True
      else case rune_width s of None \<Rightarrow> False | Some n \<Rightarrow> utf8_valid (drop n s))"
  by pat_completeness auto

termination
  by (relation "measure length") (auto dest: rune_width_bounds)

declare utf8_valid.simps [simp del]

text \<open>\<open>strings.ToValidUTF8\<close>: each run of invalid bytes becomes one replacement.\<close>

function ToValidUTF8 :: "bool \<Rightarrow> string \<Rightarrow> string \<Rightarrow> string" where
  "ToValidUTF8 invalid replacement s =
     (if s = [] then []
      else case rune_width s of
        None \<Rightarrow> (if invalid then [] else replacement) @ ToValidUTF8 True replacement (drop 1 s)
      | Some n \<Rightarrow> take n s @ ToValidUTF8 False replacement (drop n s))"
  by pat_completeness auto

termination
  by (relation "measure (\<lambda>(_, _, s). length s)") (auto dest: rune_width_bounds)

declare ToValidUTF8.simps [simp del]

section \<open>Bounded messages\<close>

definition maxFailureMessageBytes :: int where
  "maxFailureMessageBytes = 1024"

definition failureResponseBytes :: "int \<Rightarrow> int" where
  "failureResponseBytes operations = operations * (maxFailureMessageBytes + 128)"

definition failureMessageLimit :: "int \<Rightarrow> int \<Rightarrow> int" where
  "failureMessageLimit operations maximum =
     min maxFailureMessageBytes (max 1 (maximum div max 1 operations - 128))"

text \<open>The loop that moves the cut back to the start of a rune.\<close>

fun cut_back :: "string \<Rightarrow> nat \<Rightarrow> nat" where
  "cut_back message 0 = 0"
| "cut_back message (Suc e) =
     (if \<not> RuneStart (message ! Suc e) then cut_back message e else Suc e)"

definition boundedFailureMessage :: "string \<Rightarrow> int \<Rightarrow> string" where
  "boundedFailureMessage message maximum =
     (if maximum \<le> 0 then []
      else
        let (m, suffix) =
              (if int (length message) > maximum then
                 let suffix = take (nat (min 3 maximum)) ''...'';
                     e = cut_back message (nat maximum - length suffix)
                 in (take e message, suffix)
               else (message, []))
        in ToValidUTF8 False ''?'' m @ suffix)"

section \<open>Result conversion\<close>

definition newFailure :: "FailureCode \<Rightarrow> err option \<Rightarrow> bool \<Rightarrow> Failure" where
  "newFailure code e retryable =
     (let message = (case e of None \<Rightarrow> ''operation failed'' | Some e' \<Rightarrow> boundedFailureMessage (error_text e') maxFailureMessageBytes)
      in \<lparr>f_code = code, f_message = (if message = [] then ''operation failed'' else message), f_retryable = retryable\<rparr>)"

definition storageFailureDetails :: "err option \<Rightarrow> FailureCode \<times> bool" where
  "storageFailureDetails e =
     (let (code, retryable) = ErrorDetails e in
      (case code of
         ErrorCodeInvalidArgument \<Rightarrow> FC_INVALID_ARGUMENT
       | ErrorCodeResourceExhausted \<Rightarrow> FC_RESOURCE_EXHAUSTED
       | ErrorCodeUnavailable \<Rightarrow> FC_UNAVAILABLE
       | ErrorCodeConflict \<Rightarrow> FC_CONFLICT
       | ErrorCodePreconditionFailed \<Rightarrow> FC_PRECONDITION_FAILED
       | ErrorCodeDeadlineExceeded \<Rightarrow> FC_DEADLINE_EXCEEDED
       | ErrorCodeInternal \<Rightarrow> FC_INTERNAL, retryable))"

definition setReadFailure :: "ReadResult \<Rightarrow> FailureCode \<Rightarrow> err option \<Rightarrow> bool \<Rightarrow> ReadResult" where
  "setReadFailure r code e retryable =
     r\<lparr>rres_status := RS_FAILED, rres_failure := Some (newFailure code e retryable)\<rparr>"

definition setWriteFailure :: "WriteResult \<Rightarrow> FailureCode \<Rightarrow> err option \<Rightarrow> bool \<Rightarrow> WriteResult" where
  "setWriteFailure r code e retryable =
     r\<lparr>wres_status := (if code = FC_CONFLICT \<or> code = FC_PRECONDITION_FAILED then WS_PRECONDITION_FAILED else WS_FAILED),
       wres_failure := Some (newFailure code e retryable)\<rparr>"

definition setDeleteFailure :: "DeleteResult \<Rightarrow> FailureCode \<Rightarrow> err option \<Rightarrow> bool \<Rightarrow> DeleteResult" where
  "setDeleteFailure r code e retryable =
     r\<lparr>dres_status := DS_FAILED, dres_failure := Some (newFailure code e retryable)\<rparr>"

definition applyReadResult :: "ReadResult \<Rightarrow> readResult \<Rightarrow> ReadResult" where
  "applyReadResult r stored =
     (case rr_status stored of
        ReadStatusFound \<Rightarrow>
          (let r1 = r\<lparr>rres_status := RS_FOUND\<rparr>;
               found = (\<lambda>enc. r1\<lparr>rres_document := Some \<lparr>d_encoding = enc, d_payload = sd_payload (rr_document stored)\<rparr>,
                               rres_revision := Some (rr_revision stored)\<rparr>)
           in case sd_encoding (rr_document stored) of
                EncodingJSON \<Rightarrow> found ENCODING_JSON
              | EncodingBSON \<Rightarrow> found ENCODING_BSON
              | EncodingUnspecified \<Rightarrow>
                  setReadFailure r1 FC_INTERNAL (Some (ErrText ''storage returned a document without an encoding'')) False)
      | ReadStatusNotFound \<Rightarrow> r\<lparr>rres_status := RS_NOT_FOUND\<rparr>
      | ReadStatusFailed \<Rightarrow>
          (let (code, retryable) = storageFailureDetails (rr_err stored) in setReadFailure r code (rr_err stored) retryable)
      | ReadStatusUnspecified \<Rightarrow>
          setReadFailure r FC_INTERNAL (Some (ErrText ''unsupported storage read status 0'')) False)"

definition applyWriteResult :: "WriteResult \<Rightarrow> writeResult \<Rightarrow> WriteResult" where
  "applyWriteResult r stored =
     (case sw_status stored of
        WriteStatusApplied \<Rightarrow> r\<lparr>wres_status := WS_APPLIED, wres_revision := Some (sw_revision stored)\<rparr>
      | WriteStatusPreconditionFailed \<Rightarrow>
          r\<lparr>wres_status := WS_PRECONDITION_FAILED,
            wres_failure := Some \<lparr>f_code = FC_PRECONDITION_FAILED, f_message = ''write precondition did not match'', f_retryable = False\<rparr>\<rparr>
      | WriteStatusFailed \<Rightarrow>
          (let (code, retryable) = storageFailureDetails (sw_err stored) in setWriteFailure r code (sw_err stored) retryable)
      | WriteStatusUnspecified \<Rightarrow>
          setWriteFailure r FC_INTERNAL (Some (ErrText ''unsupported storage write status 0'')) False)"

definition applyDeleteResult :: "DeleteResult \<Rightarrow> deleteResult \<Rightarrow> DeleteResult" where
  "applyDeleteResult r stored =
     (case sx_status stored of
        DeleteStatusApplied \<Rightarrow> r\<lparr>dres_status := DS_APPLIED\<rparr>
      | DeleteStatusFailed \<Rightarrow>
          (let (code, retryable) = storageFailureDetails (sx_err stored) in setDeleteFailure r code (sx_err stored) retryable)
      | DeleteStatusUnspecified \<Rightarrow>
          setDeleteFailure r FC_INTERNAL (Some (ErrText ''unsupported storage delete status 0'')) False)"

definition convertDocument ::
    "(bytes \<Rightarrow> bool) \<Rightarrow> (bytes \<Rightarrow> string option) \<Rightarrow> Document option \<Rightarrow> string + storageDocument" where
  "convertDocument json bson document =
     (case document of
        None \<Rightarrow> Inl ''document is required''
      | Some d \<Rightarrow>
          (let check = (\<lambda>enc.
                 let converted = \<lparr>sd_encoding = enc, sd_payload = d_payload d\<rparr> in
                 case ValidateDocument json bson converted of None \<Rightarrow> Inr converted | Some e \<Rightarrow> Inl e)
           in case d_encoding d of
                ENCODING_JSON \<Rightarrow> check EncodingJSON
              | ENCODING_BSON \<Rightarrow> check EncodingBSON
              | _ \<Rightarrow> Inl ''document encoding is required''))"

text \<open>
  \<open>boundResultFailures\<close>: every failure message is cut to its caller's share. \<open>owner\<close> gives the
  caller of an operation; the results are given by their failures.
\<close>

definition boundResultFailures :: "(nat \<Rightarrow> nat) \<Rightarrow> int \<Rightarrow> Failure option list \<Rightarrow> Failure option list" where
  "boundResultFailures owner maximum failures =
     (let counts = (\<lambda>o'. int (length (filter (\<lambda>i. owner i = o') [0..<length failures]))) in
      map (\<lambda>i. case failures ! i of
             None \<Rightarrow> None
           | Some f \<Rightarrow> Some (f\<lparr>f_message := boundedFailureMessage (f_message f) (failureMessageLimit (counts (owner i)) maximum)\<rparr>))
        [0..<length failures])"

section \<open>Messages stay valid and short\<close>

lemma utf8_valid_Nil [simp]: "utf8_valid []"
  by (simp add: utf8_valid.simps)







lemma ToValidUTF8_length: "length r \<le> 1 \<Longrightarrow> length (ToValidUTF8 b r s) \<le> length s"
proof (induction b r s rule: ToValidUTF8.induct)
  case (1 b r s)
  show ?case
  proof (cases "rune_width s")
    case None
    show ?thesis
    proof (cases "s = []")
      case False
      then have "Suc (length (ToValidUTF8 True r (drop 1 s))) \<le> length s"
        using 1(1)[OF False None 1(3)] by (cases s) simp_all
      then show ?thesis using None 1(3) by (simp add: ToValidUTF8.simps[of b r s])
    qed (simp add: ToValidUTF8.simps)
  next
    case (Some n)
    then have "s \<noteq> []" "n \<le> length s" using rune_width_bounds by fastforce+
    then show ?thesis using 1(2)[OF _ Some] 1(3) Some by (simp add: ToValidUTF8.simps[of b r s])
  qed
qed


lemma cut_back_le: "cut_back m e \<le> e"
  by (induction e) auto









lemma boundedFailureMessage_short:
  assumes "0 < maximum" "int (length message) \<le> maximum"
  shows "boundedFailureMessage message maximum = ToValidUTF8 False ''?'' message"
  using assms by (simp add: boundedFailureMessage_def)

lemma boundedFailureMessage_long:
  assumes "0 < maximum" "maximum < int (length message)"
  obtains e k where "k = nat (min 3 maximum)" "e = cut_back message (nat maximum - k)"
    and "boundedFailureMessage message maximum = ToValidUTF8 False ''?'' (take e message) @ take k ''...''"
    and "int e + int k \<le> maximum" "e < length message"
proof -
  define k where "k = nat (min 3 maximum)"
  define e where "e = cut_back message (nat maximum - k)"
  have k: "k \<le> 3" "int k \<le> maximum" using assms(1) by (auto simp: k_def)
  have "int e + int k \<le> maximum" using k cut_back_le[of message "nat maximum - k"] by (simp add: e_def)
  moreover from this have "e < length message" using assms(2) by linarith
  moreover have "length (take k ''...'') = k" using k(1) by simp
  then have "boundedFailureMessage message maximum = ToValidUTF8 False ''?'' (take e message) @ take k ''...''"
    using assms by (simp add: boundedFailureMessage_def Let_def e_def k_def)
  ultimately show thesis using that e_def k_def by blast
qed



section \<open>The failures of a response\<close>

lemma boundedFailureMessage_within:
  assumes "0 < maximum"
  shows "int (length (boundedFailureMessage message maximum)) \<le> maximum"
proof (cases "int (length message) \<le> maximum")
  case True
  have "length (ToValidUTF8 False ''?'' message) \<le> length message" by (rule ToValidUTF8_length) simp
  then show ?thesis using boundedFailureMessage_short[OF assms True] True by simp
next
  case False
  then have "maximum < int (length message)" by simp
  from boundedFailureMessage_long[OF assms this] obtain e k where
    m: "boundedFailureMessage message maximum = ToValidUTF8 False ''?'' (take e message) @ take k ''...''"
    and b: "int e + int k \<le> maximum" by metis
  have "length (ToValidUTF8 False ''?'' (take e message)) \<le> length (take e message)" by (rule ToValidUTF8_length) simp
  then have "length (ToValidUTF8 False ''?'' (take e message)) \<le> e" by simp
  moreover have "length (take k ''...'') \<le> k" by simp
  ultimately show ?thesis using b unfolding m length_append by linarith
qed

lemma ToValidUTF8_nonempty: "s \<noteq> [] \<Longrightarrow> r \<noteq> [] \<Longrightarrow> ToValidUTF8 False r s \<noteq> []"
  by (auto simp: ToValidUTF8.simps[of False r s] split: option.splits dest: rune_width_bounds)

lemma boundedFailureMessage_nonempty:
  assumes "0 < maximum" "message \<noteq> []"
  shows "boundedFailureMessage message maximum \<noteq> []"
proof (cases "int (length message) \<le> maximum")
  case True
  then show ?thesis using boundedFailureMessage_short[OF assms(1)] ToValidUTF8_nonempty[OF assms(2)] by simp
next
  case False
  then have "maximum < int (length message)" by simp
  from boundedFailureMessage_long[OF assms(1) this] obtain e k where k: "k = nat (min 3 maximum)"
    and m: "boundedFailureMessage message maximum = ToValidUTF8 False ''?'' (take e message) @ take k ''...''" by metis
  have "take k ''...'' \<noteq> []" using assms(1) by (simp add: k)
  then show ?thesis unfolding m by simp
qed

lemma failureMessageLimit_positive: "0 < failureMessageLimit operations maximum"
  by (simp add: failureMessageLimit_def maxFailureMessageBytes_def)

lemma failureMessageLimit_share:
  assumes "0 < operations"
  shows "operations * (failureMessageLimit operations maximum + 128) \<le> max maximum (129 * operations)"
    "operations * (failureMessageLimit operations maximum + 128) \<le> failureResponseBytes operations"
proof -
  have "operations * (failureMessageLimit operations maximum + 128) \<le> operations * max 129 (maximum div operations)"
    using assms by (intro mult_left_mono) (simp_all add: failureMessageLimit_def)
  also have "\<dots> \<le> max (operations * 129) (operations * (maximum div operations))" by (simp add: max_def)
  finally have "operations * (failureMessageLimit operations maximum + 128) \<le> max (operations * 129) (operations * (maximum div operations))" .
  moreover have "operations * (maximum div operations) \<le> maximum"
    using assms by (simp add: minus_mod_eq_mult_div[symmetric])
  ultimately show "operations * (failureMessageLimit operations maximum + 128) \<le> max maximum (129 * operations)"
    by linarith
  show "operations * (failureMessageLimit operations maximum + 128) \<le> failureResponseBytes operations"
    unfolding failureResponseBytes_def using assms by (intro mult_left_mono) (simp_all add: failureMessageLimit_def)
qed

text \<open>The operations of a caller and what their failures take in its response, with their envelopes.\<close>

definition caller_operations :: "(nat \<Rightarrow> nat) \<Rightarrow> nat \<Rightarrow> Failure option list \<Rightarrow> nat list" where
  "caller_operations owner caller failures = filter (\<lambda>i. owner i = caller) [0..<length failures]"

definition caller_failure_bytes :: "(nat \<Rightarrow> nat) \<Rightarrow> nat \<Rightarrow> Failure option list \<Rightarrow> int" where
  "caller_failure_bytes owner caller failures =
     (\<Sum>i \<leftarrow> caller_operations owner caller failures.
        case failures ! i of None \<Rightarrow> 0 | Some f \<Rightarrow> int (length (f_message f)) + 128)"

lemma boundResultFailures_nth:
  "length (boundResultFailures owner maximum failures) = length failures"
  "i < length failures \<Longrightarrow> boundResultFailures owner maximum failures ! i =
     map_option (\<lambda>f. f\<lparr>f_message := boundedFailureMessage (f_message f)
       (failureMessageLimit (int (length (caller_operations owner (owner i) failures))) maximum)\<rparr>) (failures ! i)"
  by (simp_all add: boundResultFailures_def Let_def caller_operations_def split: option.splits)

lemma caller_failures_bounded:
  "caller_failure_bytes owner caller (boundResultFailures owner maximum failures) \<le>
     int (length (caller_operations owner caller failures)) *
       (failureMessageLimit (int (length (caller_operations owner caller failures))) maximum + 128)"
proof -
  let ?ops = "caller_operations owner caller failures"
  let ?limit = "failureMessageLimit (int (length ?ops)) maximum"
  have same: "caller_operations owner caller (boundResultFailures owner maximum failures) = ?ops"
    by (simp add: caller_operations_def boundResultFailures_nth(1))
  have "(case boundResultFailures owner maximum failures ! i of None \<Rightarrow> 0 | Some f \<Rightarrow> int (length (f_message f)) + 128) \<le> ?limit + 128"
    if "i \<in> set ?ops" for i
  proof -
    have "i < length failures" "owner i = caller" using that by (simp_all add: caller_operations_def)
    then show ?thesis
      using boundedFailureMessage_within[OF failureMessageLimit_positive] failureMessageLimit_positive[of "int (length ?ops)" maximum]
      by (auto simp: boundResultFailures_nth(2) split: option.splits)
  qed
  then have "caller_failure_bytes owner caller (boundResultFailures owner maximum failures) \<le> (\<Sum>i \<leftarrow> ?ops. ?limit + 128)"
    unfolding caller_failure_bytes_def same by (intro sum_list_mono)
  then show ?thesis by (simp add: sum_list_triv)
qed

text \<open>
  C17: the failures of a response fit in it. Whatever failures the operations of a batch end with, after
  \<open>boundResultFailures\<close> those of each caller, messages and envelopes of 128 bytes together, take at most
  the response limit, and at most the bytes reserved for them, provided the limit has room for a message
  of one byte for each of the caller's operations; below that they take one byte each. A result keeps its
  failure, with its code and a message that is not empty when it was not.
\<close>

theorem failure_shares_fit:
  "let bounded = boundResultFailures owner maximum failures;
       operations = int (length (caller_operations owner caller failures)) in
   caller_failure_bytes owner caller bounded \<le> max maximum (129 * operations) \<and>
   caller_failure_bytes owner caller bounded \<le> failureResponseBytes operations \<and>
   length bounded = length failures \<and>
   (\<forall>i < length failures.
      rel_option (\<lambda>f f'. f_code f' = f_code f \<and> f_retryable f' = f_retryable f \<and> (f_message f \<noteq> [] \<longrightarrow> f_message f' \<noteq> []))
        (failures ! i) (bounded ! i))"
proof -
  let ?b = "boundResultFailures owner maximum failures"
  let ?n = "int (length (caller_operations owner caller failures))"
  have fit: "caller_failure_bytes owner caller ?b \<le> max maximum (129 * ?n) \<and> caller_failure_bytes owner caller ?b \<le> failureResponseBytes ?n"
  proof (cases "?n = 0")
    case True
    then show ?thesis using caller_failures_bounded[of owner caller maximum failures] by (simp add: failureResponseBytes_def)
  next
    case False
    then have "0 < ?n" by simp
    from failureMessageLimit_share[OF this, of maximum] show ?thesis
      using caller_failures_bounded[of owner caller maximum failures] by linarith
  qed
  have "rel_option (\<lambda>f f'. f_code f' = f_code f \<and> f_retryable f' = f_retryable f \<and> (f_message f \<noteq> [] \<longrightarrow> f_message f' \<noteq> []))
      (failures ! i) (?b ! i)" if "i < length failures" for i
    using that boundedFailureMessage_nonempty[OF failureMessageLimit_positive]
    by (cases "failures ! i") (simp_all add: boundResultFailures_nth(2))
  then show ?thesis using fit by (simp add: Let_def boundResultFailures_nth(1))
qed

text \<open>Two callers with two operations and one; three failures share responses of 270 bytes.\<close>

definition demo_failures :: "Failure option list" where
  "demo_failures =
     (let f = \<lparr>f_code = FC_INTERNAL, f_message = ''storage is down'', f_retryable = True\<rparr> in [Some f, Some f, Some f])"

theorem failure_shares_fit_witness:
  "map (map_option f_message) (boundResultFailures (\<lambda>i. if i = 1 then 1 else 0) 270 demo_failures) =
     [Some ''stor...'', Some ''storage is down'', Some ''stor...''] \<and>
   caller_failure_bytes (\<lambda>i. if i = 1 then 1 else 0) 0 (boundResultFailures (\<lambda>i. if i = 1 then 1 else 0) 270 demo_failures) \<le> 270"
proof -
  have "map (map_option f_message) (boundResultFailures (\<lambda>i. if i = 1 then 1 else 0) 270 demo_failures) =
     [Some ''stor...'', Some ''storage is down'', Some ''stor...'']" by code_simp
  moreover have "length (caller_operations (\<lambda>i. if i = 1 then 1 else 0) 0 demo_failures) = 2" by code_simp
  ultimately show ?thesis
    using failure_shares_fit[of "\<lambda>i. if i = 1 then 1 else 0" 270 demo_failures 0] by (simp add: Let_def)
qed

end
