(* ===== verification/Memory_Store.thy ===== *)
theory Memory_Store
  imports Read_Budget
begin

text \<open>
  The in-memory store, \<open>src/internal/storage/memory/memory.go\<close>, and the contract of a
  compare-and-set store that the write path relies on. A method of the store runs under its mutex,
  so it is a function on the store. Documents and revisions are values, so cloning is the identity.
\<close>

unbundle bit_operations_syntax

section \<open>The store\<close>

record mem_record =
  mr_document :: storageDocument
  mr_revision :: bytes

record mem_store =
  ms_records :: "string \<rightharpoonup> mem_record"
  ms_nextRevision :: uint64

definition mem_New :: mem_store where
  "mem_New = \<lparr>ms_records = Map.empty, ms_nextRevision = 0\<rparr>"

definition Seed :: "Address \<Rightarrow> storageDocument \<Rightarrow> bytes \<Rightarrow> mem_store \<Rightarrow> mem_store" where
  "Seed a d r s = s\<lparr>ms_records := (ms_records s)(ad_routingKey a \<mapsto> \<lparr>mr_document = d, mr_revision = r\<rparr>)\<rparr>"

text \<open>
  \<open>Read\<close>. An operation is its address and its own budget, if it has one; a request without a budget
  gets a fresh default one. \<open>out\<close> and \<open>grow\<close> are what the memory pool answers in the world \<open>'w\<close>.
\<close>

fun mem_read_loop ::
    "(int \<Rightarrow> 'w \<Rightarrow> err option \<times> 'w) \<Rightarrow> (int \<Rightarrow> 'w \<Rightarrow> err option \<times> 'w) \<Rightarrow> mem_store \<Rightarrow> readBudget \<Rightarrow>
     (Address \<times> readBudget option) list \<Rightarrow> cells \<Rightarrow> 'w \<Rightarrow> readResult list \<times> cells \<times> 'w" where
  "mem_read_loop out grow s request [] cs w = ([], cs, w)"
| "mem_read_loop out grow s request ((a, own) # ops) cs w =
     (case ms_records s (ad_routingKey a) of
        None \<Rightarrow>
          (let (rs, cs', w') = mem_read_loop out grow s request ops cs w in
           (empty_readResult\<lparr>rr_status := ReadStatusNotFound\<rparr> # rs, cs', w'))
      | Some stored \<Rightarrow>
          (let budget = (case own of None \<Rightarrow> request | Some b \<Rightarrow> b);
               (e, cs1, w1) = Reserve out grow budget (int (length (sd_payload (mr_document stored)))) cs w;
               (rs, cs', w') = mem_read_loop out grow s request ops cs1 w1
           in ((case e of
                 Some e' \<Rightarrow> empty_readResult\<lparr>rr_status := ReadStatusFailed, rr_err := Some e'\<rparr>
               | None \<Rightarrow> \<lparr>rr_status = ReadStatusFound, rr_document = mr_document stored,
                          rr_revision = mr_revision stored, rr_err = None\<rparr>) # rs, cs', w')))"

definition mem_Read ::
    "(int \<Rightarrow> 'w \<Rightarrow> err option \<times> 'w) \<Rightarrow> (int \<Rightarrow> 'w \<Rightarrow> err option \<times> 'w) \<Rightarrow> mem_store \<Rightarrow> readBudget option \<Rightarrow>
     (Address \<times> readBudget option) list \<Rightarrow> cells \<Rightarrow> 'w \<Rightarrow> readResult list \<times> cells \<times> 'w" where
  "mem_Read out grow s budget ops cs w =
     (let (request, cs1) = (case budget of Some b \<Rightarrow> (b, cs) | None \<Rightarrow> NewReadBudget DefaultMaxReadBytes cs)
      in mem_read_loop out grow s request ops cs1 w)"

text \<open>\<open>binary.BigEndian.PutUint64\<close>.\<close>

definition PutUint64 :: "uint64 \<Rightarrow> bytes" where
  "PutUint64 v = map (\<lambda>i. ucast (drop_bit (56 - 8 * i) v)) [0..<8]"

definition newRevisionLocked :: "mem_store \<Rightarrow> bytes \<times> mem_store" where
  "newRevisionLocked s =
     (let n = ms_nextRevision s + 1 in (PutUint64 n, s\<lparr>ms_nextRevision := n\<rparr>))"

definition preconditionMatches :: "precondition \<Rightarrow> mem_record option \<Rightarrow> err + bool" where
  "preconditionMatches condition stored =
     (case pc_kind condition of
        PreconditionNone \<Rightarrow> Inr True
      | PreconditionRecordExists \<Rightarrow> Inr (stored \<noteq> None)
      | PreconditionRecordNotExists \<Rightarrow> Inr (stored = None)
      | PreconditionRevisionMatches \<Rightarrow>
          Inr (case stored of None \<Rightarrow> False | Some r \<Rightarrow> mr_revision r = pc_revision condition)
      | PreconditionRevisionAbsent \<Rightarrow>
          Inr (case stored of None \<Rightarrow> False | Some r \<Rightarrow> length (mr_revision r) = 0)
      | PreconditionOther k \<Rightarrow> Inl (ErrText (''unsupported precondition kind '' @ dec k)))"

text \<open>One iteration of the loop of \<open>Write\<close>.\<close>

definition mem_write1 :: "writeOperation \<Rightarrow> mem_store \<Rightarrow> writeResult \<times> mem_store" where
  "mem_write1 operation s =
     (let key = ad_routingKey (so_address operation) in
      case preconditionMatches (so_precondition operation) (ms_records s key) of
        Inl e \<Rightarrow> (empty_writeResult\<lparr>sw_status := WriteStatusFailed, sw_err := Some e\<rparr>, s)
      | Inr False \<Rightarrow> (empty_writeResult\<lparr>sw_status := WriteStatusPreconditionFailed\<rparr>, s)
      | Inr True \<Rightarrow>
          (let (revision, s1) = newRevisionLocked s in
           (empty_writeResult\<lparr>sw_status := WriteStatusApplied, sw_revision := revision\<rparr>,
            s1\<lparr>ms_records := (ms_records s1)(key \<mapsto> \<lparr>mr_document = so_document operation, mr_revision = revision\<rparr>)\<rparr>)))"

fun mem_Write :: "writeOperation list \<Rightarrow> mem_store \<Rightarrow> writeResult list \<times> mem_store" where
  "mem_Write [] s = ([], s)"
| "mem_Write (operation # ops) s =
     (let (r, s1) = mem_write1 operation s; (rs, s2) = mem_Write ops s1 in (r # rs, s2))"

fun mem_Delete :: "Address list \<Rightarrow> mem_store \<Rightarrow> deleteResult list \<times> mem_store" where
  "mem_Delete [] s = ([], s)"
| "mem_Delete (a # ops) s =
     (let (rs, s') = mem_Delete ops (s\<lparr>ms_records := (ms_records s)(ad_routingKey a := None)\<rparr>)
      in (\<lparr>sx_status = DeleteStatusApplied, sx_err = None\<rparr> # rs, s'))"

text \<open>\<open>BatchKey\<close>; \<open>uri_new\<close> is \<open>uri.New\<close> of sink-go followed by \<open>String\<close>.\<close>

definition mem_BatchKey :: "(string \<Rightarrow> string list \<Rightarrow> string + string) \<Rightarrow> Address \<Rightarrow> string + string" where
  "mem_BatchKey uri_new a =
     (let parts = ad_segments a in
      if length parts < 2 then Inl ''memory record URI requires resource/key''
      else uri_new (ad_store a) (butlast parts))"

section \<open>The contract of a compare-and-set store\<close>

text \<open>When a record, as its document and revision, satisfies a precondition.\<close>

fun condition_holds :: "precondition \<Rightarrow> (storageDocument \<times> bytes) option \<Rightarrow> bool" where
  "condition_holds c None = (pc_kind c = PreconditionNone \<or> pc_kind c = PreconditionRecordNotExists)"
| "condition_holds c (Some (d, r)) =
     (pc_kind c = PreconditionNone \<or> pc_kind c = PreconditionRecordExists \<or>
      pc_kind c = PreconditionRevisionMatches \<and> r = pc_revision c \<or>
      pc_kind c = PreconditionRevisionAbsent \<and> r = [])"

text \<open>The precondition under which a candidate computed from a snapshot may be committed.\<close>

fun snapshot_condition :: "(storageDocument \<times> bytes) option \<Rightarrow> precondition" where
  "snapshot_condition None = \<lparr>pc_kind = PreconditionRecordNotExists, pc_revision = []\<rparr>"
| "snapshot_condition (Some (d, r)) =
     (if length r = 0 then \<lparr>pc_kind = PreconditionRevisionAbsent, pc_revision = []\<rparr>
      else \<lparr>pc_kind = PreconditionRevisionMatches, pc_revision = r\<rparr>)"

text \<open>
  \<open>evolve s s'\<close> is what any clients may have done to the store between two moments. A revision
  identifies the document it was given to, an applied write saw its precondition hold and replaces
  one record, any other write changes nothing.
\<close>

locale cas_store =
  fixes rec_of :: "'s \<Rightarrow> string \<Rightarrow> (storageDocument \<times> bytes) option"
    and write1 :: "writeOperation \<Rightarrow> 's \<Rightarrow> writeResult \<times> 's"
    and evolve :: "'s \<Rightarrow> 's \<Rightarrow> bool"
    and inv :: "'s \<Rightarrow> bool"
  assumes identifies: "inv s \<Longrightarrow> evolve s s' \<Longrightarrow> rec_of s k = Some (d, r) \<Longrightarrow> rec_of s' k = Some (d', r) \<Longrightarrow> d' = d"
    and evolve_inv: "inv s \<Longrightarrow> evolve s s' \<Longrightarrow> inv s'"
    and applied: "write1 w s = (x, s') \<Longrightarrow> sw_status x = WriteStatusApplied \<Longrightarrow>
      condition_holds (so_precondition w) (rec_of s (ad_routingKey (so_address w))) \<and>
      rec_of s' = (rec_of s)(ad_routingKey (so_address w) \<mapsto> (so_document w, sw_revision x))"
    and rejected: "write1 w s = (x, s') \<Longrightarrow> sw_status x \<noteq> WriteStatusApplied \<Longrightarrow> rec_of s' = rec_of s"
begin

lemma snapshot_current:
  assumes "inv s" "evolve s s'" "condition_holds (snapshot_condition (rec_of s k)) (rec_of s' k)"
  shows "rec_of s' k = rec_of s k"
proof (cases "rec_of s k")
  case None
  then show ?thesis using assms(3) by (cases "rec_of s' k") auto
next
  case (Some dr)
  obtain d r where dr: "dr = (d, r)" by fastforce
  then obtain d' where "rec_of s' k = Some (d', r)"
    using assms(3) Some by (cases "rec_of s' k") (auto split: if_splits)
  then show ?thesis using identifies[OF assms(1,2), of k d r d'] Some dr by simp
qed

text \<open>
  A write of \<open>f\<close> of a snapshot, under the snapshot's precondition, either changes nothing or is an
  atomic application of \<open>f\<close> to the record as it is at that moment.
\<close>

lemma commit_atomic:
  assumes "inv s" "evolve s s'" "so_precondition w = snapshot_condition (rec_of s k)"
    and "k = ad_routingKey (so_address w)" "so_document w = f (rec_of s k)" "write1 w s' = (x, s'')"
  shows "rec_of s'' = (if sw_status x = WriteStatusApplied
                       then (rec_of s')(k \<mapsto> (f (rec_of s' k), sw_revision x)) else rec_of s')"
proof (cases "sw_status x = WriteStatusApplied")
  case True
  note a = applied[OF assms(6) True]
  then have "rec_of s' k = rec_of s k" using snapshot_current[OF assms(1,2)] assms(3,4) by simp
  then show ?thesis using a True assms(4,5) by simp
qed (use rejected[OF assms(6)] in simp)

end

section \<open>The memory store meets the contract\<close>

definition mem_rec :: "mem_store \<Rightarrow> string \<Rightarrow> (storageDocument \<times> bytes) option" where
  "mem_rec s k = map_option (\<lambda>r. (mr_document r, mr_revision r)) (ms_records s k)"

text \<open>Every revision was produced by the counter, or is absent (a legacy record).\<close>

definition mem_inv :: "mem_store \<Rightarrow> bool" where
  "mem_inv s \<longleftrightarrow> (\<forall>k d r. mem_rec s k = Some (d, r) \<longrightarrow> r = [] \<or> (\<exists>v. r = PutUint64 v \<and> v \<le> ms_nextRevision s))"

text \<open>One write or delete by anyone, while the 64-bit counter has room.\<close>

inductive mem_step :: "mem_store \<Rightarrow> mem_store \<Rightarrow> bool" where
  put: "ms_nextRevision s < - 1 \<Longrightarrow> mem_step s (snd (mem_write1 operation s))"
| delete: "mem_step s (snd (mem_Delete [a] s))"

lemma PutUint64_bit:
  assumes "n < 64"
  shows "bit (PutUint64 v ! (7 - n div 8)) (n mod 8) = bit v n"
proof -
  define i where "i = n div 8"
  define j where "j = n mod 8"
  have ij: "i < 8" "j < 8" "n = 8 * i + j" using assms unfolding i_def j_def by auto
  have "56 - 8 * (7 - i) + j = n" "[0..<8] ! (7 - i) = 7 - i" using ij nth_upt[of 0 "7 - i" 8] by simp_all
  then show ?thesis
    using ij by (simp add: PutUint64_def bit_ucast_iff bit_drop_bit_eq flip: i_def j_def del: upt_rec_numeral)
qed

lemma PutUint64_inj: "PutUint64 v = PutUint64 w \<Longrightarrow> v = w"
  using PutUint64_bit[of _ v] PutUint64_bit[of _ w] by (intro bit_word_eqI) simp

lemma PutUint64_not_Nil [simp]: "PutUint64 v \<noteq> []"
  by (simp add: PutUint64_def)

lemma preconditionMatches_holds:
  "preconditionMatches c (ms_records s k) = Inr b \<Longrightarrow> b = condition_holds c (mem_rec s k)"
  by (cases "ms_records s k") (auto simp: preconditionMatches_def mem_rec_def split: preconditionKind.splits)

lemma mem_write1_cases:
  obtains (applied) "condition_holds (so_precondition w) (mem_rec s (ad_routingKey (so_address w)))"
      "mem_rec (snd (mem_write1 w s)) = (mem_rec s)(ad_routingKey (so_address w) \<mapsto> (so_document w, PutUint64 (ms_nextRevision s + 1)))"
      "ms_nextRevision (snd (mem_write1 w s)) = ms_nextRevision s + 1"
      "fst (mem_write1 w s) = empty_writeResult\<lparr>sw_status := WriteStatusApplied, sw_revision := PutUint64 (ms_nextRevision s + 1)\<rparr>"
  | (rejected) "snd (mem_write1 w s) = s" "sw_status (fst (mem_write1 w s)) \<noteq> WriteStatusApplied"
proof -
  let ?k = "ad_routingKey (so_address w)"
  show thesis
  proof (cases "preconditionMatches (so_precondition w) (ms_records s ?k)")
    case (Inl e)
    then show thesis by (intro rejected) (simp_all add: mem_write1_def empty_writeResult_def)
  next
    case (Inr b)
    show thesis
    proof (cases b)
      case True
      with Inr have "condition_holds (so_precondition w) (mem_rec s ?k)" using preconditionMatches_holds by blast
      then show thesis using Inr True
        by (intro applied) (auto simp: mem_write1_def newRevisionLocked_def Let_def mem_rec_def)
    next
      case False
      then show thesis using Inr by (intro rejected) (simp_all add: mem_write1_def empty_writeResult_def)
    qed
  qed
qed

lemma mem_rec_delete: "mem_rec (snd (mem_Delete [a] s)) = (mem_rec s)(ad_routingKey a := None)"
  "ms_nextRevision (snd (mem_Delete [a] s)) = ms_nextRevision s"
  by (auto simp: mem_rec_def)

text \<open>A revision that was issued before a step is not issued again by it.\<close>

definition stays :: "string \<Rightarrow> storageDocument \<Rightarrow> bytes \<Rightarrow> mem_store \<Rightarrow> bool" where
  "stays k d r s \<longleftrightarrow> (\<forall>d'. mem_rec s k = Some (d', r) \<longrightarrow> d' = d) \<and>
     (r = [] \<or> (\<exists>v. r = PutUint64 v \<and> v \<le> ms_nextRevision s))"

lemma word_step: "v \<le> n \<Longrightarrow> n < - 1 \<Longrightarrow> v \<le> n + 1 \<and> v \<noteq> n + 1" for v n :: uint64
  using unatSuc[of n] by (simp add: word_le_nat_alt word_less_nat_alt unat_eq_zero add.commute)
    (metis add_eq_0_iff_both_eq_0 add.inverse_unique less_irrefl nat_le_linear not_less_eq_eq)

lemma mem_step_stays: "mem_step s s' \<Longrightarrow> stays k d r s \<Longrightarrow> stays k d r s'"
proof (induction rule: mem_step.induct)
  case (put s w)
  show ?case
  proof (cases rule: mem_write1_cases[of w s])
    case applied
    show ?thesis
      using put word_step[of _ "ms_nextRevision s"] PutUint64_inj unfolding stays_def applied(2,3)
      by (auto split: if_splits)
  qed (use put in simp)
qed (auto simp: stays_def mem_rec_delete simp del: mem_Delete.simps split: if_splits)

lemma mem_step_inv: "mem_step s s' \<Longrightarrow> mem_inv s \<Longrightarrow> mem_inv s'"
proof (induction rule: mem_step.induct)
  case (put s w)
  show ?case
  proof (cases rule: mem_write1_cases[of w s])
    case applied
    have "r = [] \<or> (\<exists>v. r = PutUint64 v \<and> v \<le> ms_nextRevision s + 1)" if "mem_rec s k = Some (d, r)" for k d r
      using put that word_step[of _ "ms_nextRevision s"] unfolding mem_inv_def by blast
    then show ?thesis unfolding mem_inv_def applied(2,3) by (auto split: if_splits)
  qed (use put in simp)
qed (auto simp: mem_inv_def mem_rec_delete simp del: mem_Delete.simps split: if_splits)

interpretation mem: cas_store mem_rec mem_write1 "mem_step\<^sup>*\<^sup>*" mem_inv
proof
  fix s s' k d r d'
  assume "mem_inv s" "mem_step\<^sup>*\<^sup>* s s'" "mem_rec s k = Some (d, r)" "mem_rec s' k = Some (d', r)"
  moreover from this have "stays k d r s" by (auto simp: stays_def mem_inv_def)
  with calculation(2) have "stays k d r s'" by (induction rule: rtranclp_induct) (auto intro: mem_step_stays)
  ultimately show "d' = d" by (simp add: stays_def)
next
  fix s s' assume i: "mem_inv s" and "mem_step\<^sup>*\<^sup>* s s'"
  from this(2) i show "mem_inv s'" by (induction rule: rtranclp_induct) (auto intro: mem_step_inv)
next
  fix w s x s' assume "mem_write1 w s = (x, s')" "sw_status x = WriteStatusApplied"
  then show "condition_holds (so_precondition w) (mem_rec s (ad_routingKey (so_address w))) \<and>
      mem_rec s' = (mem_rec s)(ad_routingKey (so_address w) \<mapsto> (so_document w, sw_revision x))"
    by (cases rule: mem_write1_cases[of w s]) (auto simp: empty_writeResult_def)
next
  fix w s x s' assume "mem_write1 w s = (x, s')" "sw_status x \<noteq> WriteStatusApplied"
  then show "mem_rec s' = mem_rec s"
    by (cases rule: mem_write1_cases[of w s]) (auto simp: empty_writeResult_def)
qed

section \<open>Properties\<close>

abbreviation op_key :: "writeOperation \<Rightarrow> string" where
  "op_key operation \<equiv> ad_routingKey (so_address operation)"

lemma mem_Write_untouched:
  assumes "mem_Write ops s = (rs, s')"
  shows "length rs = length ops \<and>
    ((\<forall>j < length ops. op_key (ops ! j) = k \<longrightarrow> sw_status (rs ! j) \<noteq> WriteStatusApplied) \<longrightarrow> mem_rec s' k = mem_rec s k)"
  using assms
proof (induction ops arbitrary: s rs)
  case (Cons w ops)
  obtain x s1 where x: "mem_write1 w s = (x, s1)" by fastforce
  obtain rs1 where r: "mem_Write ops s1 = (rs1, s')" "rs = x # rs1"
    using Cons.prems x by (auto split: prod.splits)
  have "mem_rec s1 k = mem_rec s k" if "op_key w = k \<longrightarrow> sw_status x \<noteq> WriteStatusApplied"
    using that mem.applied[OF x] mem.rejected[OF x] by (cases "sw_status x = WriteStatusApplied") auto
  then show ?case using Cons.IH[OF r(1)] r(2) by (auto simp: nth_Cons' split: if_splits)
qed simp

lemma mem_Write_last:
  assumes "mem_Write ops s = (rs, s')" "i < length ops" "sw_status (rs ! i) = WriteStatusApplied"
    and "\<And>j. i < j \<Longrightarrow> j < length ops \<Longrightarrow> op_key (ops ! j) = op_key (ops ! i) \<Longrightarrow> sw_status (rs ! j) \<noteq> WriteStatusApplied"
  shows "mem_rec s' (op_key (ops ! i)) = Some (so_document (ops ! i), sw_revision (rs ! i))"
  using assms
proof (induction ops arbitrary: s rs i)
  case (Cons w ops)
  obtain x s1 where x: "mem_write1 w s = (x, s1)" by fastforce
  obtain rs1 where r: "mem_Write ops s1 = (rs1, s')" "rs = x # rs1"
    using Cons.prems(1) x by (auto split: prod.splits)
  show ?case
  proof (cases i)
    case 0
    have "sw_status (rs1 ! j) \<noteq> WriteStatusApplied" if "j < length ops" "op_key (ops ! j) = op_key w" for j
      using Cons.prems(4)[of "Suc j"] that 0 r(2) by simp
    then have "mem_rec s' (op_key w) = mem_rec s1 (op_key w)" using mem_Write_untouched[OF r(1)] by blast
    then show ?thesis using mem.applied[OF x] Cons.prems(3) 0 r(2) by simp
  next
    case (Suc n)
    have "mem_rec s' (op_key (ops ! n)) = Some (so_document (ops ! n), sw_revision (rs1 ! n))"
      using Cons.prems(2,3) Cons.prems(4)[of "Suc _"] Suc r(2) by (intro Cons.IH[OF r(1)]) simp_all
    then show ?thesis using Suc r(2) by simp
  qed
qed simp

lemma mem_Read_single:
  assumes "mem_rec s (ad_routingKey a) = Some (d, r)"
  shows "fst (mem_Read out grow s (Some request) [(a, Some b)] cs w) =
    [case fst (Reserve out grow b (int (length (sd_payload d))) cs w) of
       None \<Rightarrow> \<lparr>rr_status = ReadStatusFound, rr_document = d, rr_revision = r, rr_err = None\<rparr>
     | Some e \<Rightarrow> empty_readResult\<lparr>rr_status := ReadStatusFailed, rr_err := Some e\<rparr>]"
  using assms by (auto simp: mem_rec_def mem_Read_def Let_def case_prod_beta)

text \<open>
  C18: the memory store returns what was written. After a batch of writes, reading a record whose
  last applied write in the batch is operation \<open>i\<close> yields that operation's document and the revision
  its result reported, or the error of the read budget when the budget refuses the document. A record
  no operation of the batch was applied to is unchanged.
\<close>

theorem mem_write_read_roundtrip:
  assumes "mem_Write ops s = (rs, s')" "i < length ops" "sw_status (rs ! i) = WriteStatusApplied"
    and "\<forall>j \<in> set [Suc i..<length ops]. op_key (ops ! j) = op_key (ops ! i) \<longrightarrow> sw_status (rs ! j) \<noteq> WriteStatusApplied"
  shows "fst (mem_Read out grow s' (Some request) [(so_address (ops ! i), Some b)] cs w) =
      [case fst (Reserve out grow b (int (length (sd_payload (so_document (ops ! i))))) cs w) of
         None \<Rightarrow> \<lparr>rr_status = ReadStatusFound, rr_document = so_document (ops ! i), rr_revision = sw_revision (rs ! i), rr_err = None\<rparr>
       | Some e \<Rightarrow> empty_readResult\<lparr>rr_status := ReadStatusFailed, rr_err := Some e\<rparr>] \<and>
    (\<forall>k. (\<forall>j < length ops. op_key (ops ! j) = k \<longrightarrow> sw_status (rs ! j) \<noteq> WriteStatusApplied) \<longrightarrow> mem_rec s' k = mem_rec s k)"
proof -
  have "mem_rec s' (op_key (ops ! i)) = Some (so_document (ops ! i), sw_revision (rs ! i))"
    using assms(4) by (intro mem_Write_last[OF assms(1-3)]) simp
  from mem_Read_single[OF this] show ?thesis using mem_Write_untouched[OF assms(1)] by simp
qed

definition demo_address :: "string \<Rightarrow> Address" where
  "demo_address k = \<lparr>ad_store = ''s'', ad_segments = [''c'', k], ad_string = ''s/c/'' @ k, ad_routingKey = ''s/c/'' @ k\<rparr>"

definition demo_put :: "string \<Rightarrow> bytes \<Rightarrow> preconditionKind \<Rightarrow> writeOperation" where
  "demo_put k payload kind =
     \<lparr>so_address = demo_address k, so_document = \<lparr>sd_encoding = EncodingJSON, sd_payload = payload\<rparr>,
      so_precondition = \<lparr>pc_kind = kind, pc_revision = []\<rparr>\<rparr>"

definition demo_batch :: "writeOperation list" where
  "demo_batch = [demo_put ''a'' [1] PreconditionRecordNotExists, demo_put ''a'' [2] PreconditionRecordNotExists,
     demo_put ''b'' [3] PreconditionNone]"

text \<open>A creation, a refused second creation and an upsert of another record.\<close>

theorem mem_write_read_roundtrip_witness:
  "map sw_status (fst (mem_Write demo_batch mem_New)) = [WriteStatusApplied, WriteStatusPreconditionFailed, WriteStatusApplied] \<and>
   map rr_document (fst (mem_Read (\<lambda>_ w. (None, w)) (\<lambda>_ w. (None, w)) (snd (mem_Write demo_batch mem_New)) (Some (Plain 0))
     [(demo_address ''a'', Some (Plain 0))] [\<lparr>rb_remaining = 1000, rb_maximum = 1000, rb_tracked = False, rb_reports = []\<rparr>] ()))
   = [\<lparr>sd_encoding = EncodingJSON, sd_payload = [1]\<rparr>]"
proof -
  let ?cs = "[\<lparr>rb_remaining = 1000, rb_maximum = 1000, rb_tracked = False, rb_reports = []\<rparr>] :: cells"
  let ?free = "\<lambda>(_ :: int) (w :: unit). (None :: err option, w)"
  let ?rs = "fst (mem_Write demo_batch mem_New)"
  have run: "mem_Write demo_batch mem_New = (?rs, snd (mem_Write demo_batch mem_New))" by simp
  have i: "0 < length demo_batch" "sw_status (?rs ! 0) = WriteStatusApplied"
    "\<forall>j \<in> set [Suc 0..<length demo_batch]. op_key (demo_batch ! j) = op_key (demo_batch ! 0) \<longrightarrow> sw_status (?rs ! j) \<noteq> WriteStatusApplied"
    by code_simp+
  have "fst (Reserve ?free ?free (Plain 0) 1 ?cs ()) = None"
    "map sw_status ?rs = [WriteStatusApplied, WriteStatusPreconditionFailed, WriteStatusApplied]" by code_simp+
  then show ?thesis
    using mem_write_read_roundtrip[OF run i, of ?free ?free "Plain 0" "Plain 0" ?cs "()"]
    by (simp add: demo_batch_def demo_put_def)
qed

end
