(* ===== verification/Write_Fold.thy ===== *)
theory Write_Fold
  imports Memory_Store Failures
begin

text \<open>
  Parsing write operations, grouping them by record and folding a group into one candidate:
  \<open>src/internal/service/write.go\<close> (parsing, grouping, merging) and \<open>write_group.go\<close>. The Lua engine is
  a parameter: \<open>compile\<close> says whether a program compiles and \<open>lua\<close> what running the merge of an
  operation on a current document gives during one attempt.
\<close>

section \<open>Parsed operations\<close>

record merge_program =
  mp_Source :: bytes
  mp_SHA256 :: bytes

record parsedPut =
  pp_document :: storageDocument
  pp_precondition :: precondition

record parsedMerge =
  pm_incoming :: storageDocument
  pm_program :: merge_program

record parsedWrite =
  pw_index :: nat
  pw_address :: Address
  pw_original :: WriteOperation
  pw_put :: "parsedPut option"
  pw_merge :: "parsedMerge option"
  pw_identity :: recordIdentity

definition no_precondition :: precondition where
  "no_precondition = \<lparr>pc_kind = PreconditionNone, pc_revision = []\<rparr>"

definition parsePut ::
    "(bytes \<Rightarrow> bool) \<Rightarrow> (bytes \<Rightarrow> string option) \<Rightarrow> PutOperation option \<Rightarrow> string + parsedPut" where
  "parsePut json bson operation =
     (case operation of
        None \<Rightarrow> Inl ''put operation is required''
      | Some p \<Rightarrow>
          (case convertDocument json bson (put_document p) of
             Inl e \<Rightarrow> Inl e
           | Inr d \<Rightarrow>
               (let parsed = (\<lambda>k. Inr \<lparr>pp_document = d, pp_precondition = no_precondition\<lparr>pc_kind := k\<rparr>\<rparr>) in
                case put_mode p of
                  WRITE_CREATE \<Rightarrow> parsed PreconditionRecordNotExists
                | WRITE_REPLACE \<Rightarrow> parsed PreconditionRecordExists
                | WRITE_UPSERT \<Rightarrow> parsed PreconditionNone
                | _ \<Rightarrow> Inl ''put operation has an invalid write mode'')))"

text \<open>\<open>parseLuaPrograms\<close>: the declared programs by digest.\<close>

definition parseLuaPrograms :: "LuaProgram option list \<Rightarrow> declaration_error + (bytes \<rightharpoonup> merge_program)" where
  "parseLuaPrograms programs =
     (case ValidateLuaDeclarations programs of
        Some e \<Rightarrow> Inl e
      | None \<Rightarrow>
          Inr (fold (\<lambda>p parsed.
                 let source = (case p of None \<Rightarrow> [] | Some l \<Rightarrow> lua_source l); digest = Sum256 source
                 in parsed(digest \<mapsto> \<lparr>mp_Source = source, mp_SHA256 = digest\<rparr>)) programs Map.empty))"

definition resolveLuaProgram :: "LuaProgram \<Rightarrow> (bytes \<rightharpoonup> merge_program) \<Rightarrow> string + merge_program" where
  "resolveLuaProgram program programs =
     (if length (lua_source program) > 0 then
        let digest = Sum256 (lua_source program) in
        if length (lua_sha256 program) \<noteq> 0 \<and> (length (lua_sha256 program) \<noteq> 32 \<or> lua_sha256 program \<noteq> digest)
        then Inl ''lua program SHA-256 digest does not match source''
        else Inr \<lparr>mp_Source = lua_source program, mp_SHA256 = digest\<rparr>
      else if length (lua_sha256 program) \<noteq> 32
      then Inl ''lua program source or SHA-256 reference is required''
      else case programs (lua_sha256 program) of
             None \<Rightarrow> Inl ''lua program SHA-256 reference was not declared in the write request''
           | Some declared \<Rightarrow> Inr declared)"

definition parseMerge ::
    "(bytes \<Rightarrow> bool) \<Rightarrow> (bytes \<Rightarrow> string option) \<Rightarrow> (merge_program \<Rightarrow> string option) \<Rightarrow> (bytes \<rightharpoonup> merge_program) \<Rightarrow>
     MergeOperation option \<Rightarrow> string + parsedMerge" where
  "parseMerge json bson compile programs operation =
     (case operation of
        None \<Rightarrow> Inl ''merge operation is required''
      | Some m \<Rightarrow>
          (case convertDocument json bson (merge_incoming m) of
             Inl e \<Rightarrow> Inl e
           | Inr incoming \<Rightarrow>
               (case merge_program m of
                  None \<Rightarrow> Inl ''lua merge program is required''
                | Some program \<Rightarrow>
                    (case resolveLuaProgram program programs of
                       Inl e \<Rightarrow> Inl e
                     | Inr resolved \<Rightarrow>
                         (case compile resolved of
                            Some e \<Rightarrow> Inl e
                          | None \<Rightarrow> Inr \<lparr>pm_incoming = incoming, pm_program = resolved\<rparr>)))))"

definition parseWrite ::
    "uri_parser \<Rightarrow> (Address \<Rightarrow> string + string) \<Rightarrow> (bytes \<Rightarrow> bool) \<Rightarrow> (bytes \<Rightarrow> string option) \<Rightarrow>
     (merge_program \<Rightarrow> string option) \<Rightarrow> nat \<Rightarrow> WriteOperation option \<Rightarrow> (bytes \<rightharpoonup> merge_program) \<Rightarrow> string + parsedWrite" where
  "parseWrite uri batchKey json bson compile index operation programs =
     (case operation of
        None \<Rightarrow> Inl ''write operation is required''
      | Some op \<Rightarrow>
          (case ParseAddress uri (wo_address op) of
             Inl e \<Rightarrow> Inl e
           | Inr address \<Rightarrow>
               (case batchKey address of
                  Inl e \<Rightarrow> Inl e
                | Inr _ \<Rightarrow>
                    (let parsed = \<lparr>pw_index = index, pw_address = address, pw_original = op, pw_put = None,
                                   pw_merge = None, pw_identity = ad_string address\<rparr>
                     in case wo_action op of
                          PutAction p \<Rightarrow>
                            (case parsePut json bson (Some p) of Inl e \<Rightarrow> Inl e | Inr put \<Rightarrow> Inr (parsed\<lparr>pw_put := Some put\<rparr>))
                        | MergeAction m \<Rightarrow>
                            (case parseMerge json bson compile programs (Some m) of
                               Inl e \<Rightarrow> Inl e | Inr merge \<Rightarrow> Inr (parsed\<lparr>pw_merge := Some merge\<rparr>))
                        | NoAction \<Rightarrow> Inl ''write action is required''))))"

section \<open>Groups\<close>

record writeGroup =
  wg_operations :: "parsedWrite list"
  wg_merges :: int

definition add_to_group :: "parsedWrite \<Rightarrow> writeGroup \<Rightarrow> writeGroup" where
  "add_to_group operation g =
     g\<lparr>wg_operations := wg_operations g @ [operation],
       wg_merges := (if pw_merge operation \<noteq> None then wg_merges g + 1 else wg_merges g)\<rparr>"

fun group_loop :: "parsedWrite list \<Rightarrow> writeGroup list \<Rightarrow> (recordIdentity \<rightharpoonup> nat) \<Rightarrow> writeGroup list" where
  "group_loop [] groups positions = groups"
| "group_loop (operation # rest) groups positions =
     (case positions (pw_identity operation) of
        Some position \<Rightarrow>
          group_loop rest (groups[position := add_to_group operation (groups ! position)]) positions
      | None \<Rightarrow>
          group_loop rest (groups @ [add_to_group operation \<lparr>wg_operations = [], wg_merges = 0\<rparr>])
            (positions(pw_identity operation \<mapsto> length groups)))"

definition buildWriteGroups :: "parsedWrite list \<Rightarrow> writeGroup list" where
  "buildWriteGroups operations = group_loop operations [] Map.empty"

definition directPut :: "writeGroup \<Rightarrow> bool" where
  "directPut g =
     (if length (wg_operations g) = 1 then pw_put (hd (wg_operations g)) \<noteq> None
      else list_all (\<lambda>op. case pw_put op of None \<Rightarrow> False | Some p \<Rightarrow> pc_kind (pp_precondition p) = PreconditionNone)
             (wg_operations g))"

definition hasReturns :: "writeGroup \<Rightarrow> bool" where
  "hasReturns g = list_ex (\<lambda>op. wo_returnDocument (pw_original op)) (wg_operations g)"

definition hasWriteReturns :: "WriteRequest \<Rightarrow> bool" where
  "hasWriteReturns req = list_ex wo_returnDocument (wr_operations req)"

section \<open>Preparing one operation\<close>

text \<open>The sentinel errors of \<open>src/internal/merge/merge.go\<close>; an error of the engine wraps some of them.\<close>

datatype merge_sentinel =
    ErrInvalidProgram | ErrInvalidIncoming | ErrInvalidCurrent | ErrInvalidResult
  | ErrExecution | ErrExecutionDeadline | ErrExecutionExhausted

record merge_error =
  me_is :: "merge_sentinel list"
  me_text :: string

definition mergeFailureCode :: "merge_error \<Rightarrow> FailureCode" where
  "mergeFailureCode e =
     (if ErrExecutionDeadline \<in> set (me_is e) then FC_DEADLINE_EXCEEDED
      else if ErrExecutionExhausted \<in> set (me_is e) then FC_RESOURCE_EXHAUSTED
      else if ErrInvalidProgram \<in> set (me_is e) \<or> ErrInvalidIncoming \<in> set (me_is e) \<or>
              ErrInvalidResult \<in> set (me_is e) \<or> ErrExecution \<in> set (me_is e) then FC_INVALID_ARGUMENT
      else FC_INTERNAL)"

text \<open>
  What running the merge of an operation on a current document gives: a document, or an error and
  whether the context is done by then.
\<close>

type_synonym lua = "parsedWrite \<Rightarrow> storageDocument option \<Rightarrow> (merge_error \<times> bool) + storageDocument"

definition found_condition :: "bytes \<Rightarrow> precondition" where
  "found_condition revision =
     (if length revision = 0 then \<lparr>pc_kind = PreconditionRevisionAbsent, pc_revision = []\<rparr>
      else \<lparr>pc_kind = PreconditionRevisionMatches, pc_revision = revision\<rparr>)"

definition not_found_condition :: precondition where
  "not_found_condition = \<lparr>pc_kind = PreconditionRecordNotExists, pc_revision = []\<rparr>"

definition prepareFoldedPut ::
    "parsedWrite \<Rightarrow> parsedPut \<Rightarrow> readResult \<Rightarrow> WriteResult \<Rightarrow> writeOperation option \<times> WriteResult" where
  "prepareFoldedPut operation put current result =
     (if rr_status current \<noteq> ReadStatusFound \<and> rr_status current \<noteq> ReadStatusNotFound then
        let cause = (case rr_err current of
                       None \<Rightarrow> ErrText ''storage returned an invalid conditional write snapshot'' | Some e \<Rightarrow> e);
            (code, retryable) = storageFailureDetails (Some cause)
        in (None, setWriteFailure result code (Some cause) retryable)
      else
        let exists = (rr_status current = ReadStatusFound); condition = pc_kind (pp_precondition put) in
        if condition = PreconditionRecordExists \<and> \<not> exists \<or> condition = PreconditionRecordNotExists \<and> exists then
          (None, applyWriteResult result (empty_writeResult\<lparr>sw_status := WriteStatusPreconditionFailed\<rparr>))
        else
          (Some \<lparr>so_address = pw_address operation, so_document = pp_document put,
                 so_precondition = (if \<not> exists then not_found_condition else found_condition (rr_revision current))\<rparr>, result))"

definition prepareMergeOperation ::
    "lua \<Rightarrow> parsedWrite \<Rightarrow> readResult \<Rightarrow> WriteResult \<Rightarrow> writeOperation option \<times> WriteResult" where
  "prepareMergeOperation lua operation stored result =
     (let run = (\<lambda>current condition.
            case lua operation current of
              Inl (e, done) \<Rightarrow> (None, setWriteFailure result (mergeFailureCode e) (Some (ErrText (me_text e))) done)
            | Inr merged \<Rightarrow>
                if length (sd_payload merged) = 0 then
                  (None, setWriteFailure result FC_INTERNAL (Some (ErrText ''lua merge program returned an invalid document'')) False)
                else (Some \<lparr>so_address = pw_address operation, so_document = merged, so_precondition = condition\<rparr>, result))
      in case rr_status stored of
           ReadStatusFound \<Rightarrow> run (Some (rr_document stored)) (found_condition (rr_revision stored))
         | ReadStatusNotFound \<Rightarrow> run None not_found_condition
         | ReadStatusFailed \<Rightarrow>
             (let (code, retryable) = storageFailureDetails (rr_err stored)
              in (None, setWriteFailure result code (rr_err stored) retryable))
         | ReadStatusUnspecified \<Rightarrow>
             (None, setWriteFailure result FC_INTERNAL (Some (ErrText ''unsupported storage read status 0'')) False))"

section \<open>Folding a group\<close>

definition clear_result :: "WriteResult \<Rightarrow> WriteResult" where
  "clear_result r = r\<lparr>wres_status := WS_UNSPECIFIED, wres_revision := None, wres_failure := None, wres_document := None\<rparr>"

text \<open>One iteration of \<open>prepareWriteGroup\<close>: an operation with no put is a merge.\<close>

definition prepare_operation :: "lua \<Rightarrow> parsedWrite \<Rightarrow> readResult \<Rightarrow> WriteResult \<Rightarrow> writeOperation option \<times> WriteResult" where
  "prepare_operation lua operation current result =
     (case pw_put operation of
        Some put \<Rightarrow> prepareFoldedPut operation put current result
      | None \<Rightarrow> prepareMergeOperation lua operation current result)"

definition found_document :: "readResult \<Rightarrow> storageDocument \<Rightarrow> readResult" where
  "found_document current d = current\<lparr>rr_status := ReadStatusFound, rr_document := d\<rparr>"

text \<open>The first prepared operation is the candidate; later ones only replace its document.\<close>

definition extend_candidate :: "writeOperation option \<Rightarrow> writeOperation \<Rightarrow> writeOperation" where
  "extend_candidate candidate merged =
     (case candidate of None \<Rightarrow> merged | Some c \<Rightarrow> c\<lparr>so_document := so_document merged\<rparr>)"

fun prepare_loop ::
    "lua \<Rightarrow> parsedWrite list \<Rightarrow> readResult \<Rightarrow> writeOperation option \<Rightarrow> WriteResult list \<Rightarrow> writeOperation option \<times> WriteResult list" where
  "prepare_loop lua [] current candidate results = (candidate, results)"
| "prepare_loop lua (operation # rest) current candidate results =
     (let i = pw_index operation;
          (merged, result) = prepare_operation lua operation current (clear_result (results ! i));
          results' = results[i := result]
      in case merged of
           None \<Rightarrow> prepare_loop lua rest current candidate results'
         | Some m \<Rightarrow>
             prepare_loop lua rest (found_document current (so_document m)) (Some (extend_candidate candidate m)) results')"

definition prepareWriteGroup ::
    "lua \<Rightarrow> writeGroup \<Rightarrow> readResult \<Rightarrow> WriteResult list \<Rightarrow> writeOperation option \<times> WriteResult list" where
  "prepareWriteGroup lua g stored results = prepare_loop lua (wg_operations g) stored None results"

definition apply_group_result1 :: "writeResult \<Rightarrow> WriteResult \<Rightarrow> WriteResult" where
  "apply_group_result1 stored result =
     (let r1 = result\<lparr>wres_document := None\<rparr> in
      if sw_status stored = WriteStatusApplied \<and> wres_failure r1 \<noteq> None then r1
      else applyWriteResult (r1\<lparr>wres_failure := None\<rparr>) stored)"

definition applyWriteGroupResult :: "parsedWrite list \<Rightarrow> WriteResult list \<Rightarrow> writeResult \<Rightarrow> WriteResult list" where
  "applyWriteGroupResult ops results stored =
     fold (\<lambda>op rs. rs[pw_index op := apply_group_result1 stored (rs ! pw_index op)]) ops results"

text \<open>\<open>sink.DocumentEncoding(document.Encoding)\<close>: the two enumerations share their numbers.\<close>

fun api_encoding :: "storageEncoding \<Rightarrow> DocumentEncoding" where
  "api_encoding EncodingUnspecified = ENCODING_UNSPECIFIED"
| "api_encoding EncodingJSON = ENCODING_JSON"
| "api_encoding EncodingBSON = ENCODING_BSON"

definition attachWriteDocument :: "parsedWrite list \<Rightarrow> WriteResult list \<Rightarrow> storageDocument \<Rightarrow> WriteResult list" where
  "attachWriteDocument ops results document =
     fold (\<lambda>op rs.
        let result = rs ! pw_index op in
        if wo_returnDocument (pw_original op) \<and> wres_status result = WS_APPLIED
        then rs[pw_index op := result\<lparr>wres_document := Some \<lparr>d_encoding = api_encoding (sd_encoding document), d_payload = sd_payload document\<rparr>\<rparr>]
        else rs) ops results"

section \<open>Folding with the budgets of several callers\<close>

text \<open>
  \<open>prepareBatchedWriteGroup\<close>: consecutive operations of one caller are a part; a part whose caller
  cannot afford its input or output is dropped from the chain. \<open>inputs\<close> and \<open>outputs\<close> are the
  callers' budgets.
\<close>

function prepare_parts ::
    "lua \<Rightarrow> (int \<Rightarrow> 'w \<Rightarrow> err option \<times> 'w) \<Rightarrow> (int \<Rightarrow> 'w \<Rightarrow> err option \<times> 'w) \<Rightarrow> (nat \<Rightarrow> nat) \<Rightarrow> (nat \<Rightarrow> readBudget) \<Rightarrow> (nat \<Rightarrow> readBudget) \<Rightarrow>
     parsedWrite list \<Rightarrow> readResult \<Rightarrow> writeOperation option \<Rightarrow> WriteResult list \<Rightarrow> cells \<Rightarrow> 'w \<Rightarrow>
     writeOperation option \<times> WriteResult list \<times> cells \<times> 'w" where
  "prepare_parts lua out grow owner inputs outputs operations current candidate results cs w =
     (case operations of
        [] \<Rightarrow> (candidate, results, cs, w)
      | first # _ \<Rightarrow>
          (let o' = owner (pw_index first);
               part = takeWhile (\<lambda>op. owner (pw_index op) = o') operations;
               rest = dropWhile (\<lambda>op. owner (pw_index op) = o') operations;
               refuse = (\<lambda>e rs. applyWriteGroupResult part rs (empty_writeResult\<lparr>sw_status := WriteStatusFailed, sw_err := Some e\<rparr>));
               (e1, cs1, w1) =
                 (if rr_status current = ReadStatusFound
                  then Reserve out grow (inputs o') (int (length (sd_payload (rr_document current)))) cs w
                  else (None, cs, w))
           in case e1 of
                Some e \<Rightarrow> prepare_parts lua out grow owner inputs outputs rest current candidate (refuse e results) cs1 w1
              | None \<Rightarrow>
                  (case prepare_loop lua part current None results of
                     (None, rs) \<Rightarrow> prepare_parts lua out grow owner inputs outputs rest current candidate rs cs1 w1
                   | (Some m, rs) \<Rightarrow>
                       (case Reserve out grow (outputs o') (int (length (sd_payload (so_document m)))) cs1 w1 of
                          (Some e, cs2, w2) \<Rightarrow>
                            prepare_parts lua out grow owner inputs outputs rest current candidate (refuse e rs) cs2 w2
                        | (None, cs2, w2) \<Rightarrow>
                            prepare_parts lua out grow owner inputs outputs rest (found_document current (so_document m))
                              (Some (extend_candidate candidate m)) rs cs2 w2))))"
  by pat_completeness auto

termination
  by (relation "measure (\<lambda>(lua, out, grow, owner, inputs, outputs, operations, _). length operations)")
    (auto simp: less_Suc_eq_le length_dropWhile_le)

declare prepare_parts.simps [simp del]

definition prepareBatchedWriteGroup ::
    "lua \<Rightarrow> (int \<Rightarrow> 'w \<Rightarrow> err option \<times> 'w) \<Rightarrow> (int \<Rightarrow> 'w \<Rightarrow> err option \<times> 'w) \<Rightarrow> (nat \<Rightarrow> nat) \<Rightarrow> (nat \<Rightarrow> readBudget) \<Rightarrow> (nat \<Rightarrow> readBudget) \<Rightarrow>
     writeGroup \<Rightarrow> readResult \<Rightarrow> WriteResult list \<Rightarrow> cells \<Rightarrow> 'w \<Rightarrow> writeOperation option \<times> WriteResult list \<times> cells \<times> 'w" where
  "prepareBatchedWriteGroup lua out grow owner inputs outputs g stored results cs w =
     prepare_parts lua out grow owner inputs outputs (wg_operations g) stored None results cs w"

section \<open>The sequential meaning of a group\<close>

text \<open>
  What one operation does to a record on its own: the document it stores, if it stores one, and its
  speculative result.
\<close>

definition run_operation ::
    "lua \<Rightarrow> parsedWrite \<Rightarrow> storageDocument option \<Rightarrow> WriteResult \<Rightarrow> storageDocument option \<times> WriteResult" where
  "run_operation lua operation current result =
     (case pw_put operation of
        Some put \<Rightarrow>
          (let kind = pc_kind (pp_precondition put) in
           if kind = PreconditionRecordExists \<and> current = None \<or> kind = PreconditionRecordNotExists \<and> current \<noteq> None
           then (None, applyWriteResult result (empty_writeResult\<lparr>sw_status := WriteStatusPreconditionFailed\<rparr>))
           else (Some (pp_document put), result))
      | None \<Rightarrow>
          (case lua operation current of
             Inl (e, done) \<Rightarrow> (None, setWriteFailure result (mergeFailureCode e) (Some (ErrText (me_text e))) done)
           | Inr d \<Rightarrow>
               if length (sd_payload d) = 0
               then (None, setWriteFailure result FC_INTERNAL (Some (ErrText ''lua merge program returned an invalid document'')) False)
               else (Some d, result)))"

text \<open>The operations of a group one after the other: the record, whether it was stored, the results.\<close>

fun run_sequence ::
    "lua \<Rightarrow> parsedWrite list \<Rightarrow> storageDocument option \<Rightarrow> bool \<Rightarrow> WriteResult list \<Rightarrow> storageDocument option \<times> bool \<times> WriteResult list" where
  "run_sequence lua [] current wrote results = (current, wrote, results)"
| "run_sequence lua (operation # rest) current wrote results =
     (let i = pw_index operation in
      case run_operation lua operation current (clear_result (results ! i)) of
        (None, r) \<Rightarrow> run_sequence lua rest current wrote (results[i := r])
      | (Some d, r) \<Rightarrow> run_sequence lua rest (Some d) True (results[i := r]))"

text \<open>The record a snapshot shows, when the read succeeded.\<close>

definition snapshot_ok :: "readResult \<Rightarrow> bool" where
  "snapshot_ok r \<longleftrightarrow> rr_status r = ReadStatusFound \<or> rr_status r = ReadStatusNotFound"

definition as_snapshot :: "readResult \<Rightarrow> (storageDocument \<times> bytes) option" where
  "as_snapshot r = (if rr_status r = ReadStatusFound then Some (rr_document r, rr_revision r) else None)"

definition snapshot_document :: "readResult \<Rightarrow> storageDocument option" where
  "snapshot_document r = map_option fst (as_snapshot r)"

lemma snapshot_found [simp]:
  "snapshot_ok (found_document r d)" "snapshot_document (found_document r d) = Some d"
  by (simp_all add: snapshot_ok_def snapshot_document_def as_snapshot_def found_document_def)

lemma prepare_operation_run:
  assumes "snapshot_ok current"
  shows "prepare_operation lua op current r =
    (map_option (\<lambda>d. \<lparr>so_address = pw_address op, so_document = d, so_precondition = snapshot_condition (as_snapshot current)\<rparr>)
       (fst (run_operation lua op (snapshot_document current) r)),
     snd (run_operation lua op (snapshot_document current) r))"
  using assms
  by (cases "pw_put op")
    (auto simp: prepare_operation_def run_operation_def prepareFoldedPut_def prepareMergeOperation_def snapshot_ok_def
      snapshot_document_def as_snapshot_def found_condition_def not_found_condition_def Let_def split: sum.splits prod.splits)

lemma run_sequence_wrote: "run_sequence lua ops cur True results = (d, wrote, rs) \<Longrightarrow> wrote"
  by (induction ops arbitrary: cur results) (auto simp: Let_def split: prod.splits option.splits)

lemma run_sequence_stored: "run_sequence lua ops cur b results = (d, wrote, rs) \<Longrightarrow> wrote \<Longrightarrow> b \<and> cur \<noteq> None \<or> \<not> b \<Longrightarrow> d \<noteq> None"
  by (induction ops arbitrary: cur b results) (auto simp: Let_def split: prod.splits option.splits)

lemma run_sequence_unwritten: "run_sequence lua ops cur b results = (d, False, rs) \<Longrightarrow> d = cur"
  by (induction ops arbitrary: cur b results)
    (auto simp: Let_def split: prod.splits option.splits dest: run_sequence_wrote)

text \<open>Folding onto a candidate that exists only replaces its document.\<close>

lemma prepare_loop_extends:
  assumes "snapshot_ok current" "so_document c = the (snapshot_document current)" "snapshot_document current \<noteq> None"
    and "run_sequence lua ops (snapshot_document current) True results = (d, wrote, rs)"
  shows "prepare_loop lua ops current (Some c) results = (Some (c\<lparr>so_document := the d\<rparr>), rs)"
  using assms
proof (induction ops arbitrary: current c results)
  case (Cons op ops)
  let ?r = "run_operation lua op (snapshot_document current) (clear_result (results ! pw_index op))"
  note p = prepare_operation_run[OF Cons.prems(1), of lua op]
  show ?case
  proof (cases "fst ?r")
    case None
    then show ?thesis
      using Cons.prems p Cons.IH[OF Cons.prems(1-3)] by (simp add: Let_def case_prod_beta)
  next
    case (Some d1)
    then have "prepare_loop lua ops (found_document current d1) (Some (c\<lparr>so_document := d1\<rparr>)) (results[pw_index op := snd ?r])
        = (Some (c\<lparr>so_document := d1, so_document := the d\<rparr>), rs)"
      using Cons.prems by (intro Cons.IH) (simp_all add: Let_def case_prod_beta)
    then show ?thesis using Some p by (simp add: Let_def case_prod_beta extend_candidate_def)
  qed
qed auto

text \<open>Folding a group is running its operations on the snapshot, under the snapshot's precondition.\<close>

lemma prepare_loop_run:
  assumes "snapshot_ok current"
    and "run_sequence lua ops (snapshot_document current) False results = (d, wrote, rs)"
  shows "snd (prepare_loop lua ops current None results) = rs \<and>
    (\<not> wrote \<longrightarrow> fst (prepare_loop lua ops current None results) = None) \<and>
    (wrote \<longrightarrow> (\<exists>op \<in> set ops. fst (prepare_loop lua ops current None results) =
       Some \<lparr>so_address = pw_address op, so_document = the d, so_precondition = snapshot_condition (as_snapshot current)\<rparr>))"
  using assms
proof (induction ops arbitrary: results)
  case (Cons op ops)
  let ?r = "run_operation lua op (snapshot_document current) (clear_result (results ! pw_index op))"
  note p = prepare_operation_run[OF Cons.prems(1), of lua op]
  show ?case
  proof (cases "fst ?r")
    case None
    then show ?thesis
      using Cons.prems(2) p Cons.IH[OF Cons.prems(1)] by (simp add: Let_def case_prod_beta)
  next
    case (Some d1)
    let ?c = "\<lparr>so_address = pw_address op, so_document = d1, so_precondition = snapshot_condition (as_snapshot current)\<rparr>"
    have run: "run_sequence lua ops (Some d1) True (results[pw_index op := snd ?r]) = (d, wrote, rs)"
      using Cons.prems(2) Some by (simp add: Let_def case_prod_beta)
    then have "prepare_loop lua ops (found_document current d1) (Some ?c) (results[pw_index op := snd ?r])
        = (Some (?c\<lparr>so_document := the d\<rparr>), rs)"
      by (intro prepare_loop_extends) simp_all
    then show ?thesis using Some p run_sequence_wrote[OF run] by (simp add: Let_def case_prod_beta extend_candidate_def)
  qed
qed simp

section \<open>Results\<close>

lemma fold_update_length: "length (fold (\<lambda>x rs. rs[ix x := f x (rs ! ix x)]) xs rs) = length rs"
  by (induction xs arbitrary: rs) simp_all

lemma fold_update_other:
  "i \<notin> ix ` set xs \<Longrightarrow> fold (\<lambda>x rs. rs[ix x := f x (rs ! ix x)]) xs rs ! i = rs ! i"
  by (induction xs arbitrary: rs) simp_all

lemma fold_update_nth:
  assumes "distinct (map ix xs)" "x \<in> set xs" "ix x < length rs"
  shows "fold (\<lambda>x rs. rs[ix x := f x (rs ! ix x)]) xs rs ! ix x = f x (rs ! ix x)"
  using assms
proof (induction xs arbitrary: rs)
  case (Cons y ys)
  show ?case
  proof (cases "x = y")
    case True
    then have "ix x \<notin> ix ` set ys" using Cons.prems(1) by auto
    then show ?thesis using True Cons.prems(3) by (simp add: fold_update_other)
  next
    case False
    then have "ix y \<noteq> ix x" using Cons.prems(1,2) by auto
    then show ?thesis using Cons False by simp
  qed
qed simp

lemma run_sequence_length: "run_sequence lua ops cur b results = (d, wrote, rs) \<Longrightarrow> length rs = length results"
  by (induction ops arbitrary: cur b results) (auto simp: Let_def case_prod_beta split: option.splits)

lemma run_sequence_other:
  "run_sequence lua ops cur b results = (d, wrote, rs) \<Longrightarrow> i \<notin> pw_index ` set ops \<Longrightarrow> rs ! i = results ! i"
  by (induction ops arbitrary: cur b results) (auto simp: Let_def case_prod_beta split: option.splits)

lemma run_operation_document: "wres_document (snd (run_operation lua op cur r)) = wres_document r"
  by (auto simp: run_operation_def applyWriteResult_def setWriteFailure_def empty_writeResult_def Let_def
      split: option.splits sum.splits prod.splits)

lemma run_operation_failure: "fst (run_operation lua op cur r) = None \<Longrightarrow> wres_failure (snd (run_operation lua op cur r)) \<noteq> None"
  by (auto simp: run_operation_def applyWriteResult_def setWriteFailure_def empty_writeResult_def Let_def
      split: option.splits sum.splits prod.splits if_splits)

lemma run_operation_success: "fst (run_operation lua op cur r) \<noteq> None \<Longrightarrow> snd (run_operation lua op cur r) = r"
  by (auto simp: run_operation_def Let_def split: option.splits sum.splits prod.splits if_splits)

text \<open>A speculative result holds no document and is either untouched or a failure.\<close>

lemma run_sequence_result:
  assumes "run_sequence lua ops cur b results = (d, wrote, rs)" "distinct (map pw_index ops)"
    and "op \<in> set ops" "pw_index op < length results"
  shows "wres_document (rs ! pw_index op) = None \<and>
    (wres_failure (rs ! pw_index op) = None \<longrightarrow> rs ! pw_index op = clear_result (results ! pw_index op))"
  using assms
proof (induction ops arbitrary: cur b results)
  case (Cons x ops)
  let ?r = "run_operation lua x cur (clear_result (results ! pw_index x))"
  obtain cur' b' where tail: "run_sequence lua ops cur' b' (results[pw_index x := snd ?r]) = (d, wrote, rs)"
    using Cons.prems(1) by (auto simp: Let_def case_prod_beta split: option.splits)
  show ?case
  proof (cases "op = x")
    case True
    then have "rs ! pw_index op = snd ?r"
      using run_sequence_other[OF tail, of "pw_index op"] Cons.prems(2,4) by auto
    then show ?thesis
      using run_operation_failure[of lua x cur "clear_result (results ! pw_index x)"]
        run_operation_success[of lua x cur "clear_result (results ! pw_index x)"]
        run_operation_document[of lua x cur "clear_result (results ! pw_index x)"] True
      by (cases "fst ?r") (auto simp: clear_result_def)
  next
    case False
    then have "pw_index x \<noteq> pw_index op" using Cons.prems(2,3) by auto
    then show ?thesis using Cons.IH[OF tail] Cons.prems(2-4) False by simp
  qed
qed simp

lemma applyWriteGroupResult_nth:
  assumes "distinct (map pw_index ops)" "op \<in> set ops" "pw_index op < length rs"
  shows "applyWriteGroupResult ops rs x ! pw_index op = apply_group_result1 x (rs ! pw_index op)"
  unfolding applyWriteGroupResult_def using assms by (rule fold_update_nth)

text \<open>The results of a committed group.\<close>

lemma committed_result:
  assumes "run_sequence lua ops cur b results = (d, wrote, rs)" "distinct (map pw_index ops)"
    and "op \<in> set ops" "pw_index op < length results" "sw_status x = WriteStatusApplied"
  shows "applyWriteGroupResult ops rs x ! pw_index op =
    (if wres_failure (rs ! pw_index op) = None
     then (clear_result (results ! pw_index op))\<lparr>wres_status := WS_APPLIED, wres_revision := Some (sw_revision x)\<rparr>
     else rs ! pw_index op)"
  using run_sequence_result[OF assms(1-4)] run_sequence_length[OF assms(1)] assms
  by (simp add: applyWriteGroupResult_nth apply_group_result1_def applyWriteResult_def clear_result_def)

section \<open>Grouping\<close>

definition identities :: "parsedWrite list \<Rightarrow> recordIdentity list" where
  "identities ops = rev (remdups (rev (map pw_identity ops)))"

definition group_for :: "parsedWrite list \<Rightarrow> recordIdentity \<Rightarrow> writeGroup" where
  "group_for ops k =
     (let own = filter (\<lambda>op. pw_identity op = k) ops
      in \<lparr>wg_operations = own, wg_merges = int (length (filter (\<lambda>op. pw_merge op \<noteq> None) own))\<rparr>)"

lemma identities_snoc:
  "identities (ops @ [op]) = (if pw_identity op \<in> set (identities ops) then identities ops else identities ops @ [pw_identity op])"
  by (simp add: identities_def)

lemma set_identities [simp]: "set (identities ops) = pw_identity ` set ops"
  by (simp add: identities_def)

lemma distinct_identities: "distinct (identities ops)"
  by (simp add: identities_def)

lemma group_for_snoc:
  "group_for (ops @ [op]) k = (if pw_identity op = k then add_to_group op (group_for ops k) else group_for ops k)"
  by (simp add: group_for_def add_to_group_def Let_def)

lemma group_for_new: "k \<notin> pw_identity ` set ops \<Longrightarrow> group_for ops k = \<lparr>wg_operations = [], wg_merges = 0\<rparr>"
  by (auto simp: group_for_def Let_def filter_empty_conv)

definition positions_of :: "recordIdentity list \<Rightarrow> (recordIdentity \<rightharpoonup> nat) \<Rightarrow> bool" where
  "positions_of ids positions \<longleftrightarrow> (\<forall>k n. positions k = Some n \<longleftrightarrow> n < length ids \<and> ids ! n = k)"

lemma positions_of_snoc:
  "positions_of ids positions \<Longrightarrow> k \<notin> set ids \<Longrightarrow> positions_of (ids @ [k]) (positions(k \<mapsto> length ids))"
  by (auto simp: positions_of_def nth_append less_Suc_eq)

lemma group_loop_spec:
  assumes "positions_of (identities pre) positions"
  shows "group_loop rest (map (group_for pre) (identities pre)) positions = map (group_for (pre @ rest)) (identities (pre @ rest))"
  using assms
proof (induction rest arbitrary: pre positions)
  case (Cons op rest)
  let ?k = "pw_identity op"
  have IH: "group_loop rest (map (group_for (pre @ [op])) (identities (pre @ [op]))) p = map (group_for (pre @ op # rest)) (identities (pre @ op # rest))"
    if "positions_of (identities (pre @ [op])) p" for p
    using Cons.IH[OF that] by simp
  show ?case
  proof (cases "positions ?k")
    case (Some n)
    then have n: "n < length (identities pre)" "identities pre ! n = ?k" using Cons.prems by (auto simp: positions_of_def)
    then have ids: "identities (pre @ [op]) = identities pre" using nth_mem[OF n(1)] by (simp add: identities_snoc)
    have "(map (group_for pre) (identities pre))[n := add_to_group op (map (group_for pre) (identities pre) ! n)] =
        map (group_for (pre @ [op])) (identities (pre @ [op]))"
      using n distinct_identities[of pre] unfolding ids
      by (intro nth_equalityI) (auto simp: nth_list_update group_for_snoc nth_eq_iff_index_eq)
    moreover have "positions_of (identities (pre @ [op])) positions" using Cons.prems ids by simp
    ultimately show ?thesis using IH[of positions] Some by simp
  next
    case None
    have new: "?k \<notin> set (identities pre)"
    proof (intro notI)
      assume "?k \<in> set (identities pre)"
      then obtain n where "n < length (identities pre)" "identities pre ! n = ?k" by (meson in_set_conv_nth)
      then have "positions ?k = Some n" using Cons.prems unfolding positions_of_def by blast
      with None show False by simp
    qed
    then have ids: "identities (pre @ [op]) = identities pre @ [?k]" by (simp add: identities_snoc)
    have "map (group_for pre) (identities pre) @ [add_to_group op \<lparr>wg_operations = [], wg_merges = 0\<rparr>] =
        map (group_for (pre @ [op])) (identities (pre @ [op]))"
      using new group_for_new[of ?k pre] unfolding ids by (auto simp: group_for_snoc)
    moreover have "positions_of (identities (pre @ [op])) (positions(?k \<mapsto> length (identities pre)))"
      unfolding ids using Cons.prems new by (rule positions_of_snoc)
    ultimately show ?thesis using IH None by simp
  qed
qed simp

lemma buildWriteGroups_reference: "buildWriteGroups ops = map (group_for ops) (identities ops)"
  using group_loop_spec[of "[]" Map.empty ops] by (simp add: buildWriteGroups_def identities_def positions_of_def)

section \<open>Folding for several callers\<close>

lemma subseq_distinct: "subseq xs ys \<Longrightarrow> distinct ys \<Longrightarrow> distinct xs"
  by (induction rule: list_emb.induct) (auto dest: subseq_set)

lemma run_sequence_append:
  "run_sequence lua (xs @ ys) cur b results =
     (let (c, b', rs) = run_sequence lua xs cur b results in run_sequence lua ys c b' rs)"
  by (induction xs arbitrary: cur b results) (auto simp: Let_def case_prod_beta split: option.splits)

lemma run_sequence_flag:
  "run_sequence lua ops cur False results = (d, wrote, rs) \<Longrightarrow> run_sequence lua ops cur b results = (d, b \<or> wrote, rs)"
proof (induction ops arbitrary: cur b results)
  case (Cons op ops)
  let ?r = "run_operation lua op cur (clear_result (results ! pw_index op))"
  show ?case
  proof (cases "fst ?r")
    case (Some d1)
    then have run: "run_sequence lua ops (Some d1) True (results[pw_index op := snd ?r]) = (d, wrote, rs)"
      using Cons.prems by (simp add: Let_def case_prod_beta)
    then show ?thesis using Some run_sequence_wrote[OF run] by (simp add: Let_def case_prod_beta)
  qed (use Cons in \<open>simp add: Let_def case_prod_beta\<close>)
qed simp

text \<open>Running a group looks only at its own results.\<close>

lemma run_sequence_local:
  assumes "run_sequence lua ops cur b results = (d, wrote, rs)" "distinct (map pw_index ops)"
    and "length results' = length results" "\<forall>op \<in> set ops. results' ! pw_index op = results ! pw_index op \<and> pw_index op < length results"
  shows "\<exists>rs'. run_sequence lua ops cur b results' = (d, wrote, rs') \<and> (\<forall>op \<in> set ops. rs' ! pw_index op = rs ! pw_index op)"
  using assms
proof (induction ops arbitrary: cur b results results')
  case (Cons op ops)
  let ?i = "pw_index op"
  let ?r = "run_operation lua op cur (clear_result (results ! ?i))"
  have same: "results' ! ?i = results ! ?i" "?i < length results" using Cons.prems(4) by auto
  obtain cur' b' where tail: "run_sequence lua ops cur' b' (results[?i := snd ?r]) = (d, wrote, rs)"
    and tail': "\<And>rs'. run_sequence lua ops cur' b' (results'[?i := snd ?r]) = (d, wrote, rs') \<Longrightarrow>
      run_sequence lua (op # ops) cur b results' = (d, wrote, rs')"
    using Cons.prems(1) same by (cases "fst ?r") (auto simp: Let_def case_prod_beta)
  have "?i \<notin> pw_index ` set ops" using Cons.prems(2) by auto
  then have "\<forall>op' \<in> set ops. results'[?i := snd ?r] ! pw_index op' = results[?i := snd ?r] ! pw_index op' \<and>
      pw_index op' < length (results[?i := snd ?r])"
    using Cons.prems(4) by (auto simp: image_iff nth_list_update)
  then obtain rs' where rs': "run_sequence lua ops cur' b' (results'[?i := snd ?r]) = (d, wrote, rs')"
    "\<forall>op' \<in> set ops. rs' ! pw_index op' = rs ! pw_index op'"
    using Cons.IH[OF tail, of "results'[?i := snd ?r]"] Cons.prems(2,3) by auto
  have "rs' ! ?i = snd ?r" "rs ! ?i = snd ?r"
    using run_sequence_other[OF rs'(1), of ?i] run_sequence_other[OF tail, of ?i] \<open>?i \<notin> _\<close> same Cons.prems(3) by auto
  then show ?case using tail'[OF rs'(1)] rs'(2) by (intro exI[of _ rs']) simp
qed simp

lemma refused_result: "sw_status x = WriteStatusFailed \<Longrightarrow> wres_failure (apply_group_result1 x r) \<noteq> None"
  by (simp add: apply_group_result1_def applyWriteResult_def setWriteFailure_def Let_def case_prod_beta)

lemma applyWriteGroupResult_length [simp]: "length (applyWriteGroupResult ops rs x) = length rs"
  unfolding applyWriteGroupResult_def by (rule fold_update_length)

lemma applyWriteGroupResult_other: "i \<notin> pw_index ` set ops \<Longrightarrow> applyWriteGroupResult ops rs x ! i = rs ! i"
  unfolding applyWriteGroupResult_def by (rule fold_update_other)

lemma extend_twice:
  "extend_candidate (Some (extend_candidate c m1)) m2 = extend_candidate c (m1\<lparr>so_document := so_document m2\<rparr>)"
  by (simp add: extend_candidate_def split: option.splits)

text \<open>
  What a preparation for several callers establishes: the parts it keeps were run in order on the
  snapshot, and every operation it drops has a failure.
\<close>

definition folded ::
    "lua \<Rightarrow> parsedWrite list \<Rightarrow> readResult \<Rightarrow> writeOperation option \<Rightarrow> WriteResult list \<Rightarrow> writeOperation option \<Rightarrow> WriteResult list \<Rightarrow> bool" where
  "folded lua ops current candidate results candidate' rs \<longleftrightarrow>
     length rs = length results \<and> (\<forall>i. i \<notin> pw_index ` set ops \<longrightarrow> rs ! i = results ! i) \<and>
     (\<exists>kept d wrote seq. subseq kept ops \<and> run_sequence lua kept (snapshot_document current) False results = (d, wrote, seq) \<and>
        (\<forall>op \<in> set kept. rs ! pw_index op = seq ! pw_index op) \<and>
        (\<forall>op \<in> set ops - set kept. wres_failure (rs ! pw_index op) \<noteq> None) \<and>
        (\<not> wrote \<longrightarrow> candidate' = candidate) \<and>
        (wrote \<longrightarrow> (\<exists>op \<in> set kept. candidate' = Some (extend_candidate candidate
           \<lparr>so_address = pw_address op, so_document = the d, so_precondition = snapshot_condition (as_snapshot current)\<rparr>))))"

lemma folded_Nil: "folded lua [] current candidate results candidate results"
  by (auto simp: folded_def intro!: exI[of _ "[]"])

text \<open>A part that is dropped.\<close>

lemma folded_drop:
  assumes "folded lua rest current candidate results1 candidate' rs"
    and "distinct (map pw_index (part @ rest))" "\<forall>op \<in> set (part @ rest). pw_index op < length results"
    and "length results1 = length results" "\<forall>i. i \<notin> pw_index ` set part \<longrightarrow> results1 ! i = results ! i"
    and "\<forall>op \<in> set part. wres_failure (results1 ! pw_index op) \<noteq> None"
  shows "folded lua (part @ rest) current candidate results candidate' rs"
proof -
  obtain kept d wrote seq where k: "subseq kept rest"
    and run: "run_sequence lua kept (snapshot_document current) False results1 = (d, wrote, seq)"
    and res: "\<forall>op \<in> set kept. rs ! pw_index op = seq ! pw_index op"
      "\<forall>op \<in> set rest - set kept. wres_failure (rs ! pw_index op) \<noteq> None"
    and cand: "\<not> wrote \<longrightarrow> candidate' = candidate"
      "wrote \<longrightarrow> (\<exists>op \<in> set kept. candidate' = Some (extend_candidate candidate
           \<lparr>so_address = pw_address op, so_document = the d, so_precondition = snapshot_condition (as_snapshot current)\<rparr>))"
    and len: "length rs = length results1" "\<forall>i. i \<notin> pw_index ` set rest \<longrightarrow> rs ! i = results1 ! i"
    using assms(1) unfolding folded_def by blast
  have sub: "set kept \<subseteq> set rest" using k by (rule subseq_set)
  have dis: "distinct (map pw_index kept)" "pw_index ` set part \<inter> pw_index ` set rest = {}"
    using subseq_distinct[OF subseq_map[OF k]] assms(2) by auto
  have "pw_index op \<notin> pw_index ` set part" if "op \<in> set kept" for op using that sub dis(2) by blast
  then have "\<forall>op \<in> set kept. results ! pw_index op = results1 ! pw_index op \<and> pw_index op < length results1"
    using assms(3,4,5) sub by auto
  from run_sequence_local[OF run dis(1) assms(4)[symmetric] this] obtain seq' where
    run': "run_sequence lua kept (snapshot_document current) False results = (d, wrote, seq')"
      "\<forall>op \<in> set kept. seq' ! pw_index op = seq ! pw_index op" by blast
  have "wres_failure (rs ! pw_index op) \<noteq> None" if "op \<in> set (part @ rest) - set kept" for op
    using that res(2) assms(6) len(2) dis(2) by (cases "op \<in> set rest") (auto simp: disjoint_iff)
  then show ?thesis
    unfolding folded_def using run' res(1) cand len assms(4,5) k
    by (intro conjI exI[of _ kept] exI[of _ d] exI[of _ wrote] exI[of _ seq']) (auto simp: image_Un intro: list_emb_append2)
qed

text \<open>A part that is kept.\<close>

lemma folded_keep:
  assumes "folded lua rest current' cand1 results1 candidate' rs"
    and "distinct (map pw_index (part @ rest))" "\<forall>op \<in> set (part @ rest). pw_index op < length results"
    and "run_sequence lua part (snapshot_document current) False results = (d1, wrote1, results1)"
    and "\<not> wrote1 \<longrightarrow> current' = current \<and> cand1 = candidate"
    and "wrote1 \<longrightarrow> (\<exists>op \<in> set part. current' = found_document current (the d1) \<and> cand1 = Some (extend_candidate candidate
           \<lparr>so_address = pw_address op, so_document = the d1, so_precondition = snapshot_condition (as_snapshot current)\<rparr>))"
  shows "folded lua (part @ rest) current candidate results candidate' rs"
proof -
  obtain kept d wrote seq where k: "subseq kept rest"
    and run: "run_sequence lua kept (snapshot_document current') False results1 = (d, wrote, seq)"
    and res: "\<forall>op \<in> set kept. rs ! pw_index op = seq ! pw_index op"
      "\<forall>op \<in> set rest - set kept. wres_failure (rs ! pw_index op) \<noteq> None"
    and cand: "\<not> wrote \<longrightarrow> candidate' = cand1"
      "wrote \<longrightarrow> (\<exists>op \<in> set kept. candidate' = Some (extend_candidate cand1
           \<lparr>so_address = pw_address op, so_document = the d, so_precondition = snapshot_condition (as_snapshot current')\<rparr>))"
    and len: "length rs = length results1" "\<forall>i. i \<notin> pw_index ` set rest \<longrightarrow> rs ! i = results1 ! i"
    using assms(1) unfolding folded_def by blast
  have sub: "set kept \<subseteq> set rest" using k by (rule subseq_set)
  have dis: "pw_index ` set part \<inter> pw_index ` set rest = {}" using assms(2) by auto
  have doc: "snapshot_document current' = d1"
    using assms(5,6) run_sequence_unwritten[of lua part "snapshot_document current" False results d1 results1] assms(4)
      run_sequence_stored[OF assms(4)] by (cases wrote1) auto
  have run': "run_sequence lua (part @ kept) (snapshot_document current) False results = (d, wrote1 \<or> wrote, seq)"
    using run_sequence_flag[OF run] assms(4) doc by (simp add: run_sequence_append)
  have part: "rs ! pw_index op = seq ! pw_index op" if "op \<in> set part" for op
  proof -
    have "pw_index op \<notin> pw_index ` set kept" "pw_index op \<notin> pw_index ` set rest" using that sub dis by blast+
    then show ?thesis using len(2) run_sequence_other[OF run] by simp
  qed
  have "length rs = length results" using len(1) run_sequence_length[OF assms(4)] by simp
  moreover have "rs ! i = results ! i" if "i \<notin> pw_index ` set (part @ rest)" for i
    using that len(2) run_sequence_other[OF assms(4), of i] by (simp add: image_Un)
  moreover have "\<exists>op \<in> set (part @ kept). candidate' = Some (extend_candidate candidate
      \<lparr>so_address = pw_address op, so_document = the d, so_precondition = snapshot_condition (as_snapshot current)\<rparr>)"
    if "wrote1 \<or> wrote"
  proof (cases wrote1)
    case True
    then obtain op where op: "op \<in> set part" "current' = found_document current (the d1)" "cand1 = Some (extend_candidate candidate
        \<lparr>so_address = pw_address op, so_document = the d1, so_precondition = snapshot_condition (as_snapshot current)\<rparr>)"
      using assms(6) by blast
    show ?thesis
    proof (cases wrote)
      case True
      then show ?thesis using op cand(2) by (intro bexI[of _ op]) (auto simp: extend_twice)
    next
      case False
      then have "d = d1" using run_sequence_unwritten[of lua kept _ False results1 d seq] run doc by simp
      then show ?thesis using op cand(1) False by (intro bexI[of _ op]) simp_all
    qed
  next
    case False
    then show ?thesis using that cand(2) assms(5) by auto
  qed
  moreover have "candidate' = candidate" if "\<not> (wrote1 \<or> wrote)" using that cand(1) assms(5) by blast
  ultimately show ?thesis
    unfolding folded_def using run' part res k
    by (intro conjI exI[of _ "part @ kept"] exI[of _ d] exI[of _ "wrote1 \<or> wrote"] exI[of _ seq])
      (auto simp: list_emb_append_mono)
qed

lemma folded_parts:
  assumes "prepare_parts lua out grow owner inputs outputs ops current candidate results cs w = (candidate', rs, cs', w')"
    and "snapshot_ok current" "distinct (map pw_index ops)" "\<forall>op \<in> set ops. pw_index op < length results"
  shows "folded lua ops current candidate results candidate' rs"
  using assms
proof (induction "length ops" arbitrary: ops current candidate results cs w rule: less_induct)
  case less
  show ?case
  proof (cases ops)
    case Nil
    then show ?thesis using less.prems(1) by (simp add: prepare_parts.simps[of lua out grow owner inputs outputs "[]"] folded_Nil)
  next
    case (Cons first more)
    define o' where "o' = owner (pw_index first)"
    define part where "part = takeWhile (\<lambda>op. owner (pw_index op) = o') ops"
    define rest where "rest = dropWhile (\<lambda>op. owner (pw_index op) = o') ops"
    define refuse where "refuse e rs = applyWriteGroupResult part rs (empty_writeResult\<lparr>sw_status := WriteStatusFailed, sw_err := Some e\<rparr>)" for e rs
    have ops: "ops = part @ rest" by (simp add: part_def rest_def)
    have shorter: "length rest < length ops" using Cons by (simp add: rest_def o'_def less_Suc_eq_le length_dropWhile_le)
    have idx: "distinct (map pw_index (part @ rest))" "\<forall>op \<in> set (part @ rest). pw_index op < length results"
      using less.prems(3,4) ops by simp_all
    obtain e1 cs1 w1 where e1: "(if rr_status current = ReadStatusFound
        then Reserve out grow (inputs o') (int (length (sd_payload (rr_document current)))) cs w else (None, cs, w)) = (e1, cs1, w1)"
      using prod_cases3 by blast
    let ?next = "prepare_parts lua out grow owner inputs outputs rest"
    have run: "(candidate', rs, cs', w') =
      (case e1 of Some e \<Rightarrow> ?next current candidate (refuse e results) cs1 w1
       | None \<Rightarrow> (case prepare_loop lua part current None results of
           (None, r) \<Rightarrow> ?next current candidate r cs1 w1
         | (Some m, r) \<Rightarrow> (case Reserve out grow (outputs o') (int (length (sd_payload (so_document m)))) cs1 w1 of
             (Some e, cs2, w2) \<Rightarrow> ?next current candidate (refuse e r) cs2 w2
           | (None, cs2, w2) \<Rightarrow> ?next (found_document current (so_document m)) (Some (extend_candidate candidate m)) r cs2 w2)))"
      using less.prems(1) e1
      unfolding prepare_parts.simps[of lua out grow owner inputs outputs ops] part_def rest_def refuse_def o'_def
      by (simp add: Cons Let_def cong: option.case_cong prod.case_cong)
    have drop: "folded lua ops current candidate results candidate' rs"
      if "?next current candidate (refuse e r) cs2 w2 = (candidate', rs, cs', w')" "length r = length results"
        "\<forall>i. i \<notin> pw_index ` set part \<longrightarrow> r ! i = results ! i" for e r cs2 w2
    proof -
      have f: "folded lua rest current candidate (refuse e r) candidate' rs"
        using less.hyps[OF shorter that(1) less.prems(2)] idx that(2) by (simp add: refuse_def)
      have "\<forall>op \<in> set part. wres_failure (refuse e r ! pw_index op) \<noteq> None"
        using idx that(2) by (simp add: refuse_def applyWriteGroupResult_nth refused_result)
      then show ?thesis unfolding ops
        using that(2,3) by (intro folded_drop[OF f idx]) (simp_all add: refuse_def applyWriteGroupResult_other)
    qed
    obtain d1 wrote1 r1 where seq: "run_sequence lua part (snapshot_document current) False results = (d1, wrote1, r1)"
      using prod_cases3 by blast
    note loop = prepare_loop_run[OF less.prems(2) seq]
    have r1: "length r1 = length results" "\<forall>i. i \<notin> pw_index ` set part \<longrightarrow> r1 ! i = results ! i"
      using run_sequence_length[OF seq] run_sequence_other[OF seq] by blast+
    have keep: "folded lua ops current candidate results candidate' rs"
      if "?next current' cand1 r1 cs2 w2 = (candidate', rs, cs', w')" "snapshot_ok current'"
        "\<not> wrote1 \<longrightarrow> current' = current \<and> cand1 = candidate"
        "wrote1 \<longrightarrow> (\<exists>op \<in> set part. current' = found_document current (the d1) \<and> cand1 = Some (extend_candidate candidate
           \<lparr>so_address = pw_address op, so_document = the d1, so_precondition = snapshot_condition (as_snapshot current)\<rparr>))"
      for current' cand1 cs2 w2
      using less.hyps[OF shorter that(1,2)] idx r1(1) unfolding ops
      by (intro folded_keep[OF _ idx seq that(3,4)]) simp
    show ?thesis
    proof (cases e1)
      case None
      show ?thesis
      proof (cases wrote1)
        case False
        then have "prepare_loop lua part current None results = (None, r1)" using loop by (simp add: prod_eq_iff)
        then show ?thesis using keep[of current candidate cs1 w1] run None False less.prems(2) by simp
      next
        case True
        then obtain op where op: "op \<in> set part" "prepare_loop lua part current None results = (Some
            \<lparr>so_address = pw_address op, so_document = the d1, so_precondition = snapshot_condition (as_snapshot current)\<rparr>, r1)"
          using loop by (auto simp: prod_eq_iff)
        obtain e2 cs2 w2 where e2: "Reserve out grow (outputs o') (int (length (sd_payload (the d1)))) cs1 w1 = (e2, cs2, w2)"
          using prod_cases3 by blast
        show ?thesis
          using run None op e2 True drop[of _ r1 cs2 w2] r1 keep[of "found_document current (the d1)" _ cs2 w2]
          by (cases e2) auto
      qed
    next
      case (Some e)
      then show ?thesis using drop[of e results cs1 w1] run by simp
    qed
  qed
qed

section \<open>Properties\<close>

text \<open>
  C19: grouping. The groups are one per record, in the order in which the request first names the
  records; a group holds exactly the operations on its record in request order, and counts its
  merges.
\<close>

theorem buildWriteGroups_groups:
  "buildWriteGroups ops =
     map (\<lambda>k. \<lparr>wg_operations = filter (\<lambda>op. pw_identity op = k) ops,
               wg_merges = int (length (filter (\<lambda>op. pw_identity op = k \<and> pw_merge op \<noteq> None) ops))\<rparr>)
       (rev (remdups (rev (map pw_identity ops))))"
  unfolding buildWriteGroups_reference group_for_def identities_def by (simp add: Let_def conj_commute)

text \<open>
  C20: a folded group commits atomically. Take a snapshot of a record of the memory store, fold a
  group onto it, let other clients write and delete records, then write the candidate. If the write
  is applied, the record becomes what the operations of the group, run one after the other on the
  record as it is at that moment, make of it, and each operation gets the result of that run:
  applied with the new revision, or its own failure. Otherwise no record changes.
\<close>

theorem group_commit_atomic:
  assumes "mem_inv s" "mem_step\<^sup>*\<^sup>* s s'"
    and "snapshot_ok stored" "as_snapshot stored = mem_rec s k"
    and "\<forall>op \<in> set (wg_operations g). ad_routingKey (pw_address op) = k \<and> pw_index op < length results"
    and "distinct (map pw_index (wg_operations g))"
    and "prepareWriteGroup lua g stored results = (Some w, rs)" "mem_write1 w s' = (x, s'')"
    and "run_sequence lua (wg_operations g) (map_option fst (mem_rec s' k)) False results = (d, wrote, seq)"
  shows "if sw_status x = WriteStatusApplied
    then mem_rec s'' = (mem_rec s')(k \<mapsto> (the d, sw_revision x)) \<and>
      (\<forall>op \<in> set (wg_operations g). applyWriteGroupResult (wg_operations g) rs x ! pw_index op =
         (if wres_failure (seq ! pw_index op) = None
          then (clear_result (results ! pw_index op))\<lparr>wres_status := WS_APPLIED, wres_revision := Some (sw_revision x)\<rparr>
          else seq ! pw_index op))
    else mem_rec s'' = mem_rec s'"
proof -
  obtain d1 wrote1 seq1 where run: "run_sequence lua (wg_operations g) (snapshot_document stored) False results = (d1, wrote1, seq1)"
    using prod_cases3 by blast
  note loop = prepare_loop_run[OF assms(3) run, folded prepareWriteGroup_def, unfolded assms(7) fst_conv snd_conv]
  then obtain op where op: "op \<in> set (wg_operations g)" "rs = seq1"
    "w = \<lparr>so_address = pw_address op, so_document = the d1, so_precondition = snapshot_condition (mem_rec s k)\<rparr>"
    using assms(4) by (cases wrote1) auto
  let ?f = "\<lambda>r. the (fst (run_sequence lua (wg_operations g) (map_option fst r) False results))"
  have k: "k = ad_routingKey (so_address w)" and pre: "so_precondition w = snapshot_condition (mem_rec s k)"
    using op assms(5) by simp_all
  have "so_document w = ?f (mem_rec s k)" using op run assms(4) by (simp add: snapshot_document_def)
  note commit = mem.commit_atomic[where f = ?f, OF assms(1,2) _ k this assms(8)]
  have store: "mem_rec s'' = (if sw_status x = WriteStatusApplied then (mem_rec s')(k \<mapsto> (the d, sw_revision x)) else mem_rec s')"
    using commit[OF pre] assms(9) by simp
  have "seq1 = seq" if "sw_status x = WriteStatusApplied"
  proof -
    have "condition_holds (snapshot_condition (mem_rec s k)) (mem_rec s' k)"
      using mem.applied[OF assms(8) that] unfolding k[symmetric] pre by blast
    then have "mem_rec s' k = mem_rec s k" using mem.snapshot_current[OF assms(1,2)] by blast
    then show ?thesis using run assms(4,9) by (simp add: snapshot_document_def)
  qed
  then show ?thesis
    using store committed_result[OF assms(9,6)] assms(5) op(2) by auto
qed

text \<open>
  A group on record \<open>a\<close> (create, append by a merge, create again), and another client that writes
  record \<open>b\<close> between the snapshot and the commit.
\<close>

definition demo_api_write :: WriteOperation where
  "demo_api_write = \<lparr>wo_address = None, wo_returnDocument = False, wo_action = NoAction\<rparr>"

definition demo_json :: "bytes \<Rightarrow> storageDocument" where
  "demo_json p = \<lparr>sd_encoding = EncodingJSON, sd_payload = p\<rparr>"

definition demo_parsed_put :: "nat \<Rightarrow> string \<Rightarrow> bytes \<Rightarrow> preconditionKind \<Rightarrow> parsedWrite" where
  "demo_parsed_put i k p kind =
     \<lparr>pw_index = i, pw_address = demo_address k, pw_original = demo_api_write,
      pw_put = Some \<lparr>pp_document = demo_json p, pp_precondition = no_precondition\<lparr>pc_kind := kind\<rparr>\<rparr>,
      pw_merge = None, pw_identity = k\<rparr>"

definition demo_parsed_merge :: "nat \<Rightarrow> string \<Rightarrow> bytes \<Rightarrow> parsedWrite" where
  "demo_parsed_merge i k p =
     \<lparr>pw_index = i, pw_address = demo_address k, pw_original = demo_api_write, pw_put = None,
      pw_merge = Some \<lparr>pm_incoming = demo_json p, pm_program = \<lparr>mp_Source = [], mp_SHA256 = []\<rparr>\<rparr>, pw_identity = k\<rparr>"

definition demo_lua :: lua where
  "demo_lua op current =
     Inr (demo_json ((case current of None \<Rightarrow> [] | Some d \<Rightarrow> sd_payload d) @
       (case pw_merge op of None \<Rightarrow> [] | Some m \<Rightarrow> sd_payload (pm_incoming m))))"

definition demo_group :: writeGroup where
  "demo_group =
     \<lparr>wg_operations = [demo_parsed_put 0 ''a'' [1] PreconditionRecordNotExists, demo_parsed_merge 1 ''a'' [2],
        demo_parsed_put 2 ''a'' [3] PreconditionRecordNotExists], wg_merges = 1\<rparr>"

definition demo_result :: "nat \<Rightarrow> WriteResult" where
  "demo_result i = \<lparr>wres_index = of_nat i, wres_status = WS_UNSPECIFIED, wres_revision = None, wres_failure = None, wres_document = None\<rparr>"

definition demo_results :: "WriteResult list" where
  "demo_results = map demo_result [0..<3]"

definition demo_absent :: readResult where
  "demo_absent = empty_readResult\<lparr>rr_status := ReadStatusNotFound\<rparr>"

theorem group_commit_atomic_witness:
  "let s' = snd (mem_write1 (demo_put ''b'' [7] PreconditionNone) mem_New);
       (w, rs) = prepareWriteGroup demo_lua demo_group demo_absent demo_results;
       (x, s'') = mem_write1 (the w) s'
   in sw_status x = WriteStatusApplied \<and>
      map_option fst (mem_rec s'' (ad_routingKey (demo_address ''a''))) = Some (demo_json [1, 2]) \<and>
      map wres_status (applyWriteGroupResult (wg_operations demo_group) rs x) = [WS_APPLIED, WS_APPLIED, WS_PRECONDITION_FAILED]"
proof -
  let ?s' = "snd (mem_write1 (demo_put ''b'' [7] PreconditionNone) mem_New)"
  let ?p = "prepareWriteGroup demo_lua demo_group demo_absent demo_results"
  let ?k = "ad_routingKey (demo_address ''a'')"
  let ?w = "the (fst ?p)" let ?x = "mem_write1 ?w ?s'"
  let ?run = "run_sequence demo_lua (wg_operations demo_group) (map_option fst (mem_rec ?s' ?k)) False demo_results"
  have inv: "mem_inv mem_New" by (simp add: mem_inv_def mem_rec_def mem_New_def)
  have step: "mem_step\<^sup>*\<^sup>* mem_New ?s'" by (rule r_into_rtranclp, rule mem_step.put) code_simp
  have ok: "snapshot_ok demo_absent" "as_snapshot demo_absent = mem_rec mem_New ?k"
    "\<forall>op \<in> set (wg_operations demo_group). ad_routingKey (pw_address op) = ?k \<and> pw_index op < length demo_results"
    "distinct (map pw_index (wg_operations demo_group))"
    by (simp_all add: snapshot_ok_def as_snapshot_def demo_absent_def empty_readResult_def mem_rec_def mem_New_def
        demo_group_def demo_parsed_put_def demo_parsed_merge_def demo_results_def)
  have p: "?p = (Some ?w, snd ?p)" "?x = (fst ?x, snd ?x)" "?run = (fst ?run, fst (snd ?run), snd (snd ?run))"
    using prod.collapse by (simp_all add: prod_eq_iff) code_simp
  have ev: "sw_status (fst ?x) = WriteStatusApplied" "fst ?run = Some (demo_json [1, 2])"
    "map wres_status (applyWriteGroupResult (wg_operations demo_group) (snd ?p) (fst ?x)) = [WS_APPLIED, WS_APPLIED, WS_PRECONDITION_FAILED]"
    by code_simp+
  have "mem_rec (snd ?x) ?k = Some (demo_json [1, 2], sw_revision (fst ?x))"
    using group_commit_atomic[OF inv step ok p] ev(1,2) by simp
  then show ?thesis using ev(1,3) by (simp add: Let_def case_prod_beta)
qed

text \<open>
  C21: folding for several callers drops whole callers' parts and nothing else. On a successful
  snapshot, the operations that are kept have the results of running them, and only them, in order
  on the snapshot; every dropped operation has a failure. There is a candidate exactly when a kept
  operation stores a document; it is the last document stored, under the precondition that the
  record is still as in the snapshot.
\<close>

theorem batched_fold_keeps_order:
  assumes "prepareBatchedWriteGroup lua out grow owner inputs outputs g stored results cs w = (candidate, rs, cs', w')"
    and "snapshot_ok stored" "distinct (map pw_index (wg_operations g))"
    and "\<forall>op \<in> set (wg_operations g). pw_index op < length results"
  shows "\<exists>kept d wrote seq. subseq kept (wg_operations g) \<and>
    run_sequence lua kept (snapshot_document stored) False results = (d, wrote, seq) \<and>
    (\<forall>op \<in> set kept. rs ! pw_index op = seq ! pw_index op) \<and>
    (\<forall>op \<in> set (wg_operations g) - set kept. wres_failure (rs ! pw_index op) \<noteq> None) \<and>
    (case candidate of
       None \<Rightarrow> \<not> wrote
     | Some c \<Rightarrow> wrote \<and> d = Some (so_document c) \<and> so_precondition c = snapshot_condition (as_snapshot stored) \<and>
         (\<exists>op \<in> set kept. so_address c = pw_address op))"
proof -
  have "folded lua (wg_operations g) stored None results candidate rs"
    using folded_parts[OF assms(1)[unfolded prepareBatchedWriteGroup_def] assms(2-4)] .
  then obtain kept d wrote seq where k: "subseq kept (wg_operations g)"
    "run_sequence lua kept (snapshot_document stored) False results = (d, wrote, seq)"
    "\<forall>op \<in> set kept. rs ! pw_index op = seq ! pw_index op"
    "\<forall>op \<in> set (wg_operations g) - set kept. wres_failure (rs ! pw_index op) \<noteq> None"
    and c: "\<not> wrote \<longrightarrow> candidate = None" "wrote \<longrightarrow> (\<exists>op \<in> set kept. candidate = Some (extend_candidate None
      \<lparr>so_address = pw_address op, so_document = the d, so_precondition = snapshot_condition (as_snapshot stored)\<rparr>))"
    unfolding folded_def by blast
  have "d \<noteq> None" if wrote using run_sequence_stored[OF k(2) that] by simp
  then show ?thesis
    using k c by (intro exI[of _ kept] exI[of _ d] exI[of _ wrote] exI[of _ seq])
      (cases wrote; auto simp: extend_candidate_def)
qed

text \<open>Caller 1 owns the merge and cannot afford its input, so only the two creations run.\<close>

theorem batched_fold_keeps_order_witness:
  "let budgets = (\<lambda>o'. Plain o'); cells = [\<lparr>rb_remaining = 1000, rb_maximum = 1000, rb_tracked = False, rb_reports = []\<rparr>,
         \<lparr>rb_remaining = 100, rb_maximum = 100, rb_tracked = False, rb_reports = []\<rparr>];
       (candidate, rs, _) = prepareBatchedWriteGroup demo_lua (\<lambda>_ w. (None, w)) (\<lambda>_ w. (None, w)) (\<lambda>i. i mod 2) budgets budgets
         demo_group demo_absent demo_results cells ()
   in map_option so_document candidate = Some (demo_json [1]) \<and> wres_failure (rs ! 1) \<noteq> None \<and>
      (\<exists>kept d wrote seq. subseq kept (wg_operations demo_group) \<and>
         run_sequence demo_lua kept None False demo_results = (d, wrote, seq) \<and> d = Some (demo_json [1]))"
proof -
  let ?b = "\<lambda>o' :: nat. Plain o'"
  let ?cells = "[\<lparr>rb_remaining = 1000, rb_maximum = 1000, rb_tracked = False, rb_reports = []\<rparr>,
         \<lparr>rb_remaining = 100, rb_maximum = 100, rb_tracked = False, rb_reports = []\<rparr>]"
  let ?p = "prepareBatchedWriteGroup demo_lua (\<lambda>_ w. (None, w)) (\<lambda>_ w. (None, w)) (\<lambda>i. i mod 2) ?b ?b
         demo_group demo_absent demo_results ?cells ()"
  have p: "?p = (fst ?p, fst (snd ?p), fst (snd (snd ?p)), snd (snd (snd ?p)))" by (simp only: prod.collapse)
  have ok: "snapshot_ok demo_absent" "distinct (map pw_index (wg_operations demo_group))"
    "\<forall>op \<in> set (wg_operations demo_group). pw_index op < length demo_results"
    by (simp_all add: snapshot_ok_def demo_absent_def demo_group_def demo_parsed_put_def demo_parsed_merge_def demo_results_def)
  have ev: "map_option so_document (fst ?p) = Some (demo_json [1])" "wres_failure (fst (snd ?p) ! 1) \<noteq> None"
    "snapshot_document demo_absent = None" by code_simp+
  then obtain c where c: "fst ?p = Some c" "so_document c = demo_json [1]" by (auto simp: map_option_case split: option.splits)
  have "\<exists>kept d wrote seq. subseq kept (wg_operations demo_group) \<and>
      run_sequence demo_lua kept None False demo_results = (d, wrote, seq) \<and> d = Some (demo_json [1])"
    using batched_fold_keeps_order[OF p ok] ev(3) unfolding c(1) option.case c(2) by metis
  then show ?thesis using ev(1,2) unfolding Let_def case_prod_beta by blast
qed

lemma prepare_loop_failed:
  assumes "\<not> snapshot_ok stored" "distinct (map pw_index ops)" "\<forall>op \<in> set ops. pw_index op < length results"
    and "prepare_loop lua ops stored candidate results = (candidate', rs)"
  shows "candidate' = candidate \<and> length rs = length results \<and> (\<forall>i. i \<notin> pw_index ` set ops \<longrightarrow> rs ! i = results ! i) \<and>
    (\<forall>op \<in> set ops. wres_failure (rs ! pw_index op) \<noteq> None)"
  using assms
proof (induction ops arbitrary: results)
  case (Cons op ops)
  let ?r = "prepare_operation lua op stored (clear_result (results ! pw_index op))"
  have bad: "fst ?r = None" "wres_failure (snd ?r) \<noteq> None"
    using Cons.prems(1)
    by (auto simp: snapshot_ok_def prepare_operation_def prepareFoldedPut_def prepareMergeOperation_def setWriteFailure_def
        Let_def case_prod_beta split: option.splits readStatus.splits)
  have run: "prepare_loop lua ops stored candidate (results[pw_index op := snd ?r]) = (candidate', rs)"
    using Cons.prems(4) bad(1) by (simp add: Let_def case_prod_beta)
  have "pw_index op \<notin> pw_index ` set ops" using Cons.prems(2) by auto
  then show ?case using Cons.IH[OF Cons.prems(1) _ _ run] Cons.prems(2,3) bad(2) by auto
qed simp

text \<open>
  C22: a group whose snapshot could not be read is not written: folding it gives no candidate and
  every one of its operations, and no other operation, gets a failure.
\<close>

theorem failed_snapshot_fails_group:
  assumes "rr_status stored \<noteq> ReadStatusFound" "rr_status stored \<noteq> ReadStatusNotFound"
    and "distinct (map pw_index (wg_operations g))" "\<forall>op \<in> set (wg_operations g). pw_index op < length results"
    and "prepareWriteGroup lua g stored results = (candidate, rs)"
  shows "candidate = None \<and> (\<forall>op \<in> set (wg_operations g). wres_failure (rs ! pw_index op) \<noteq> None) \<and>
    (\<forall>i. i \<notin> pw_index ` set (wg_operations g) \<longrightarrow> rs ! i = results ! i)"
  using prepare_loop_failed[OF _ assms(3,4) assms(5)[unfolded prepareWriteGroup_def]] assms(1,2) by (simp add: snapshot_ok_def)

theorem failed_snapshot_fails_group_witness:
  "let (candidate, rs) = prepareWriteGroup demo_lua demo_group (empty_readResult\<lparr>rr_status := ReadStatusFailed, rr_err := Some (ErrText ''down'')\<rparr>) demo_results
   in candidate = None \<and> wres_failure (rs ! 0) \<noteq> None"
proof -
  let ?stored = "empty_readResult\<lparr>rr_status := ReadStatusFailed, rr_err := Some (ErrText ''down'')\<rparr>"
  obtain c rs where p: "prepareWriteGroup demo_lua demo_group ?stored demo_results = (c, rs)" by fastforce
  have "rr_status ?stored \<noteq> ReadStatusFound" "rr_status ?stored \<noteq> ReadStatusNotFound"
    "distinct (map pw_index (wg_operations demo_group))" "\<forall>op \<in> set (wg_operations demo_group). pw_index op < length demo_results"
    by (simp_all add: demo_group_def demo_parsed_put_def demo_parsed_merge_def demo_results_def)
  from failed_snapshot_fails_group[OF this p] show ?thesis
    using p by (simp add: demo_group_def demo_parsed_put_def)
qed

end
