(* ===== verification/Request_Budgets.thy ===== *)
theory Request_Budgets
  imports Write_Fold
begin

text \<open>
  Budgets of coalesced requests, \<open>src/internal/service/request_budgets.go\<close>, and the reservation of
  returned documents, \<open>write_return.go\<close>. What a caller's memory scope answers (\<open>output\<close>) is an
  argument. A nil \<open>*requestBudgets\<close> or \<open>*writeReturns\<close> is \<open>None\<close>.
\<close>

section \<open>Ownership of operations\<close>

text \<open>\<open>q_scopes\<close> says for each caller whether its context carries a memory scope.\<close>

record requestBudgets =
  q_owners :: "nat list"
  q_count :: nat
  q_trackers :: "Tracker option list"
  q_scopes :: "bool list"

definition callerCount :: "requestBudgets option \<Rightarrow> nat" where
  "callerCount b = (case b of None \<Rightarrow> 1 | Some q \<Rightarrow> q_count q)"

definition owner :: "requestBudgets option \<Rightarrow> nat \<Rightarrow> nat" where
  "owner b index = (case b of None \<Rightarrow> 0 | Some q \<Rightarrow> q_owners q ! index)"

definition tracker :: "requestBudgets option \<Rightarrow> nat \<Rightarrow> Tracker option" where
  "tracker b o' =
     (case b of None \<Rightarrow> None | Some q \<Rightarrow> if o' \<ge> length (q_trackers q) then None else q_trackers q ! o')"

fun fresh_loop :: "requestBudgets option \<Rightarrow> Kind \<Rightarrow> int \<Rightarrow> nat list \<Rightarrow> cells \<Rightarrow> readBudget list \<times> cells" where
  "fresh_loop b kind maxBytes [] cs = ([], cs)"
| "fresh_loop b kind maxBytes (index # rest) cs =
     (let (x, cs1) = Fresh (tracker b index) kind maxBytes cs; (xs, cs2) = fresh_loop b kind maxBytes rest cs1
      in (x # xs, cs2))"

definition fresh :: "requestBudgets option \<Rightarrow> Kind \<Rightarrow> int \<Rightarrow> cells \<Rightarrow> readBudget list \<times> cells" where
  "fresh b kind maxBytes cs = fresh_loop b kind maxBytes [0..<callerCount b] cs"

definition budgets_add :: "nat \<Rightarrow> requestBudgets \<Rightarrow> requestBudgets" where
  "budgets_add n b = b\<lparr>q_owners := q_owners b @ replicate n (q_count b), q_count := q_count b + 1\<rparr>"

text \<open>A context is given by its tracker and whether it has a memory scope.\<close>

definition addContext :: "Tracker option \<times> bool \<Rightarrow> nat \<Rightarrow> requestBudgets \<Rightarrow> requestBudgets" where
  "addContext ctx n b =
     (let b1 = budgets_add n b
      in b1\<lparr>q_trackers := q_trackers b1 @ [fst ctx], q_scopes := q_scopes b1 @ [snd ctx]\<rparr>)"

definition no_budgets :: requestBudgets where
  "no_budgets = \<lparr>q_owners = [], q_count = 0, q_trackers = [], q_scopes = []\<rparr>"

definition contextBudgets :: "Tracker option \<times> bool \<Rightarrow> nat \<Rightarrow> requestBudgets option" where
  "contextBudgets ctx n =
     (if fst ctx = None \<and> \<not> snd ctx then None else Some (addContext ctx n no_budgets))"

text \<open>The loop of \<open>sharedSnapshotBudget\<close>: each caller once, in the order of the operations.\<close>

fun shared_loop :: "nat list \<Rightarrow> readBudget list \<Rightarrow> nat list \<Rightarrow> readBudget list" where
  "shared_loop [] budgets seen = []"
| "shared_loop (o' # owners) budgets seen =
     (if o' \<in> set seen then shared_loop owners budgets seen
      else budgets ! o' # shared_loop owners budgets (o' # seen))"

definition sharedSnapshotBudget :: "nat list \<Rightarrow> readBudget list \<Rightarrow> readBudget" where
  "sharedSnapshotBudget owners budgets =
     (if length owners = 1 then budgets ! (owners ! 0)
      else if length budgets = 1 \<and> length owners > 0 then budgets ! 0
      else NewSharedReadBudget (shared_loop owners budgets []))"

text \<open>\<open>output\<close> and \<open>releaseOutput\<close>: \<open>scope\<close> is \<open>OutputFrom\<close> and \<open>free\<close> is \<open>ReleaseOutputFrom\<close> of a caller's scope.\<close>

definition budgets_output ::
    "(nat \<Rightarrow> int \<Rightarrow> 'w \<Rightarrow> err option \<times> 'w) \<Rightarrow> requestBudgets option \<Rightarrow> nat \<Rightarrow> int \<Rightarrow> 'w \<Rightarrow> err option \<times> 'w" where
  "budgets_output scope b o' n w =
     (case b of None \<Rightarrow> (None, w) | Some q \<Rightarrow> if o' \<ge> length (q_scopes q) then (None, w) else scope o' n w)"

definition releaseOutput :: "(nat \<Rightarrow> int \<Rightarrow> 'w \<Rightarrow> 'w) \<Rightarrow> requestBudgets option \<Rightarrow> nat \<Rightarrow> int \<Rightarrow> 'w \<Rightarrow> 'w" where
  "releaseOutput free b o' n w =
     (case b of None \<Rightarrow> w | Some q \<Rightarrow> if o' \<ge> length (q_scopes q) then w else free o' n w)"

definition ownsInput :: "requestBudgets option \<Rightarrow> bool" where
  "ownsInput b = (case b of None \<Rightarrow> False | Some q \<Rightarrow> length (q_scopes q) = q_count q \<and> list_all id (q_scopes q))"

section \<open>Returned documents\<close>

text \<open>\<open>wt_reports\<close> records what the trackers observe, by caller.\<close>

record writeReturns =
  wt_remaining :: "int list"
  wt_maximum :: "int list"
  wt_sizes :: "nat \<Rightarrow> int"
  wt_owners :: "requestBudgets option"
  wt_reports :: "(nat \<times> int) list"

definition newWriteReturns :: "WriteRequest \<Rightarrow> requestBudgets option \<Rightarrow> int \<Rightarrow> writeReturns option" where
  "newWriteReturns req budgets maximum =
     (if \<not> hasWriteReturns req then None
      else let remaining = map (\<lambda>i. tracker_Limit (tracker budgets i) Returns maximum) [0..<callerCount budgets]
           in Some \<lparr>wt_remaining = remaining, wt_maximum = remaining, wt_sizes = (\<lambda>_. 0), wt_owners = budgets, wt_reports = []\<rparr>)"

fun returns_reserve_loop ::
    "(nat \<Rightarrow> int \<Rightarrow> 'w \<Rightarrow> err option \<times> 'w) \<Rightarrow> parsedWrite list \<Rightarrow> storageDocument \<Rightarrow> writeReturns \<Rightarrow> 'w \<Rightarrow> err option \<times> writeReturns \<times> 'w" where
  "returns_reserve_loop scope [] document r w = (None, r, w)"
| "returns_reserve_loop scope (operation # rest) document r w =
     (if \<not> wo_returnDocument (pw_original operation) then returns_reserve_loop scope rest document r w
      else
        let i = pw_index operation; o' = owner (wt_owners r) i; charge = int (length (sd_payload document)) + 128;
            difference = max 0 (charge - wt_sizes r i)
        in if difference > wt_remaining r ! o'
           then (Some (ResourceExhaustedError (ErrText ''returned write documents exceed response byte budget'')), r, w)
           else case budgets_output scope (wt_owners r) o' difference w of
                  (Some e, w1) \<Rightarrow> (Some (ResourceExhaustedError e), r, w1)
                | (None, w1) \<Rightarrow>
                    (let left = wt_remaining r ! o' - difference in
                     returns_reserve_loop scope rest document
                       (r\<lparr>wt_remaining := (wt_remaining r)[o' := left],
                          wt_reports := wt_reports r @ (if tracker (wt_owners r) o' = None then [] else [(o', wt_maximum r ! o' - left)]),
                          wt_sizes := (wt_sizes r)(i := max charge (wt_sizes r i))\<rparr>) w1))"

definition returns_reserve ::
    "(nat \<Rightarrow> int \<Rightarrow> 'w \<Rightarrow> err option \<times> 'w) \<Rightarrow> writeGroup \<Rightarrow> storageDocument \<Rightarrow> writeReturns option \<Rightarrow> 'w \<Rightarrow> err option \<times> writeReturns option \<times> 'w" where
  "returns_reserve scope g document r w =
     (case r of None \<Rightarrow> (None, None, w)
      | Some x \<Rightarrow> (let (e, x', w') = returns_reserve_loop scope (wg_operations g) document x w in (e, Some x', w')))"

definition retained_bytes :: "WriteResult \<Rightarrow> int" where
  "retained_bytes result = (case wres_document result of None \<Rightarrow> 0 | Some d \<Rightarrow> int (length (d_payload d)) + 128)"

fun settle_loop ::
    "(nat \<Rightarrow> int \<Rightarrow> 'w \<Rightarrow> 'w) \<Rightarrow> parsedWrite list \<Rightarrow> WriteResult list \<Rightarrow> writeReturns \<Rightarrow> 'w \<Rightarrow> writeReturns \<times> 'w" where
  "settle_loop free [] results r w = (r, w)"
| "settle_loop free (operation # rest) results r w =
     (let i = pw_index operation; o' = owner (wt_owners r) i;
          unused = max 0 (wt_sizes r i - retained_bytes (results ! i))
      in settle_loop free rest results
           (r\<lparr>wt_remaining := (wt_remaining r)[o' := wt_remaining r ! o' + unused], wt_sizes := (wt_sizes r)(i := 0)\<rparr>)
           (releaseOutput free (wt_owners r) o' unused w))"

definition settle ::
    "(nat \<Rightarrow> int \<Rightarrow> 'w \<Rightarrow> 'w) \<Rightarrow> writeGroup \<Rightarrow> WriteResult list \<Rightarrow> writeReturns option \<Rightarrow> 'w \<Rightarrow> writeReturns option \<times> 'w" where
  "settle free g results r w =
     (case r of None \<Rightarrow> (None, w)
      | Some x \<Rightarrow> (let (x', w') = settle_loop free (wg_operations g) results x w in (Some x', w')))"

section \<open>Every caller keeps within its limit\<close>

text \<open>
  \<open>kept i\<close> is what operation \<open>i\<close> has kept of its reservation when it was settled. The operations of a
  request are \<open>0..<n\<close>.
\<close>

definition owned_sum :: "requestBudgets option \<Rightarrow> nat \<Rightarrow> (nat \<Rightarrow> int) \<Rightarrow> nat \<Rightarrow> int" where
  "owned_sum b n f o' = (\<Sum>i \<in> {i. i < n \<and> owner b i = o'}. f i)"

definition returns_inv :: "nat \<Rightarrow> (nat \<Rightarrow> int) \<Rightarrow> writeReturns \<Rightarrow> bool" where
  "returns_inv n kept r \<longleftrightarrow>
     length (wt_maximum r) = length (wt_remaining r) \<and>
     (\<forall>i. 0 \<le> wt_sizes r i \<and> 0 \<le> kept i) \<and>
     (\<forall>i < n. owner (wt_owners r) i < length (wt_remaining r)) \<and>
     (\<forall>o' < length (wt_remaining r). 0 \<le> wt_remaining r ! o' \<and>
        wt_remaining r ! o' + owned_sum (wt_owners r) n (\<lambda>i. wt_sizes r i + kept i) o' = wt_maximum r ! o')"

lemma owned_sum_change:
  assumes "i < n" "\<And>j. j \<noteq> i \<Longrightarrow> g j = f j"
  shows "owned_sum b n g o' = owned_sum b n f o' + (if owner b i = o' then g i - f i else 0)"
proof (cases "owner b i = o'")
  case True
  let ?S = "{j. j < n \<and> owner b j = o'}"
  have fin: "finite ?S" "i \<in> ?S" using assms(1) True by auto
  have "sum g (?S - {i}) = sum f (?S - {i})" using assms(2) by (intro sum.cong) auto
  then show ?thesis unfolding owned_sum_def using True sum.remove[OF fin, of g] sum.remove[OF fin, of f] by simp
next
  case False
  then have "sum g {j. j < n \<and> owner b j = o'} = sum f {j. j < n \<and> owner b j = o'}"
    using False by (intro sum.cong refl assms(2)) auto
  then show ?thesis using False by (simp add: owned_sum_def)
qed

lemma returns_reserve_loop_inv:
  assumes "returns_reserve_loop scope ops d r w = (e, r', w')" "returns_inv n kept r"
    and "\<forall>op \<in> set ops. pw_index op < n"
  shows "returns_inv n kept r' \<and> wt_owners r' = wt_owners r \<and> wt_maximum r' = wt_maximum r \<and>
    (\<forall>i. wt_sizes r i \<le> wt_sizes r' i) \<and> (\<forall>i. i \<notin> pw_index ` set ops \<longrightarrow> wt_sizes r' i = wt_sizes r i) \<and>
    (e = None \<longrightarrow> (\<forall>op \<in> set ops. wo_returnDocument (pw_original op) \<longrightarrow> int (length (sd_payload d)) + 128 \<le> wt_sizes r' (pw_index op)))"
  using assms
proof (induction ops arbitrary: r w)
  case (Cons op ops)
  let ?i = "pw_index op" let ?b = "wt_owners r" let ?o = "owner ?b ?i" let ?charge = "int (length (sd_payload d)) + 128"
  let ?diff = "max 0 (?charge - wt_sizes r ?i)"
  let ?left = "wt_remaining r ! ?o - ?diff"
  let ?r1 = "r\<lparr>wt_remaining := (wt_remaining r)[?o := ?left],
      wt_reports := wt_reports r @ (if tracker ?b ?o = None then [] else [(?o, wt_maximum r ! ?o - ?left)]),
      wt_sizes := (wt_sizes r)(?i := max ?charge (wt_sizes r ?i))\<rparr>"
  have i: "?i < n" using Cons.prems(3) by simp
  have inv: "returns_inv n kept r" by (rule Cons.prems(2))
  have rest: "\<forall>op \<in> set ops. pw_index op < n" using Cons.prems(3) by simp
  show ?case
  proof (cases "wo_returnDocument (pw_original op)")
    case False
    then show ?thesis using Cons.IH[OF _ inv rest] Cons.prems(1) by auto
  next
    case True
    show ?thesis
    proof (cases "?diff > wt_remaining r ! ?o \<or> fst (budgets_output scope ?b ?o ?diff w) \<noteq> None")
      case fail: True
      then have "e \<noteq> None \<and> r' = r"
        using Cons.prems(1) True by (auto simp: Let_def split: prod.splits option.splits if_splits)
      then show ?thesis using inv by auto
    next
      case ok: False
      then obtain w1 where out: "budgets_output scope ?b ?o ?diff w = (None, w1)" by (metis prod.collapse)
      have run: "returns_reserve_loop scope ops d ?r1 w1 = (e, r', w')"
        using Cons.prems(1) True ok out by (simp add: Let_def)
      have "owned_sum ?b n (\<lambda>i. wt_sizes ?r1 i + kept i) o' =
          owned_sum ?b n (\<lambda>i. wt_sizes r i + kept i) o' + (if ?o = o' then ?diff else 0)" for o'
        by (subst owned_sum_change[OF i, of _ "\<lambda>i. wt_sizes r i + kept i"]) (auto simp: max_def)
      then have inv1: "returns_inv n kept ?r1"
        using inv ok i unfolding returns_inv_def by (auto simp: nth_list_update le_max_iff_disj)
      note IH = Cons.IH[OF run inv1 rest]
      have "?charge \<le> wt_sizes r' ?i" using IH by (auto dest: spec[of _ ?i])
      moreover have "wt_sizes r j \<le> wt_sizes r' j" for j using IH by (auto dest!: spec[of _ j] split: if_splits)
      ultimately show ?thesis using IH by auto
    qed
  qed
qed simp

lemma settle_loop_inv:
  assumes "settle_loop free ops results r w = (r', w')" "returns_inv n kept r" "distinct (map pw_index ops)"
    and "\<forall>op \<in> set ops. pw_index op < n \<and> retained_bytes (results ! pw_index op) \<le> wt_sizes r (pw_index op)"
  shows "returns_inv n (\<lambda>i. kept i + (if i \<in> pw_index ` set ops then retained_bytes (results ! i) else 0)) r' \<and>
    wt_owners r' = wt_owners r \<and> wt_maximum r' = wt_maximum r \<and>
    (\<forall>i. wt_sizes r' i = (if i \<in> pw_index ` set ops then 0 else wt_sizes r i))"
  using assms
proof (induction ops arbitrary: r w kept)
  case (Cons op ops)
  let ?i = "pw_index op" let ?b = "wt_owners r" let ?o = "owner ?b ?i" let ?keep = "retained_bytes (results ! ?i)"
  let ?unused = "max 0 (wt_sizes r ?i - ?keep)"
  let ?r1 = "r\<lparr>wt_remaining := (wt_remaining r)[?o := wt_remaining r ! ?o + ?unused], wt_sizes := (wt_sizes r)(?i := 0)\<rparr>"
  let ?kept = "kept(?i := kept ?i + ?keep)"
  have i: "?i < n" "?keep \<le> wt_sizes r ?i" "?i \<notin> pw_index ` set ops" "0 \<le> ?keep"
    using Cons.prems(3,4) by (auto simp: retained_bytes_def split: option.splits)
  have run: "settle_loop free ops results ?r1 (releaseOutput free ?b ?o ?unused w) = (r', w')"
    using Cons.prems(1) by (simp add: Let_def)
  have "owned_sum ?b n (\<lambda>i. wt_sizes ?r1 i + ?kept i) o' =
      owned_sum ?b n (\<lambda>i. wt_sizes r i + kept i) o' - (if ?o = o' then ?unused else 0)" for o'
    by (subst owned_sum_change[OF i(1), of _ "\<lambda>i. wt_sizes r i + kept i"]) (use i(2) in auto)
  then have inv1: "returns_inv n ?kept ?r1"
    using Cons.prems(2) i unfolding returns_inv_def by (auto simp: nth_list_update)
  have rest: "\<forall>op \<in> set ops. pw_index op < n \<and> retained_bytes (results ! pw_index op) \<le> wt_sizes ?r1 (pw_index op)"
    using Cons.prems(4) i(3) by (auto simp: image_iff)
  have "(\<lambda>i. ?kept i + (if i \<in> pw_index ` set ops then retained_bytes (results ! i) else 0)) =
      (\<lambda>i. kept i + (if i \<in> pw_index ` set (op # ops) then retained_bytes (results ! i) else 0))"
    using i(3) by auto
  then show ?case using Cons.IH[OF run inv1 _ rest] Cons.prems(3) i(3) by auto
qed simp

text \<open>
  The states of the reservations of one request of \<open>n\<close> operations: groups reserve for a candidate
  document, again on every attempt, and are settled once, either without documents or with the
  documents \<open>attachWriteDocument\<close> attached of a candidate they had reserved.
\<close>

inductive returns_reach :: "nat \<Rightarrow> requestBudgets option \<Rightarrow> int \<Rightarrow> writeReturns \<Rightarrow> (nat \<Rightarrow> int) \<Rightarrow> 'w \<Rightarrow> bool"
  for n budgets maximum where
  start: "newWriteReturns req budgets maximum = Some r \<Longrightarrow> returns_reach n budgets maximum r (\<lambda>_. 0) w"
| world: "returns_reach n budgets maximum r kept w \<Longrightarrow> returns_reach n budgets maximum r kept w'"
| reserve: "\<lbrakk>returns_reach n budgets maximum r kept w; \<forall>op \<in> set (wg_operations g). pw_index op < n;
    returns_reserve scope g d (Some r) w = (e, Some r', w')\<rbrakk> \<Longrightarrow> returns_reach n budgets maximum r' kept w'"
| settle: "\<lbrakk>returns_reach n budgets maximum r kept w; distinct (map pw_index (wg_operations g));
    \<forall>op \<in> set (wg_operations g). pw_index op < n \<and> pw_index op < length results \<and> wres_document (results ! pw_index op) = None;
    results' = results \<or> results' = attachWriteDocument (wg_operations g) results d \<and>
      (\<forall>op \<in> set (wg_operations g). wo_returnDocument (pw_original op) \<longrightarrow> int (length (sd_payload d)) + 128 \<le> wt_sizes r (pw_index op));
    Request_Budgets.settle free g results' (Some r) w = (Some r', w')\<rbrakk> \<Longrightarrow>
    returns_reach n budgets maximum r'
      (\<lambda>i. kept i + (if i \<in> pw_index ` set (wg_operations g) then retained_bytes (results' ! i) else 0)) w'"

definition attach1 :: "storageDocument \<Rightarrow> parsedWrite \<Rightarrow> WriteResult \<Rightarrow> WriteResult" where
  "attach1 d op result =
     (if wo_returnDocument (pw_original op) \<and> wres_status result = WS_APPLIED
      then result\<lparr>wres_document := Some \<lparr>d_encoding = api_encoding (sd_encoding d), d_payload = sd_payload d\<rparr>\<rparr> else result)"

lemma attachWriteDocument_fold: "attachWriteDocument ops results d = fold (\<lambda>op rs. rs[pw_index op := attach1 d op (rs ! pw_index op)]) ops results"
  unfolding attachWriteDocument_def attach1_def Let_def
  by (induction ops arbitrary: results) (simp_all add: if_distrib[of "list_update _ _"] cong: if_cong)

lemma attachWriteDocument_nth:
  "distinct (map pw_index ops) \<Longrightarrow> op \<in> set ops \<Longrightarrow> pw_index op < length results \<Longrightarrow>
   attachWriteDocument ops results d ! pw_index op = attach1 d op (results ! pw_index op)"
  unfolding attachWriteDocument_fold by (rule fold_update_nth)

lemma returns_reach_inv:
  assumes "returns_reach n budgets maximum r kept w"
    and "\<forall>i < n. owner budgets i < callerCount budgets"
    and "\<forall>o' < callerCount budgets. 0 \<le> tracker_Limit (tracker budgets o') Returns maximum"
  shows "returns_inv n kept r \<and> wt_owners r = budgets \<and>
    wt_maximum r = map (\<lambda>o'. tracker_Limit (tracker budgets o') Returns maximum) [0..<callerCount budgets]"
  using assms(1)
proof induction
  case (start req r w)
  then show ?case using assms(2,3)
    by (auto simp: newWriteReturns_def returns_inv_def owned_sum_def Let_def split: if_splits)
next
  case (reserve r kept w g scope d e r' w')
  then show ?case
    using returns_reserve_loop_inv[of scope "wg_operations g" d r w e r' w' n kept]
    by (auto simp: returns_reserve_def split: prod.splits)
next
  case (settle r kept w g results results' d free r' w')
  let ?ops = "wg_operations g"
  have run: "settle_loop free ?ops results' r w = (r', w')"
    using settle.hyps(5) by (auto simp: Request_Budgets.settle_def split: prod.splits)
  have inv: "returns_inv n kept r" using settle.IH by blast
  then have nonneg: "\<forall>i. 0 \<le> wt_sizes r i" by (simp add: returns_inv_def)
  have "retained_bytes (results' ! pw_index op) \<le> wt_sizes r (pw_index op)" if "op \<in> set ?ops" for op
    using settle.hyps(2-4) that nonneg
    by (elim disjE conjE) (auto simp: retained_bytes_def attachWriteDocument_nth attach1_def)
  then show ?case
    using settle_loop_inv[OF run inv settle.hyps(2)] settle.hyps(3) settle.IH by auto
qed

section \<open>Properties\<close>

text \<open>
  C23: returned documents stay within the caller's limit. Whatever groups a request reserves for,
  however often attempts repeat and whichever of them fail, the documents kept for the operations of
  one caller, with their envelopes, and what is still reserved for its other operations, never exceed
  the limit that the caller's grant and the server set, and the books are exact.
\<close>

theorem returned_documents_bounded:
  assumes "returns_reach n budgets maximum r kept w" "o' < callerCount budgets"
    and "\<forall>i < n. owner budgets i < callerCount budgets"
    and "\<forall>o' < callerCount budgets. 0 \<le> tracker_Limit (tracker budgets o') Returns maximum"
  shows "(\<Sum>i | i < n \<and> owner budgets i = o'. wt_sizes r i + kept i) = tracker_Limit (tracker budgets o') Returns maximum - wt_remaining r ! o' \<and>
    0 \<le> wt_remaining r ! o' \<and> (\<forall>i. 0 \<le> kept i \<and> 0 \<le> wt_sizes r i)"
proof -
  note inv = returns_reach_inv[OF assms(1,3,4)]
  then have "o' < length (wt_remaining r)" using assms(2) by (auto simp: returns_inv_def)
  then show ?thesis using inv assms(2) unfolding returns_inv_def owned_sum_def by fastforce
qed

text \<open>One caller with a limit of 300 bytes reserves 200 for its only operation.\<close>

definition demo_return_op :: parsedWrite where
  "demo_return_op = (demo_parsed_put 0 ''a'' [1] PreconditionNone)\<lparr>pw_original := demo_api_write\<lparr>wo_returnDocument := True\<rparr>\<rparr>"

definition demo_return_request :: WriteRequest where
  "demo_return_request = \<lparr>wr_mode = WAIT_UNTIL_APPLIED, wr_operations = [demo_api_write\<lparr>wo_returnDocument := True\<rparr>], wr_programs = []\<rparr>"

theorem returned_documents_bounded_witness:
  "let r0 = the (newWriteReturns demo_return_request None 300);
       g = \<lparr>wg_operations = [demo_return_op], wg_merges = 0\<rparr>;
       r1 = the (fst (snd (returns_reserve (\<lambda>_ _ w. (None, w)) g (demo_json (replicate 72 0)) (Some r0) ())))
   in wt_remaining r1 = [100] \<and> (\<Sum>i | i < 1 \<and> owner None i = 0. wt_sizes r1 i) = 300 - wt_remaining r1 ! 0"
proof -
  let ?r0 = "the (newWriteReturns demo_return_request None 300)"
  let ?g = "\<lparr>wg_operations = [demo_return_op], wg_merges = 0\<rparr>"
  let ?p = "returns_reserve (\<lambda>_ _ w. (None, w)) ?g (demo_json (replicate 72 0)) (Some ?r0) ()"
  let ?r1 = "the (fst (snd ?p))"
  have "newWriteReturns demo_return_request None 300 = Some ?r0"
    by (simp add: newWriteReturns_def hasWriteReturns_def demo_return_request_def Let_def)
  then have "returns_reach 1 None 300 ?r0 (\<lambda>_. 0) ()" by (rule returns_reach.start)
  moreover have "?p = (fst ?p, Some ?r1, ())"
    by (simp add: returns_reserve_def Let_def case_prod_beta prod_eq_iff)
  moreover have "\<forall>op \<in> set (wg_operations ?g). pw_index op < 1" by (simp add: demo_return_op_def demo_parsed_put_def)
  ultimately have "returns_reach 1 None 300 ?r1 (\<lambda>_. 0) ()" using returns_reach.reserve by metis
  moreover have "wt_remaining ?r1 = [100]" by code_simp
  ultimately show ?thesis
    using returned_documents_bounded[of 1 None 300 ?r1 "\<lambda>_. 0" "()" 0]
    by (simp add: callerCount_def owner_def tracker_def tracker_Limit_def Let_def)
qed

end
