(* ===== verification/Write_Completion.thy ===== *)
theory Write_Completion
  imports Request_Budgets Batcher
begin

text \<open>
  Publishing the results of a batched write to its callers, \<open>src/internal/service/write_completion.go\<close>.
  A call is the list of its operations' record addresses; \<open>finishRecords\<close> and \<open>completeCall\<close> of a call
  are recorded in the order in which they happen.
\<close>

record writeResultOwner =
  ow_caller :: nat
  ow_index :: nat
  ow_key :: "recordIdentity option"
  ow_done :: bool

text \<open>\<open>ow_key\<close> is \<open>None\<close> for an operation whose address is not valid.\<close>

datatype completion_event =
    FinishRecord nat recordIdentity
  | CompleteCall nat "WriteResult option list"
  | FailCall nat status

record writeCompletion =
  wc_owners :: "writeResultOwner list"
  wc_responses :: "WriteResult option list list"
  wc_remaining :: "int list"
  wc_records :: "(recordIdentity \<Rightarrow> int) list"
  wc_maximum :: int
  wc_events :: "completion_event list"

definition operation_key :: "uri_parser \<Rightarrow> RecordAddress option \<Rightarrow> recordIdentity option" where
  "operation_key uri address =
     (case ParseAddress uri address of Inl _ \<Rightarrow> None | Inr a \<Rightarrow> Some (ad_string a))"

definition call_owners :: "uri_parser \<Rightarrow> nat \<Rightarrow> RecordAddress option list \<Rightarrow> writeResultOwner list" where
  "call_owners uri caller addresses =
     map (\<lambda>i. \<lparr>ow_caller = caller, ow_index = i, ow_key = operation_key uri (addresses ! i), ow_done = False\<rparr>) [0..<length addresses]"

definition call_records :: "uri_parser \<Rightarrow> RecordAddress option list \<Rightarrow> recordIdentity \<Rightarrow> int" where
  "call_records uri addresses =
     fold (\<lambda>a m. case operation_key uri a of None \<Rightarrow> m | Some k \<Rightarrow> m(k := m k + 1)) addresses (\<lambda>_. 0)"

definition newWriteCompletion :: "uri_parser \<Rightarrow> RecordAddress option list list \<Rightarrow> int \<Rightarrow> writeCompletion" where
  "newWriteCompletion uri calls maximum =
     \<lparr>wc_owners = concat (map (\<lambda>c. call_owners uri c (calls ! c)) [0..<length calls]),
      wc_responses = map (\<lambda>addresses. replicate (length addresses) None) calls,
      wc_remaining = map (\<lambda>addresses. int (length addresses)) calls,
      wc_records = map (call_records uri) calls,
      wc_maximum = maximum, wc_events = []\<rparr>"

text \<open>The copy of a result that is published: its own index and a failure text within the caller's share.\<close>

definition published :: "writeResultOwner \<Rightarrow> nat \<Rightarrow> int \<Rightarrow> WriteResult \<Rightarrow> WriteResult" where
  "published o' operations maximum result =
     result\<lparr>wres_index := of_nat (ow_index o'),
       wres_failure := map_option (\<lambda>f. f\<lparr>f_message := boundedFailureMessage (f_message f) (failureMessageLimit (int operations) maximum)\<rparr>)
         (wres_failure result)\<rparr>"

definition completion_operation :: "nat \<Rightarrow> WriteResult \<Rightarrow> writeCompletion \<Rightarrow> writeCompletion" where
  "completion_operation index result c =
     (let o' = wc_owners c ! index; caller = ow_caller o' in
      if ow_done o' then c
      else
        let response = (wc_responses c ! caller)[ow_index o' :=
              Some (published o' (length (wc_responses c ! caller)) (wc_maximum c) result)];
            left = wc_remaining c ! caller - 1;
            (records, finished) =
              (case ow_key o' of
                 None \<Rightarrow> (wc_records c ! caller, [])
               | Some k \<Rightarrow>
                   (let m = (wc_records c ! caller)(k := (wc_records c ! caller) k - 1)
                    in (m, if m k = 0 then [FinishRecord caller k] else [])))
        in c\<lparr>wc_owners := (wc_owners c)[index := o'\<lparr>ow_done := True\<rparr>],
             wc_responses := (wc_responses c)[caller := response],
             wc_remaining := (wc_remaining c)[caller := left],
             wc_records := (wc_records c)[caller := records],
             wc_events := wc_events c @ finished @ (if left = 0 then [CompleteCall caller response] else [])\<rparr>)"

definition completion_group :: "parsedWrite list \<Rightarrow> WriteResult list \<Rightarrow> writeCompletion option \<Rightarrow> writeCompletion option" where
  "completion_group ops results c =
     map_option (fold (\<lambda>op. completion_operation (pw_index op) (results ! pw_index op)) ops) c"

text \<open>\<open>finish\<close>: the core's response, or its error for every call that is not complete.\<close>

definition completion_finish :: "status + WriteResult list \<Rightarrow> writeCompletion \<Rightarrow> writeCompletion" where
  "completion_finish response c =
     (let outcome = (case response of
            Inl e \<Rightarrow> Inl e
          | Inr results \<Rightarrow>
              if length results \<noteq> length (wc_owners c)
              then Inl (status_error Internal ''batched write returned an invalid result count'') else Inr results)
      in case outcome of
           Inl e \<Rightarrow>
             c\<lparr>wc_events := wc_events c @
                 map (\<lambda>caller. FailCall caller e) (filter (\<lambda>caller. wc_remaining c ! caller > 0) [0..<length (wc_remaining c)])\<rparr>
         | Inr results \<Rightarrow> fold (\<lambda>i. completion_operation i (results ! i)) [0..<length results] c)"

section \<open>The invariant\<close>

definition undone :: "writeCompletion \<Rightarrow> nat \<Rightarrow> int" where
  "undone c caller = (\<Sum>o' \<leftarrow> wc_owners c. of_bool (ow_caller o' = caller \<and> \<not> ow_done o'))"

definition undone_key :: "writeCompletion \<Rightarrow> nat \<Rightarrow> recordIdentity \<Rightarrow> int" where
  "undone_key c caller k = (\<Sum>o' \<leftarrow> wc_owners c. of_bool (ow_caller o' = caller \<and> ow_key o' = Some k \<and> \<not> ow_done o'))"

fun event_caller :: "completion_event \<Rightarrow> nat option" where
  "event_caller (FinishRecord _ _) = None"
| "event_caller (CompleteCall caller _) = Some caller"
| "event_caller (FailCall caller _) = Some caller"

definition replies :: "nat \<Rightarrow> completion_event list \<Rightarrow> nat" where
  "replies caller events = length (filter (\<lambda>e. event_caller e = Some caller) events)"

definition has_operations :: "writeCompletion \<Rightarrow> nat \<Rightarrow> bool" where
  "has_operations c caller \<longleftrightarrow> (\<exists>o' \<in> set (wc_owners c). ow_caller o' = caller)"

definition has_key :: "writeCompletion \<Rightarrow> nat \<Rightarrow> recordIdentity \<Rightarrow> bool" where
  "has_key c caller k \<longleftrightarrow> (\<exists>o' \<in> set (wc_owners c). ow_caller o' = caller \<and> ow_key o' = Some k)"

definition owners_ok :: "writeCompletion \<Rightarrow> bool" where
  "owners_ok c \<longleftrightarrow>
     length (wc_responses c) = length (wc_remaining c) \<and> length (wc_records c) = length (wc_remaining c) \<and>
     distinct (map (\<lambda>o'. (ow_caller o', ow_index o')) (wc_owners c)) \<and>
     (\<forall>o' \<in> set (wc_owners c). ow_caller o' < length (wc_remaining c) \<and> ow_index o' < length (wc_responses c ! ow_caller o')) \<and>
     (\<forall>caller < length (wc_responses c). \<forall>i < length (wc_responses c ! caller). \<exists>o' \<in> set (wc_owners c). ow_caller o' = caller \<and> ow_index o' = i)"

definition completion_inv :: "writeCompletion \<Rightarrow> bool" where
  "completion_inv c \<longleftrightarrow> owners_ok c \<and>
     (\<forall>caller < length (wc_remaining c). wc_remaining c ! caller = undone c caller) \<and>
     (\<forall>caller < length (wc_remaining c). \<forall>k. (wc_records c ! caller) k = undone_key c caller k) \<and>
     (\<forall>o' \<in> set (wc_owners c). (wc_responses c ! ow_caller o' ! ow_index o' \<noteq> None) = ow_done o') \<and>
     (\<forall>caller. replies caller (wc_events c) = of_bool (has_operations c caller \<and> undone c caller = 0)) \<and>
     (\<forall>caller response. CompleteCall caller response \<in> set (wc_events c) \<longrightarrow>
        undone c caller = 0 \<and> response = wc_responses c ! caller) \<and>
     (\<forall>caller e. FailCall caller e \<notin> set (wc_events c)) \<and>
     (\<forall>caller k. length (filter (\<lambda>e. e = FinishRecord caller k) (wc_events c)) = of_bool (has_key c caller k \<and> undone_key c caller k = 0))"

lemma sum_of_bool_nonneg: "0 \<le> (\<Sum>x \<leftarrow> xs. of_bool (P x) :: int)"
  by (induction xs) auto

lemma sum_of_bool_zero: "(\<Sum>x \<leftarrow> xs. of_bool (P x) :: int) = 0 \<longleftrightarrow> (\<forall>x \<in> set xs. \<not> P x)"
proof (induction xs)
  case (Cons a xs)
  then show ?case using sum_of_bool_nonneg[of P xs] by auto
qed simp

lemma undone_zero: "undone c caller = 0 \<longleftrightarrow> (\<forall>o' \<in> set (wc_owners c). ow_caller o' = caller \<longrightarrow> ow_done o')"
  by (auto simp: undone_def sum_of_bool_zero)

lemma undone_key_zero:
  "undone_key c caller k = 0 \<longleftrightarrow> (\<forall>o' \<in> set (wc_owners c). ow_caller o' = caller \<and> ow_key o' = Some k \<longrightarrow> ow_done o')"
  by (auto simp: undone_key_def sum_of_bool_zero)

text \<open>Marking one operation done.\<close>

lemma undone_mark:
  assumes "i < length os" "os ! i = o'" "\<not> ow_done o'"
  shows "(\<Sum>x \<leftarrow> os[i := o'\<lparr>ow_done := True\<rparr>]. of_bool (P x \<and> \<not> ow_done x) :: int) =
    (\<Sum>x \<leftarrow> os. of_bool (P x \<and> \<not> ow_done x)) - of_bool (P o')"
  using assms sum_list_update_int[of i os "\<lambda>x. of_bool (P x \<and> \<not> ow_done x)" "o'\<lparr>ow_done := True\<rparr>"] by simp

definition owner_of :: "writeResultOwner \<Rightarrow> nat \<times> nat \<times> recordIdentity option" where
  "owner_of o' = (ow_caller o', ow_index o', ow_key o')"

lemma owners_same:
  assumes "map owner_of os' = map owner_of os"
  shows "(\<forall>x \<in> set os'. P (ow_caller x) (ow_index x) (ow_key x)) = (\<forall>x \<in> set os. P (ow_caller x) (ow_index x) (ow_key x))"
    "(\<exists>x \<in> set os'. P (ow_caller x) (ow_index x) (ow_key x)) = (\<exists>x \<in> set os. P (ow_caller x) (ow_index x) (ow_key x))"
    "map (\<lambda>x. (ow_caller x, ow_index x)) os' = map (\<lambda>x. (ow_caller x, ow_index x)) os"
proof -
  have s: "owner_of ` set os' = owner_of ` set os" using arg_cong[OF assms, of set] by simp
  have e: "(\<forall>x \<in> set xs. P (ow_caller x) (ow_index x) (ow_key x)) = (\<forall>(a, i, k) \<in> owner_of ` set xs. P a i k)"
    "(\<exists>x \<in> set xs. P (ow_caller x) (ow_index x) (ow_key x)) = (\<exists>(a, i, k) \<in> owner_of ` set xs. P a i k)" for xs
    by (auto simp: owner_of_def)
  show "(\<forall>x \<in> set os'. P (ow_caller x) (ow_index x) (ow_key x)) = (\<forall>x \<in> set os. P (ow_caller x) (ow_index x) (ow_key x))"
    "(\<exists>x \<in> set os'. P (ow_caller x) (ow_index x) (ow_key x)) = (\<exists>x \<in> set os. P (ow_caller x) (ow_index x) (ow_key x))"
    unfolding e s by (rule refl)+
  show "map (\<lambda>x. (ow_caller x, ow_index x)) os' = map (\<lambda>x. (ow_caller x, ow_index x)) os"
    using arg_cong[OF assms, of "map (\<lambda>(a, i, k). (a, i))"] by (simp add: o_def owner_of_def)
qed

text \<open>The state after one operation that was not done, field by field.\<close>

lemma completion_operation_fields:
  assumes "c' = completion_operation i result c" "o' = wc_owners c ! i" "\<not> ow_done o'" "i < length (wc_owners c)"
    and "caller = ow_caller o'" "response = (wc_responses c ! caller)[ow_index o' :=
      Some (published o' (length (wc_responses c ! caller)) (wc_maximum c) result)]"
    and "completion_inv c"
  shows "wc_owners c' = (wc_owners c)[i := o'\<lparr>ow_done := True\<rparr>]"
    "wc_responses c' = (wc_responses c)[caller := response]"
    "wc_remaining c' = (wc_remaining c)[caller := wc_remaining c ! caller - 1]"
    "undone c' j = undone c j - of_bool (caller = j)"
    "undone_key c' j k = undone_key c j k - of_bool (caller = j \<and> ow_key o' = Some k)"
    "\<forall>j < length (wc_remaining c). \<forall>k. (wc_records c' ! j) k = (wc_records c ! j) k - of_bool (caller = j \<and> ow_key o' = Some k)"
    "length (wc_records c') = length (wc_records c)"
    "wc_events c' = wc_events c @
       (case ow_key o' of None \<Rightarrow> [] | Some k \<Rightarrow> if undone_key c' caller k = 0 then [FinishRecord caller k] else []) @
       (if undone c' caller = 0 then [CompleteCall caller response] else [])"
    "map owner_of (wc_owners c') = map owner_of (wc_owners c)"
proof -
  show own: "wc_owners c' = (wc_owners c)[i := o'\<lparr>ow_done := True\<rparr>]"
    "wc_responses c' = (wc_responses c)[caller := response]"
    "wc_remaining c' = (wc_remaining c)[caller := wc_remaining c ! caller - 1]"
    "length (wc_records c') = length (wc_records c)"
    using assms(1-3,5,6) by (simp_all add: completion_operation_def Let_def case_prod_beta split: option.splits)
  have "o' \<in> set (wc_owners c)" using assms(2,4) by simp
  then have bound: "caller < length (wc_remaining c)" "length (wc_records c) = length (wc_remaining c)"
    using assms(5,7) by (auto simp: completion_inv_def owners_ok_def)
  show undone: "undone c' j = undone c j - of_bool (caller = j)" for j
    unfolding undone_def own(1) using undone_mark[OF assms(4) assms(2)[symmetric] assms(3), of "\<lambda>x. ow_caller x = j"] assms(5) by simp
  show key: "undone_key c' j k = undone_key c j k - of_bool (caller = j \<and> ow_key o' = Some k)" for j k
    unfolding undone_key_def own(1)
    using undone_mark[OF assms(4) assms(2)[symmetric] assms(3), of "\<lambda>x. ow_caller x = j \<and> ow_key x = Some k"] assms(5) by simp
  show rec: "\<forall>j < length (wc_remaining c). \<forall>k. (wc_records c' ! j) k = (wc_records c ! j) k - of_bool (caller = j \<and> ow_key o' = Some k)"
    using assms(1-3,5) bound
    by (auto simp: completion_operation_def Let_def nth_list_update split: option.splits)
  have left: "wc_remaining c ! caller - 1 = undone c' caller" "(wc_records c ! caller) k = undone_key c caller k" for k
    using assms(7) bound undone[of caller] by (auto simp: completion_inv_def)
  show "wc_events c' = wc_events c @
       (case ow_key o' of None \<Rightarrow> [] | Some k \<Rightarrow> if undone_key c' caller k = 0 then [FinishRecord caller k] else []) @
       (if undone c' caller = 0 then [CompleteCall caller response] else [])"
  proof -
    have "wc_events c' = wc_events c @
       (case ow_key o' of None \<Rightarrow> [] | Some k \<Rightarrow> if (wc_records c ! caller) k - 1 = 0 then [FinishRecord caller k] else []) @
       (if wc_remaining c ! caller - 1 = 0 then [CompleteCall caller response] else [])"
      using assms(1-3,5,6) by (simp add: completion_operation_def Let_def split: option.splits)
    then show ?thesis unfolding left by (cases "ow_key o'") (simp_all add: key)
  qed
  show "map owner_of (wc_owners c') = map owner_of (wc_owners c)"
    unfolding own(1) using assms(2,4) by (simp add: map_update owner_of_def list_update_same_conv)
qed

lemma completion_operation_done: "ow_done (wc_owners c ! i) \<Longrightarrow> completion_operation i result c = c"
  by (simp add: completion_operation_def Let_def)

lemma completion_operation_inv:
  assumes inv: "completion_inv c" and i: "i < length (wc_owners c)"
  shows "completion_inv (completion_operation i result c) \<and>
    map owner_of (wc_owners (completion_operation i result c)) = map owner_of (wc_owners c) \<and>
    wc_owners (completion_operation i result c) ! i = (wc_owners c ! i)\<lparr>ow_done := True\<rparr> \<and>
    length (wc_remaining (completion_operation i result c)) = length (wc_remaining c) \<and>
    (\<forall>j. length (wc_responses (completion_operation i result c) ! j) = length (wc_responses c ! j))"
proof (cases "ow_done (wc_owners c ! i)")
  case True
  then show ?thesis using inv by (simp add: completion_operation_done)
next
  case False
  define o' where "o' = wc_owners c ! i"
  define caller where "caller = ow_caller o'"
  define response where "response = (wc_responses c ! caller)[ow_index o' :=
      Some (published o' (length (wc_responses c ! caller)) (wc_maximum c) result)]"
  define c' where "c' = completion_operation i result c"
  note f = completion_operation_fields[OF c'_def o'_def _ i caller_def response_def inv, folded o'_def]
  have nd: "\<not> ow_done o'" using False by (simp add: o'_def)
  note f = f[OF nd]
  have o': "o' \<in> set (wc_owners c)" using i by (simp add: o'_def)
  have ok: "owners_ok c" using inv by (simp add: completion_inv_def)
  have bound: "caller < length (wc_remaining c)" "caller < length (wc_responses c)" "ow_index o' < length (wc_responses c ! caller)"
    using ok o' by (auto simp: owners_ok_def caller_def)
  have len: "length (wc_responses c' ! j) = length (wc_responses c ! j)" for j
    using bound by (simp add: f(2) response_def nth_list_update)
  have ok': "owners_ok c'"
    using ok owners_same(1)[OF f(9), of "\<lambda>a j k. a < length (wc_remaining c) \<and> j < length (wc_responses c ! a)"]
      owners_same(2)[OF f(9), of "\<lambda>a j k. a = b \<and> j = m" for b m]
    unfolding owners_ok_def f(2,3,7) len[unfolded f(2)] owners_same(3)[OF f(9)] by simp
  have has: "has_operations c' j = has_operations c j" "has_key c' j k = has_key c j k" for j k
    using owners_same(2)[OF f(9), of "\<lambda>a _ _. a = j"] owners_same(2)[OF f(9), of "\<lambda>a _ q. a = j \<and> q = Some k"]
    by (simp_all add: has_operations_def has_key_def)
  have pos: "undone c caller \<noteq> 0" "ow_key o' = Some k \<Longrightarrow> undone_key c caller k \<noteq> 0" for k
    using nd o' by (auto simp: undone_zero undone_key_zero caller_def)
  have "has_operations c caller" "ow_key o' = Some k \<Longrightarrow> has_key c caller k" for k
    using o' by (auto simp: has_operations_def has_key_def caller_def)
  note ev = this
  have resp: "(wc_responses c' ! ow_caller x ! ow_index x \<noteq> None) = ow_done x" if x: "x \<in> set (wc_owners c')" for x
  proof -
    obtain m where m: "m < length (wc_owners c)" "x = (wc_owners c)[i := o'\<lparr>ow_done := True\<rparr>] ! m"
      using x unfolding f(1) by (metis in_set_conv_nth length_list_update)
    show ?thesis
    proof (cases "m = i")
      case True
      then show ?thesis using m bound by (simp add: f(2) response_def caller_def)
    next
      case False
      then have x: "x = wc_owners c ! m" using m by simp
      have "(ow_caller x, ow_index x) \<noteq> (caller, ow_index o')"
        using ok False m(1) i nth_eq_iff_index_eq[of "map (\<lambda>x. (ow_caller x, ow_index x)) (wc_owners c)" m i]
        by (auto simp: owners_ok_def x o'_def caller_def)
      then have "wc_responses c' ! ow_caller x ! ow_index x = wc_responses c ! ow_caller x ! ow_index x"
        using bound by (auto simp: f(2) response_def nth_list_update)
      then show ?thesis using inv m(1) x by (simp add: completion_inv_def)
    qed
  qed
  have count: "replies j (wc_events c') = of_bool (has_operations c' j \<and> undone c' j = 0)" for j
  proof -
    have "replies j (wc_events c') = replies j (wc_events c) + of_bool (j = caller \<and> undone c' caller = 0)"
      unfolding f(8) replies_def by (auto split: option.splits)
    then show ?thesis using inv pos(1) ev(1) f(4)[of j] unfolding has completion_inv_def by (cases "j = caller") auto
  qed
  have fin: "length (filter (\<lambda>e. e = FinishRecord j k) (wc_events c')) = of_bool (has_key c' j k \<and> undone_key c' j k = 0)" for j k
  proof -
    have "length (filter (\<lambda>e. e = FinishRecord j k) (wc_events c')) = length (filter (\<lambda>e. e = FinishRecord j k) (wc_events c)) +
        of_bool (j = caller \<and> ow_key o' = Some k \<and> undone_key c' caller k = 0)"
      unfolding f(8) by (auto split: option.splits)
    then show ?thesis using inv pos(2) ev(2) f(5)[of j k] unfolding has completion_inv_def
      by (cases "j = caller \<and> ow_key o' = Some k") auto
  qed
  have comp: "undone c' j = 0 \<and> r = wc_responses c' ! j" if "CompleteCall j r \<in> set (wc_events c')" for j r
  proof (cases "CompleteCall j r \<in> set (wc_events c)")
    case True
    then have "undone c j = 0 \<and> r = wc_responses c ! j" using inv by (simp add: completion_inv_def)
    then show ?thesis using pos(1) f(4)[of j] by (cases "j = caller") (auto simp: f(2))
  next
    case False
    then have "j = caller" "r = response" "undone c' caller = 0"
      using that unfolding f(8) by (auto split: option.splits if_splits)
    then show ?thesis using bound by (simp add: f(2))
  qed
  have "FailCall j e \<notin> set (wc_events c')" for j e
    using inv unfolding f(8) completion_inv_def by (auto split: option.splits)
  moreover have "\<forall>j < length (wc_remaining c'). wc_remaining c' ! j = undone c' j"
    using inv bound f(4) by (auto simp: f(3) completion_inv_def nth_list_update)
  moreover have "\<forall>j < length (wc_remaining c'). \<forall>k. (wc_records c' ! j) k = undone_key c' j k"
    using inv f(5,6) by (auto simp: f(3) completion_inv_def)
  ultimately have "completion_inv c'" using ok' resp count fin comp by (simp add: completion_inv_def)
  then show ?thesis using f(9) i len by (simp add: c'_def[symmetric] f(1,3) o'_def)
qed

section \<open>The initial state\<close>

lemma sum_owners:
  "(\<Sum>o' \<leftarrow> concat (map f [0..<n]). g o' :: int) = (\<Sum>c < n. \<Sum>o' \<leftarrow> f c. g o')"
  by (induction n) (simp_all add: lessThan_Suc add.commute)

lemma call_records_count: "call_records uri addresses k = (\<Sum>a \<leftarrow> addresses. of_bool (operation_key uri a = Some k))"
proof -
  have "fold (\<lambda>a m. case operation_key uri a of None \<Rightarrow> m | Some k \<Rightarrow> m(k := m k + 1)) addresses m k =
      m k + (\<Sum>a \<leftarrow> addresses. of_bool (operation_key uri a = Some k))" for m :: "recordIdentity \<Rightarrow> int"
    by (induction addresses arbitrary: m) (auto split: option.splits)
  then show ?thesis by (simp add: call_records_def)
qed

lemma call_owners_sum:
  "(\<Sum>o' \<leftarrow> call_owners uri c addresses. g (ow_caller o') (ow_key o') (ow_done o')) = (\<Sum>a \<leftarrow> addresses. g c (operation_key uri a) False :: int)"
  using arg_cong[OF map_nth[of addresses], of "\<lambda>xs. \<Sum>a \<leftarrow> xs. g c (operation_key uri a) False"]
  by (simp add: call_owners_def o_def)

lemma newWriteCompletion_inv: "completion_inv (newWriteCompletion uri calls maximum)"
proof -
  let ?c = "newWriteCompletion uri calls maximum"
  have own: "wc_owners ?c = concat (map (\<lambda>c. call_owners uri c (calls ! c)) [0..<length calls])"
    by (simp add: newWriteCompletion_def)
  have sum: "(\<Sum>o' \<leftarrow> wc_owners ?c. of_bool (ow_caller o' = j \<and> P (ow_key o') \<and> \<not> ow_done o') :: int) =
      (\<Sum>a \<leftarrow> calls ! j. of_bool (P (operation_key uri a)))" if "j < length calls" for j P
  proof -
    have "(\<Sum>o' \<leftarrow> wc_owners ?c. of_bool (ow_caller o' = j \<and> P (ow_key o') \<and> \<not> ow_done o') :: int) =
        (\<Sum>c < length calls. if c = j then \<Sum>a \<leftarrow> calls ! c. of_bool (P (operation_key uri a)) else 0)"
      unfolding own sum_owners
      by (intro sum.cong refl) (simp add: call_owners_sum[of "\<lambda>c k d. of_bool (c = j \<and> P k \<and> \<not> d)"])
    then show ?thesis using that by (simp add: sum.delta)
  qed
  have 1: "undone ?c j = int (length (calls ! j))" if "j < length calls" for j
    using sum[OF that, of "\<lambda>_. True"] by (simp add: undone_def sum_list_triv)
  have 2: "undone_key ?c j k = call_records uri (calls ! j) k" if "j < length calls" for j k
    using sum[OF that, of "\<lambda>x. x = Some k"] by (simp add: undone_key_def call_records_count)
  have fields: "length (wc_remaining ?c) = length calls" "wc_events ?c = []"
    "\<And>j. j < length calls \<Longrightarrow> wc_responses ?c ! j = replicate (length (calls ! j)) None"
    "\<And>j. j < length calls \<Longrightarrow> wc_remaining ?c ! j = int (length (calls ! j))"
    "\<And>j. j < length calls \<Longrightarrow> wc_records ?c ! j = call_records uri (calls ! j)"
    "length (wc_responses ?c) = length calls" "length (wc_records ?c) = length calls"
    by (simp_all add: newWriteCompletion_def)
  have mem: "o' \<in> set (wc_owners ?c) \<longleftrightarrow> (\<exists>c i. c < length calls \<and> i < length (calls ! c) \<and>
      o' = \<lparr>ow_caller = c, ow_index = i, ow_key = operation_key uri (calls ! c ! i), ow_done = False\<rparr>)" for o'
    unfolding own by (force simp: call_owners_def image_iff)
  have "distinct (map (\<lambda>o'. (ow_caller o', ow_index o')) (concat (map (\<lambda>c. call_owners uri c (calls ! c)) [0..<n])))" for n
    by (induction n) (auto simp: call_owners_def o_def distinct_map inj_on_def)
  then have dis: "distinct (map (\<lambda>o'. (ow_caller o', ow_index o')) (wc_owners ?c))" unfolding own .
  have ex: "\<exists>o' \<in> set (wc_owners ?c). ow_caller o' = a \<and> ow_index o' = i" if "a < length calls" "i < length (calls ! a)" for a i
    using that by (intro bexI[of _ "\<lparr>ow_caller = a, ow_index = i, ow_key = operation_key uri (calls ! a ! i), ow_done = False\<rparr>"])
      (auto simp: mem)
  have ok: "owners_ok ?c"
    unfolding owners_ok_def fields(1,6,7) using dis ex by (auto simp: mem fields(3))
  have nd: "\<forall>o' \<in> set (wc_owners ?c). \<not> ow_done o'" by (auto simp: mem)
  have zero: "undone ?c j \<noteq> 0" if "has_operations ?c j" for j
    using that nd by (auto simp: undone_zero has_operations_def)
  have zero_key: "undone_key ?c j k \<noteq> 0" if "has_key ?c j k" for j k
    using that nd by (auto simp: undone_key_zero has_key_def)
  have empty: "\<forall>o' \<in> set (wc_owners ?c). (wc_responses ?c ! ow_caller o' ! ow_index o' \<noteq> None) = ow_done o'"
    by (auto simp: mem fields(3))
  show ?thesis
    unfolding completion_inv_def fields(1,2) using 1 2 ok zero zero_key empty
    by (auto simp: fields(4,5) replies_def)
qed

section \<open>Properties\<close>

lemma completion_fold_inv:
  assumes "completion_inv c" "\<forall>(i, r) \<in> set ps. i < length (wc_owners c)"
  defines "c' \<equiv> fold (\<lambda>(i, r). completion_operation i r) ps c"
  shows "completion_inv c' \<and> map owner_of (wc_owners c') = map owner_of (wc_owners c) \<and>
    length (wc_remaining c') = length (wc_remaining c) \<and>
    (\<forall>j. length (wc_responses c' ! j) = length (wc_responses c ! j)) \<and>
    (\<forall>m < length (wc_owners c). ow_done (wc_owners c' ! m) = (m \<in> fst ` set ps \<or> ow_done (wc_owners c ! m)))"
  using assms(1,2) unfolding c'_def
proof (induction ps arbitrary: c)
  case (Cons p ps)
  obtain i r where p: "p = (i, r)" by fastforce
  let ?c = "completion_operation i r c"
  have i: "i < length (wc_owners c)" using Cons.prems(2) p by simp
  note s = completion_operation_inv[OF Cons.prems(1) i, of r]
  have len: "length (wc_owners ?c) = length (wc_owners c)" using s by (metis length_map)
  have "ow_done (wc_owners ?c ! m) = (m = i \<or> ow_done (wc_owners c ! m))" if "m < length (wc_owners c)" for m
  proof (cases "m = i")
    case False
    then have "wc_owners ?c ! m = wc_owners c ! m"
      by (simp add: completion_operation_def Let_def case_prod_beta)
    then show ?thesis using False by simp
  qed (use s in simp)
  then show ?case using Cons.IH[of ?c] s Cons.prems(2) len p by auto
qed simp

lemma completion_answered:
  assumes "completion_inv c" "undone c caller = 0" "caller < length (wc_responses c)"
  shows "None \<notin> set (wc_responses c ! caller)"
proof
  assume "None \<in> set (wc_responses c ! caller)"
  then obtain i where i: "i < length (wc_responses c ! caller)" "wc_responses c ! caller ! i = None" by (metis in_set_conv_nth)
  then obtain o' where "o' \<in> set (wc_owners c)" "ow_caller o' = caller" "ow_index o' = i"
    using assms(1,3) unfolding completion_inv_def owners_ok_def by blast
  then show False using assms(1,2) i(2) by (auto simp: completion_inv_def undone_zero)
qed

text \<open>The executor publishes operations in any order, possibly several times, and then finishes.\<close>

definition completion_run ::
    "uri_parser \<Rightarrow> RecordAddress option list list \<Rightarrow> int \<Rightarrow> (nat \<times> WriteResult) list \<Rightarrow> status + WriteResult list \<Rightarrow> writeCompletion" where
  "completion_run uri calls maximum publishes response =
     completion_finish response (fold (\<lambda>(i, r). completion_operation i r) publishes (newWriteCompletion uri calls maximum))"

text \<open>
  The operation at a position is answered when the executor published it, or when the response that
  finishes the batch has a result for every operation.
\<close>

definition answered_operation :: "(nat \<times> WriteResult) list \<Rightarrow> status + WriteResult list \<Rightarrow> nat \<Rightarrow> nat \<Rightarrow> bool" where
  "answered_operation publishes response operations i \<longleftrightarrow>
     i \<in> fst ` set publishes \<or> (case response of Inl _ \<Rightarrow> False | Inr results \<Rightarrow> length results = operations)"

text \<open>Finishing publishes what is left or fails the calls that are not complete.\<close>

lemma completion_run_state:
  assumes publishes: "\<forall>(i, r) \<in> set publishes. i < length (wc_owners (newWriteCompletion uri calls maximum))"
  obtains d e where "completion_inv d" "map owner_of (wc_owners d) = map owner_of (wc_owners (newWriteCompletion uri calls maximum))"
    "length (wc_remaining d) = length calls" "\<And>caller. length (wc_responses d ! caller) = length (wc_responses (newWriteCompletion uri calls maximum) ! caller)"
    "\<And>m. m < length (wc_owners d) \<Longrightarrow> ow_done (wc_owners d ! m) = answered_operation publishes response (length (wc_owners d)) m"
    "completion_run uri calls maximum publishes response = d\<lparr>wc_events := wc_events d @
        map (\<lambda>a. FailCall a e) (filter (\<lambda>a. 0 < wc_remaining d ! a) [0..<length (wc_remaining d)])\<rparr>"
proof -
  let ?n = "newWriteCompletion uri calls maximum"
  define c where "c = fold (\<lambda>(i, r). completion_operation i r) publishes ?n"
  note start = completion_fold_inv[OF newWriteCompletion_inv publishes, folded c_def]
  have new: "\<not> ow_done (wc_owners ?n ! m)" if "m < length (wc_owners ?n)" for m
    using nth_mem[OF that] by (auto simp: newWriteCompletion_def call_owners_def)
  have count: "length (wc_owners c) = length (wc_owners ?n)" using start by (metis length_map)
  have rem: "length (wc_remaining ?n) = length calls" by (simp add: newWriteCompletion_def)
  show thesis
  proof (cases "\<exists>results. response = Inr results \<and> length results = length (wc_owners c)")
    case True
    then obtain results where r: "response = Inr results" "length results = length (wc_owners c)" by blast
    define ps where "ps = map (\<lambda>i. (i, results ! i)) [0..<length results]"
    define d where "d = fold (\<lambda>(i, r). completion_operation i r) ps c"
    have ps: "\<forall>(i, r) \<in> set ps. i < length (wc_owners c)" using r(2) by (simp add: ps_def)
    note f = completion_fold_inv[OF conjunct1[OF start] ps, folded d_def]
    have n: "length (wc_owners d) = length (wc_owners c)" using f by (metis length_map)
    have every: "ow_done (wc_owners d ! m)" if "m < length (wc_owners d)" for m
      using f that r(2) n by (simp add: ps_def image_iff)
    then have "undone d caller = 0" for caller by (auto simp: undone_zero in_set_conv_nth)
    then have "filter (\<lambda>a. 0 < wc_remaining d ! a) [0..<length (wc_remaining d)] = []"
      using f by (simp add: completion_inv_def filter_empty_conv)
    moreover have "completion_run uri calls maximum publishes response = d"
      using r by (simp add: completion_run_def completion_finish_def c_def[symmetric] d_def ps_def fold_map o_def)
    ultimately show thesis using that[of d] f start every r n rem by (simp add: answered_operation_def)
  next
    case False
    then obtain e where "completion_run uri calls maximum publishes response = c\<lparr>wc_events := wc_events c @
        map (\<lambda>a. FailCall a e) (filter (\<lambda>a. wc_remaining c ! a > 0) [0..<length (wc_remaining c)])\<rparr>"
      by (cases response) (auto simp: completion_run_def completion_finish_def c_def[symmetric])
    moreover have "ow_done (wc_owners c ! m) = answered_operation publishes response (length (wc_owners c)) m"
      if "m < length (wc_owners c)" for m
      using start that new count False by (auto simp: answered_operation_def split: sum.splits)
    ultimately show thesis using that[of c e] start rem by simp
  qed
qed

lemma filter_one_caller:
  assumes "caller < n"
  shows "length (filter (\<lambda>a. a = caller) (filter P [0..<n])) = of_bool (P caller)"
proof -
  have one: "filter (\<lambda>a. a = caller) [0..<n] = [caller]" using assms by (induction n) auto
  have "filter (\<lambda>a. a = caller) (filter P [0..<n]) = filter P (filter (\<lambda>a. a = caller) [0..<n])" by (simp add: conj_commute)
  also have "\<dots> = filter P [caller]" unfolding one ..
  finally show ?thesis by (simp del: filter_filter)
qed

text \<open>The operations of a call, as the completion numbers them.\<close>

lemma new_owners:
  assumes "caller < length calls"
  shows "length (wc_owners (newWriteCompletion uri calls maximum)) = length (concat calls)"
    "length (wc_responses (newWriteCompletion uri calls maximum) ! caller) = length (calls ! caller)"
    "(\<exists>x \<in> set (wc_owners (newWriteCompletion uri calls maximum)). ow_caller x = caller \<and> P (ow_key x)) \<longleftrightarrow>
       (\<exists>a \<in> set (calls ! caller). P (operation_key uri a))"
proof -
  show "length (wc_owners (newWriteCompletion uri calls maximum)) = length (concat calls)"
    using arg_cong[OF map_nth[of calls], of "\<lambda>xs. sum_list (map length xs)"]
    by (simp add: newWriteCompletion_def length_concat o_def call_owners_def)
  show "length (wc_responses (newWriteCompletion uri calls maximum) ! caller) = length (calls ! caller)"
    using assms by (simp add: newWriteCompletion_def)
  have "(\<exists>x \<in> set (wc_owners (newWriteCompletion uri calls maximum)). ow_caller x = caller \<and> P (ow_key x)) \<longleftrightarrow>
      (\<exists>x \<in> set (call_owners uri caller (calls ! caller)). P (ow_key x))"
    using assms by (auto simp: newWriteCompletion_def call_owners_def)
  also have "\<dots> \<longleftrightarrow> (\<exists>a \<in> set (calls ! caller). P (operation_key uri a))"
    by (fastforce simp: call_owners_def in_set_conv_nth)
  finally show "(\<exists>x \<in> set (wc_owners (newWriteCompletion uri calls maximum)). ow_caller x = caller \<and> P (ow_key x)) \<longleftrightarrow>
      (\<exists>a \<in> set (calls ! caller). P (operation_key uri a))" .
qed

lemma completion_answers:
  assumes d: "completion_inv d" "map owner_of (wc_owners d) = map owner_of (wc_owners (newWriteCompletion uri calls maximum))"
      "length (wc_remaining d) = length calls"
      "length (wc_responses d ! caller) = length (wc_responses (newWriteCompletion uri calls maximum) ! caller)"
    and caller: "caller < length calls" "calls ! caller \<noteq> []"
  shows "replies caller (wc_events d) = of_bool (undone d caller = 0)"
    "\<forall>results. CompleteCall caller results \<in> set (wc_events d) \<longrightarrow> length results = length (calls ! caller) \<and> None \<notin> set results \<and>
       (\<forall>address \<in> set (calls ! caller). \<forall>k. operation_key uri address = Some k \<longrightarrow>
          length (filter (\<lambda>e. e = FinishRecord caller k) (wc_events d)) = 1)"
proof -
  have "has_operations d caller"
    using caller new_owners(3)[OF caller(1), of uri maximum "\<lambda>_. True"] owners_same(2)[OF d(2), of "\<lambda>a _ _. a = caller"]
    by (simp add: has_operations_def ex_in_conv)
  then show "replies caller (wc_events d) = of_bool (undone d caller = 0)"
    using d(1) unfolding completion_inv_def by simp
  have n: "caller < length (wc_responses d)" using d(1,3) caller(1) by (simp add: completion_inv_def owners_ok_def)
  have "length (filter (\<lambda>e. e = FinishRecord caller k) (wc_events d)) = 1"
    if "undone d caller = 0" "address \<in> set (calls ! caller)" "operation_key uri address = Some k" for address k
  proof -
    have "has_key d caller k"
      using that(2,3) new_owners(3)[OF caller(1), of uri maximum "\<lambda>x. x = Some k"] owners_same(2)[OF d(2), of "\<lambda>a _ x. a = caller \<and> x = Some k"]
      unfolding has_key_def by blast
    moreover have "undone_key d caller k = 0" using that(1) by (simp add: undone_zero undone_key_zero)
    ultimately show ?thesis using d(1) unfolding completion_inv_def by simp
  qed
  moreover have "undone d caller = 0 \<and> r = wc_responses d ! caller" if "CompleteCall caller r \<in> set (wc_events d)" for r
    using d(1) that unfolding completion_inv_def by blast
  ultimately show "\<forall>results. CompleteCall caller results \<in> set (wc_events d) \<longrightarrow> length results = length (calls ! caller) \<and> None \<notin> set results \<and>
       (\<forall>address \<in> set (calls ! caller). \<forall>k. operation_key uri address = Some k \<longrightarrow>
          length (filter (\<lambda>e. e = FinishRecord caller k) (wc_events d)) = 1)"
    using completion_answered[OF d(1) _ n] d(4) new_owners(2)[OF caller(1)] by metis
qed

lemma completion_finishes:
  assumes d: "completion_inv d" "map owner_of (wc_owners d) = map owner_of (wc_owners (newWriteCompletion uri calls maximum))"
    and did: "\<And>m. m < length (wc_owners d) \<Longrightarrow> ow_done (wc_owners d ! m) = P (length (wc_owners d)) m"
    and caller: "caller < length calls"
  shows "\<forall>k. length (filter (\<lambda>e. e = FinishRecord caller k) (wc_events d)) =
    of_bool ((\<exists>address \<in> set (calls ! caller). operation_key uri address = Some k) \<and>
      (let owners = wc_owners (newWriteCompletion uri calls maximum) in
       \<forall>i < length owners. ow_caller (owners ! i) = caller \<and> ow_key (owners ! i) = Some k \<longrightarrow> P (length owners) i))"
proof
  fix k
  let ?owners = "wc_owners (newWriteCompletion uri calls maximum)"
  have key: "has_key d caller k = (\<exists>address \<in> set (calls ! caller). operation_key uri address = Some k)"
    using new_owners(3)[OF caller, of uri maximum "\<lambda>x. x = Some k"] owners_same(2)[OF d(2), of "\<lambda>a _ x. a = caller \<and> x = Some k"]
    unfolding has_key_def by blast
  have n: "length (wc_owners d) = length ?owners" using d(2) by (metis length_map)
  have at: "ow_caller (wc_owners d ! i) = ow_caller (?owners ! i)" "ow_key (wc_owners d ! i) = ow_key (?owners ! i)"
    if "i < length ?owners" for i
    using that n arg_cong[OF d(2), of "\<lambda>xs. xs ! i"] by (simp_all add: owner_of_def)
  have "undone_key d caller k = 0 \<longleftrightarrow>
      (\<forall>i < length ?owners. ow_caller (?owners ! i) = caller \<and> ow_key (?owners ! i) = Some k \<longrightarrow> P (length ?owners) i)"
    unfolding undone_key_zero all_set_conv_all_nth n using at did n by auto
  then show "length (filter (\<lambda>e. e = FinishRecord caller k) (wc_events d)) =
      of_bool ((\<exists>address \<in> set (calls ! caller). operation_key uri address = Some k) \<and>
        (let owners = ?owners in
         \<forall>i < length owners. ow_caller (owners ! i) = caller \<and> ow_key (owners ! i) = Some k \<longrightarrow> P (length owners) i))"
    using d(1) key unfolding completion_inv_def Let_def by simp
qed

text \<open>
  C31: every caller of a batched write gets exactly one answer. Whatever operations the executor
  publishes, in whatever order and however often, and whether it then returns results, a wrong number
  of results or an error, each call with operations is answered exactly once. A call answered with a
  response has a result for every one of its operations, and every record its operations address was
  finished exactly once. A record of a call that is answered with an error is finished once if all the
  call's operations on it were published, and not at all otherwise: the batcher releases it with the batch.
\<close>

theorem write_completion_exactly_once:
  assumes "\<forall>(i, r) \<in> set publishes. i < length (concat calls)" "caller < length calls" "calls ! caller \<noteq> []"
  shows "let events = wc_events (completion_run uri calls maximum publishes response);
      owners = wc_owners (newWriteCompletion uri calls maximum);
      finishes = \<lambda>k. length (filter (\<lambda>e. e = FinishRecord caller k) events) in
    replies caller events = 1 \<and>
    (\<forall>results. CompleteCall caller results \<in> set events \<longrightarrow>
       length results = length (calls ! caller) \<and> None \<notin> set results \<and>
       (\<forall>address \<in> set (calls ! caller). \<forall>k. operation_key uri address = Some k \<longrightarrow> finishes k = 1)) \<and>
    (\<forall>k. finishes k = of_bool ((\<exists>address \<in> set (calls ! caller). operation_key uri address = Some k) \<and>
       (\<forall>i < length owners. ow_caller (owners ! i) = caller \<and> ow_key (owners ! i) = Some k \<longrightarrow>
          answered_operation publishes response (length owners) i)))"
proof -
  let ?n = "newWriteCompletion uri calls maximum"
  let ?finishes = "\<lambda>d k. length (filter (\<lambda>e. e = FinishRecord caller k) (wc_events d))"
  have pub: "\<forall>(i, r) \<in> set publishes. i < length (wc_owners ?n)" using assms(1) new_owners(1)[OF assms(2)] by simp
  obtain d e where d: "completion_inv d" "map owner_of (wc_owners d) = map owner_of (wc_owners ?n)"
    "length (wc_remaining d) = length calls" "length (wc_responses d ! caller) = length (wc_responses ?n ! caller)"
    and did: "\<And>m. m < length (wc_owners d) \<Longrightarrow> ow_done (wc_owners d ! m) = answered_operation publishes response (length (wc_owners d)) m"
    and run: "completion_run uri calls maximum publishes response = d\<lparr>wc_events := wc_events d @
        map (\<lambda>a. FailCall a e) (filter (\<lambda>a. 0 < wc_remaining d ! a) [0..<length (wc_remaining d)])\<rparr>"
    by (rule completion_run_state[OF pub]) blast
  note facts = completion_answers[OF d assms(2,3)]
  have "(0 < wc_remaining d ! caller) = (undone d caller \<noteq> 0)"
    using d(1,3) assms(2) sum_of_bool_nonneg[of "\<lambda>x. ow_caller x = caller \<and> \<not> ow_done x" "wc_owners d"]
    by (auto simp: completion_inv_def undone_def)
  then have one: "replies caller (wc_events (completion_run uri calls maximum publishes response)) = 1"
    using facts(1) filter_one_caller[OF assms(2), of "\<lambda>a. 0 < wc_remaining d ! a"] unfolding run
    by (auto simp: replies_def filter_map o_def d(3))
  have finish: "?finishes (completion_run uri calls maximum publishes response) k = ?finishes d k" for k
    unfolding run by (simp add: filter_map o_def)
  have same: "(CompleteCall caller results \<in> set (wc_events (completion_run uri calls maximum publishes response))) =
      (CompleteCall caller results \<in> set (wc_events d))" for results
    unfolding run by auto
  show ?thesis
    unfolding Let_def finish same using one facts(2) completion_finishes[where P = "answered_operation publishes response", OF d(1,2) did assms(2)]
    unfolding Let_def by blast
qed

definition demo_uri_ok :: uri_parser where
  "demo_uri_ok _ = Inr \<lparr>ad_store = ''s'', ad_segments = [''r''], ad_string = ''r'', ad_routingKey = ''r''\<rparr>"

text \<open>Two callers; the second operation is published, then the execution fails.\<close>

theorem write_completion_exactly_once_witness:
  "wc_events (completion_run demo_uri_ok [[None], [None]] 1000 [(1, demo_result 1)] (Inl (status_error Unavailable ''down''))) =
     [FinishRecord 1 ''r'', CompleteCall 1 [Some (demo_result 0)], FailCall 0 (status_error Unavailable ''down'')] \<and>
   replies 0 (wc_events (completion_run demo_uri_ok [[None], [None]] 1000 [(1, demo_result 1)] (Inl (status_error Unavailable ''down'')))) = 1"
proof -
  let ?e = "Inl (status_error Unavailable ''down'')"
  have "wc_events (completion_run demo_uri_ok [[None], [None]] 1000 [(1, demo_result 1)] ?e) =
     [FinishRecord 1 ''r'', CompleteCall 1 [Some (demo_result 0)], FailCall 0 (status_error Unavailable ''down'')]"
    by code_simp
  then show ?thesis
    using write_completion_exactly_once[of "[(1, demo_result 1)]" "[[None], [None]]" 0 demo_uri_ok 1000 ?e] by (simp add: Let_def)
qed

end
