(* ===== verification/Write_Path.thy ===== *)
theory Write_Path
  imports Write_Completion
begin

text \<open>
  Executing parsed writes, \<open>src/internal/service/write.go\<close> from \<open>executeWriteGroups\<close> on, with
  \<open>write_memory.go\<close>. The environment record holds what lies outside the write path: the storage, the
  context, the memory reservation, the callers' scopes and the Lua engine, as functions on a world
  \<open>'w\<close> that every one of them may change. Metrics and observations are left out.
\<close>

section \<open>Environment and state\<close>

record 'w write_env =
  we_maxReadBytes :: int
  we_maxMergeAttempts :: nat
  we_visible :: bool
  we_budgets :: "requestBudgets option"
  we_managed :: bool
  we_estimateBytes :: int
  we_workingBytes :: int
  we_ctx :: "'w \<Rightarrow> ctx_err option \<times> 'w"
  we_read :: "readBudget \<Rightarrow> (Address \<times> readBudget) list \<Rightarrow> cells \<Rightarrow> 'w \<Rightarrow> (err + readResult list) \<times> cells \<times> 'w"
  we_write :: "bool \<Rightarrow> writeOperation list \<Rightarrow> 'w \<Rightarrow> (err + writeResult list) \<times> 'w"
  we_resize :: "int \<Rightarrow> 'w \<Rightarrow> err option \<times> 'w"
  we_grow :: "int \<Rightarrow> 'w \<Rightarrow> err option \<times> 'w"
  we_shrink :: "int \<Rightarrow> 'w \<Rightarrow> 'w"
  we_output :: "nat \<Rightarrow> int \<Rightarrow> 'w \<Rightarrow> err option \<times> 'w"
  we_free :: "nat \<Rightarrow> int \<Rightarrow> 'w \<Rightarrow> 'w"
  we_lua :: "'w \<Rightarrow> lua \<times> 'w"

record 'w write_state =
  ws_results :: "WriteResult list"
  ws_returns :: "writeReturns option"
  ws_completion :: "writeCompletion option"
  ws_cells :: cells
  ws_world :: 'w

text \<open>The error an execution ends with: a gRPC status, or an error of the memory reservation.\<close>

datatype abort = AbortStatus status | AbortError err

definition contextError :: "'w write_env \<Rightarrow> 'w write_state \<Rightarrow> abort option \<times> 'w write_state" where
  "contextError env st =
     (let (e, w) = we_ctx env (ws_world st)
      in (map_option (\<lambda>e. AbortStatus (fromContextError e)) e, st\<lparr>ws_world := w\<rparr>))"

text \<open>\<open>writeExecutionOptions.complete\<close>: settle the returned documents, then publish the results.\<close>

definition write_complete :: "'w write_env \<Rightarrow> writeGroup \<Rightarrow> 'w write_state \<Rightarrow> 'w write_state" where
  "write_complete env g st =
     (let (r, w) = settle (we_free env) g (ws_results st) (ws_returns st) (ws_world st)
      in st\<lparr>ws_returns := r, ws_world := w,
            ws_completion := completion_group (wg_operations g) (ws_results st) (ws_completion st)\<rparr>)"

text \<open>Give a whole group the result of one storage write and complete it.\<close>

definition fail_group :: "'w write_env \<Rightarrow> err \<Rightarrow> writeGroup \<Rightarrow> 'w write_state \<Rightarrow> 'w write_state" where
  "fail_group env e g st =
     write_complete env g (st\<lparr>ws_results := applyWriteGroupResult (wg_operations g) (ws_results st)
       (empty_writeResult\<lparr>sw_status := WriteStatusFailed, sw_err := Some e\<rparr>)\<rparr>)"

definition finish_group :: "'w write_env \<Rightarrow> writeGroup \<Rightarrow> writeOperation \<Rightarrow> writeResult \<Rightarrow> 'w write_state \<Rightarrow> 'w write_state" where
  "finish_group env g operation stored st =
     write_complete env g (st\<lparr>ws_results :=
       attachWriteDocument (wg_operations g) (applyWriteGroupResult (wg_operations g) (ws_results st) stored) (so_document operation)\<rparr>)"

section \<open>Direct puts\<close>

fun puts_reserve :: "'w write_env \<Rightarrow> writeGroup list \<Rightarrow> 'w write_state \<Rightarrow> (writeGroup \<times> writeOperation) list \<times> 'w write_state" where
  "puts_reserve env [] st = ([], st)"
| "puts_reserve env (g # groups) st =
     (let operation = last (wg_operations g);
          put = the (pw_put operation);
          (e, r, w) = returns_reserve (we_output env) g (pp_document put) (ws_returns st) (ws_world st);
          st1 = st\<lparr>ws_returns := r, ws_world := w\<rparr>
      in case e of
           Some e' \<Rightarrow> puts_reserve env groups (fail_group env e' g st1)
         | None \<Rightarrow>
             (let (rest, st2) = puts_reserve env groups st1
              in ((g, \<lparr>so_address = pw_address operation, so_document = pp_document put, so_precondition = pp_precondition put\<rparr>) # rest, st2)))"

definition apply_responses :: "'w write_env \<Rightarrow> (writeGroup \<times> writeOperation) list \<Rightarrow> writeResult list \<Rightarrow> 'w write_state \<Rightarrow> 'w write_state" where
  "apply_responses env groups stored st =
     fold (\<lambda>((g, operation), x). finish_group env g operation x) (zip groups stored) st"

definition executePuts :: "'w write_env \<Rightarrow> writeGroup list \<Rightarrow> 'w write_state \<Rightarrow> abort option \<times> 'w write_state" where
  "executePuts env groups st =
     (if groups = [] then (None, st)
      else
        let (applied, st1) = puts_reserve env groups st in
        if applied = [] then (None, st1)
        else case we_write env (we_visible env) (map snd applied) (ws_world st1) of
               (Inl e, w) \<Rightarrow> (Some (AbortStatus (status_error Unavailable (''write records: '' @ error_text e))), st1\<lparr>ws_world := w\<rparr>)
             | (Inr stored, w) \<Rightarrow>
                 if length stored \<noteq> length applied
                 then (Some (AbortStatus (status_error Internal ''storage returned an invalid write result count'')), st1\<lparr>ws_world := w\<rparr>)
                 else (None, apply_responses env applied stored (st1\<lparr>ws_world := w\<rparr>)))"

section \<open>Conditional writes\<close>

text \<open>\<open>writeMemoryReservation.retain\<close> of \<open>write_memory.go\<close>.\<close>

definition retain :: "'w write_env \<Rightarrow> int \<Rightarrow> int \<Rightarrow> 'w \<Rightarrow> err option \<times> 'w" where
  "retain env snapshotBytes candidateBytes w =
     (if we_managed env then we_resize env (2 * snapshotBytes + 3 * candidateBytes) w
      else
        let working = min (we_workingBytes env) (2 * snapshotBytes + 3 * candidateBytes);
            bytes = we_estimateBytes env - we_workingBytes env + working
        in we_resize env bytes w)"

record writeAttempt =
  wa_snapshots :: "readBudget list"
  wa_inputs :: "readBudget list"
  wa_outputs :: "readBudget list"
  wa_output :: readBudget
  wa_snapshotBytes :: int
  wa_pendingCandidateBytes :: int
  wa_finalCommit :: bool

record writeChunkOutcome =
  wo_conflicts :: "writeGroup list"
  wo_deferred :: "writeGroup list"

definition payload_bytes :: "storageDocument \<Rightarrow> int" where
  "payload_bytes d = int (length (sd_payload d)) + 128"

definition read_operation :: "'w write_env \<Rightarrow> writeAttempt \<Rightarrow> nat \<Rightarrow> writeGroup \<Rightarrow> Address \<times> readBudget" where
  "read_operation env attempt working g =
     (let operation = wg_operations g ! 0;
          owners = map (\<lambda>member. owner (we_budgets env) (pw_index member)) (wg_operations g);
          budget = sharedSnapshotBudget owners (wa_snapshots attempt);
          budget = (if 1 < callerCount (we_budgets env) then NewWorkingSetReadBudget budget working else budget)
      in (pw_address operation, WithMemoryBudget (we_managed env) budget))"

definition readWriteSnapshots ::
  "'w write_env \<Rightarrow> writeGroup list \<Rightarrow> writeAttempt \<Rightarrow> 'w write_state \<Rightarrow> (abort + readResult list) \<times> 'w write_state" where
  "readWriteSnapshots env groups attempt st =
     (let working = length (ws_cells st);
          (_, cs1) = NewReadBudget (we_maxReadBytes env) (ws_cells st);
          readOperations = map (read_operation env attempt working) groups;
          (request, cs2) = NewReadBudget (we_maxReadBytes env) cs1;
          (response, cs3, w) = we_read env request readOperations cs2 (ws_world st);
          st1 = st\<lparr>ws_cells := cs3, ws_world := w\<rparr>
      in case response of
           Inl e \<Rightarrow> (Inl (AbortStatus (status_error Unavailable (''read records for conditional write: '' @ error_text e))), st1)
         | Inr snapshots \<Rightarrow>
             if length snapshots \<noteq> length groups
             then (Inl (AbortStatus (status_error Internal ''storage returned an invalid conditional read result count'')), st1)
             else (Inr snapshots, st1))"

fun commit_responses ::
  "'w write_env \<Rightarrow> (writeGroup \<times> writeOperation) list \<Rightarrow> writeResult list \<Rightarrow> 'w write_state \<Rightarrow> writeGroup list \<times> 'w write_state" where
  "commit_responses env ((g, operation) # candidates) (stored # responses) st =
     (if sw_status stored = WriteStatusPreconditionFailed
      then (let (rest, st1) = commit_responses env candidates responses st in (g # rest, st1))
      else commit_responses env candidates responses (finish_group env g operation stored st))"
| "commit_responses env _ _ st = ([], st)"

definition candidate_bytes :: "(writeGroup \<times> writeOperation) list \<Rightarrow> int" where
  "candidate_bytes candidates = sum_list (map (\<lambda>(_, operation). payload_bytes (so_document operation)) candidates)"

definition fail_candidates :: "'w write_env \<Rightarrow> err \<Rightarrow> (writeGroup \<times> writeOperation) list \<Rightarrow> 'w write_state \<Rightarrow> 'w write_state" where
  "fail_candidates env e candidates st = fold (\<lambda>(g, _). fail_group env (ResourceExhaustedError e) g) candidates st"

text \<open>The storage call of \<open>commitWriteCandidates\<close>, its lines from building the request to the end.\<close>

definition send_candidates ::
  "'w write_env \<Rightarrow> (writeGroup \<times> writeOperation) list \<Rightarrow> 'w write_state \<Rightarrow> (abort + writeGroup list) \<times> 'w write_state" where
  "send_candidates env candidates st =
     (case we_write env (we_visible env) (map snd candidates) (ws_world st) of
        (Inl e, w) \<Rightarrow> (Inl (AbortStatus (status_error Unavailable (''commit folded records: '' @ error_text e))), st\<lparr>ws_world := w\<rparr>)
      | (Inr responses, w) \<Rightarrow>
          if length responses \<noteq> length candidates
          then (Inl (AbortStatus (status_error Internal ''storage returned an invalid merge write result count'')), st\<lparr>ws_world := w\<rparr>)
          else map_prod Inr id (commit_responses env candidates responses (st\<lparr>ws_world := w\<rparr>)))"

definition commitWriteCandidates ::
  "'w write_env \<Rightarrow> (writeGroup \<times> writeOperation) list \<Rightarrow> writeAttempt \<Rightarrow> 'w write_state
     \<Rightarrow> (abort + writeGroup list) \<times> 'w write_state" where
  "commitWriteCandidates env candidates attempt st =
     (if candidates = [] then (Inr [], st)
      else case contextError env st of
        (Some e, st1) \<Rightarrow> (Inl e, st1)
      | (None, st1) \<Rightarrow>
          if wa_finalCommit attempt \<or> we_managed env
          then (case retain env (wa_snapshotBytes attempt)
                       (candidate_bytes candidates + wa_pendingCandidateBytes attempt) (ws_world st1) of
                  (Some e, w) \<Rightarrow>
                    if \<not> we_managed env then (Inl (AbortError e), st1\<lparr>ws_world := w\<rparr>)
                    else (Inr [], fail_candidates env e candidates (st1\<lparr>ws_world := w\<rparr>))
                | (None, w) \<Rightarrow> send_candidates env candidates (st1\<lparr>ws_world := w\<rparr>))
          else send_candidates env candidates st1)"

text \<open>
  One snapshot of \<open>applyWriteSnapshots\<close> in three parts: preparing the candidate, reserving its bytes,
  and committing the earlier candidates when this one would not fit beside them.
\<close>

definition prepare_candidate ::
  "'w write_env \<Rightarrow> writeAttempt \<Rightarrow> writeGroup \<Rightarrow> readResult \<Rightarrow> 'w write_state \<Rightarrow> writeOperation option \<times> 'w write_state" where
  "prepare_candidate env attempt g stored st =
     (let (lua, w) = we_lua env (ws_world st) in
      case we_budgets env of
        None \<Rightarrow>
          (let (candidate, rs) = prepareWriteGroup lua g stored (ws_results st)
           in (candidate, st\<lparr>ws_results := rs, ws_world := w\<rparr>))
      | Some b \<Rightarrow>
          (let (candidate, rs, cs, w1) =
                 prepareBatchedWriteGroup lua (we_grow env) (we_grow env) (owner (Some b))
                   ((!) (wa_inputs attempt)) ((!) (wa_outputs attempt)) g stored (ws_results st) (ws_cells st) w
           in (candidate, st\<lparr>ws_results := rs, ws_cells := cs, ws_world := w1\<rparr>)))"

definition capacity_Grow :: "'w write_env \<Rightarrow> int \<Rightarrow> 'w write_state \<Rightarrow> err option \<times> 'w write_state" where
  "capacity_Grow env n st =
     (if we_managed env then (let (e, w) = we_grow env n (ws_world st) in (e, st\<lparr>ws_world := w\<rparr>)) else (None, st))"

definition managed_Shrink :: "'w write_env \<Rightarrow> int \<Rightarrow> 'w write_state \<Rightarrow> 'w write_state" where
  "managed_Shrink env n st = (if we_managed env then st\<lparr>ws_world := we_shrink env n (ws_world st)\<rparr> else st)"

definition reserve_output :: "'w write_env \<Rightarrow> writeAttempt \<Rightarrow> writeOperation \<Rightarrow> 'w write_state \<Rightarrow> err option \<times> 'w write_state" where
  "reserve_output env attempt candidate st =
     (if we_budgets env = None
      then (let (e, cs, w) = Reserve (we_grow env) (we_grow env) (wa_output attempt)
                               (int (length (sd_payload (so_document candidate)))) (ws_cells st) (ws_world st)
            in (e, st\<lparr>ws_cells := cs, ws_world := w\<rparr>))
      else (None, st))"

definition reserve_candidate ::
  "'w write_env \<Rightarrow> writeAttempt \<Rightarrow> writeGroup \<Rightarrow> writeOperation \<Rightarrow> 'w write_state \<Rightarrow> bool \<times> 'w write_state" where
  "reserve_candidate env attempt g candidate st =
     (let candidateBytes = payload_bytes (so_document candidate) in
      case capacity_Grow env (3 * candidateBytes) st of
        (Some e, st1) \<Rightarrow> (False, fail_group env (ResourceExhaustedError e) g st1)
      | (None, st1) \<Rightarrow>
          (let (e, r, w) = returns_reserve (we_output env) g (so_document candidate) (ws_returns st1) (ws_world st1);
               st2 = st1\<lparr>ws_returns := r, ws_world := w\<rparr>
           in case e of
                Some e' \<Rightarrow> (False, fail_group env e' g (managed_Shrink env (3 * candidateBytes) st2))
              | None \<Rightarrow>
                  (case reserve_output env attempt candidate st2 of
                     (Some e', st3) \<Rightarrow> (False, fail_group env e' g (managed_Shrink env (3 * candidateBytes) st3))
                   | (None, st3) \<Rightarrow> (True, st3))))"

definition flush_candidates ::
  "'w write_env \<Rightarrow> writeAttempt \<Rightarrow> int \<Rightarrow> (writeGroup \<times> writeOperation) list \<Rightarrow> int \<Rightarrow> 'w write_state
     \<Rightarrow> (abort + writeGroup list \<times> (writeGroup \<times> writeOperation) list \<times> int) \<times> 'w write_state" where
  "flush_candidates env attempt candidateBytes candidates outputBytes st =
     (if 1 < callerCount (we_budgets env) \<and> candidates \<noteq> [] \<and> candidateBytes > we_maxReadBytes env - outputBytes
      then case commitWriteCandidates env candidates (attempt\<lparr>wa_pendingCandidateBytes := candidateBytes\<rparr>) st of
             (Inl e, st1) \<Rightarrow> (Inl e, st1)
           | (Inr conflicts, st1) \<Rightarrow> (Inr (conflicts, [], 0), managed_Shrink env (3 * outputBytes) st1)
      else (Inr ([], candidates, outputBytes), st))"

definition working_set_full :: "readResult \<Rightarrow> bool" where
  "working_set_full r = (case rr_err r of None \<Rightarrow> False | Some e \<Rightarrow> is_workingSetFull e)"

fun apply_snapshots ::
  "'w write_env \<Rightarrow> writeAttempt \<Rightarrow> (writeGroup \<times> readResult) list \<Rightarrow> writeChunkOutcome \<Rightarrow> (writeGroup \<times> writeOperation) list
     \<Rightarrow> int \<Rightarrow> 'w write_state \<Rightarrow> (abort + writeChunkOutcome \<times> (writeGroup \<times> writeOperation) list) \<times> 'w write_state" where
  "apply_snapshots env attempt [] outcome candidates outputBytes st = (Inr (outcome, candidates), st)"
| "apply_snapshots env attempt ((g, stored) # rest) outcome candidates outputBytes st =
     (if working_set_full stored
      then apply_snapshots env attempt rest (outcome\<lparr>wo_deferred := wo_deferred outcome @ [g]\<rparr>) candidates outputBytes st
      else case prepare_candidate env attempt g stored st of
        (None, st1) \<Rightarrow> apply_snapshots env attempt rest outcome candidates outputBytes (write_complete env g st1)
      | (Some candidate, st1) \<Rightarrow>
          (case reserve_candidate env attempt g candidate st1 of
             (False, st2) \<Rightarrow> apply_snapshots env attempt rest outcome candidates outputBytes st2
           | (True, st2) \<Rightarrow>
               (let candidateBytes = payload_bytes (so_document candidate) in
                case flush_candidates env attempt candidateBytes candidates outputBytes st2 of
                  (Inl e, st3) \<Rightarrow> (Inl e, st3)
                | (Inr (conflicts, kept, keptBytes), st3) \<Rightarrow>
                    apply_snapshots env attempt rest (outcome\<lparr>wo_conflicts := wo_conflicts outcome @ conflicts\<rparr>)
                      (kept @ [(g, candidate)]) (keptBytes + candidateBytes) st3)))"

definition applyWriteSnapshots ::
  "'w write_env \<Rightarrow> writeGroup list \<Rightarrow> readResult list \<Rightarrow> writeAttempt \<Rightarrow> 'w write_state \<Rightarrow> (abort + writeChunkOutcome) \<times> 'w write_state" where
  "applyWriteSnapshots env groups snapshots attempt st =
     (case apply_snapshots env attempt (zip groups snapshots) \<lparr>wo_conflicts = [], wo_deferred = []\<rparr> [] 0 st of
        (Inl e, st1) \<Rightarrow> (Inl e, st1)
      | (Inr (outcome, candidates), st1) \<Rightarrow>
          (case commitWriteCandidates env candidates (attempt\<lparr>wa_finalCommit := True\<rparr>) st1 of
             (Inl e, st2) \<Rightarrow> (Inl e, st2)
           | (Inr conflicts, st2) \<Rightarrow> (Inr (outcome\<lparr>wo_conflicts := wo_conflicts outcome @ conflicts\<rparr>), st2)))"

definition fail_operation :: "err \<Rightarrow> parsedWrite \<Rightarrow> WriteResult list \<Rightarrow> WriteResult list" where
  "fail_operation e operation results =
     results[pw_index operation := setWriteFailure (results ! pw_index operation) FC_RESOURCE_EXHAUSTED (Some e) True]"

definition fail_pending :: "'w write_env \<Rightarrow> err \<Rightarrow> writeGroup list \<Rightarrow> 'w write_state \<Rightarrow> 'w write_state" where
  "fail_pending env e pending st =
     fold (\<lambda>g st. write_complete env g (st\<lparr>ws_results := fold (fail_operation e) (wg_operations g) (ws_results st)\<rparr>)) pending st"

text \<open>
  One pass of the loop of \<open>executeWriteAttempt\<close> over pending groups: the attempt is over, or the groups
  whose snapshots did not fit the working set are pending again, with a smaller limit.
\<close>

definition attempt_pass ::
  "'w write_env \<Rightarrow> writeAttempt \<Rightarrow> writeGroup list \<Rightarrow> nat \<Rightarrow> writeGroup list \<Rightarrow> 'w write_state
     \<Rightarrow> ((abort + writeGroup list) \<times> 'w write_state) + (writeGroup list \<times> nat \<times> writeGroup list \<times> 'w write_state)" where
  "attempt_pass env attempt pending limit conflicts st =
     (case contextError env st of
        (Some e, st1) \<Rightarrow> Inl (Inl e, st1)
      | (None, st1) \<Rightarrow>
          (case we_resize env (we_estimateBytes env) (ws_world st1) of
             (Some e, w) \<Rightarrow> Inl (Inr conflicts, fail_pending env e pending (st1\<lparr>ws_world := w\<rparr>))
           | (None, w) \<Rightarrow>
               (let number = min limit (length pending); batch = take number pending in
                case readWriteSnapshots env batch attempt (st1\<lparr>ws_world := w\<rparr>) of
                  (Inl e, st2) \<Rightarrow> Inl (Inl e, st2)
                | (Inr snapshots, st2) \<Rightarrow>
                    (let bytes = sum_list (map (\<lambda>s. payload_bytes (rr_document s)) snapshots) in
                     case applyWriteSnapshots env batch snapshots (attempt\<lparr>wa_snapshotBytes := bytes\<rparr>) st2 of
                       (Inl e, st3) \<Rightarrow> Inl (Inl e, st3)
                     | (Inr outcome, st3) \<Rightarrow>
                         (let deferred = wo_deferred outcome
                          in Inr (deferred @ drop number pending,
                                  if deferred \<noteq> [] then max 1 (number - length deferred) else limit,
                                  conflicts @ wo_conflicts outcome, st3))))))"

text \<open>Nothing in the loop itself bounds it: \<open>None\<close> is a loop that never returns.\<close>

partial_function (option) attempt_loop ::
  "'w write_env \<Rightarrow> writeAttempt \<Rightarrow> writeGroup list \<Rightarrow> nat \<Rightarrow> writeGroup list \<Rightarrow> 'w write_state
     \<Rightarrow> ((abort + writeGroup list) \<times> 'w write_state) option" where
  "attempt_loop env attempt pending limit conflicts st =
     (if pending = [] then Some (Inr conflicts, st)
      else case attempt_pass env attempt pending limit conflicts st of
             Inl outcome \<Rightarrow> Some outcome
           | Inr (pending', limit', conflicts', st') \<Rightarrow> attempt_loop env attempt pending' limit' conflicts' st')"

declare attempt_loop.simps [code]

definition newWriteAttempt :: "'w write_env \<Rightarrow> 'w write_state \<Rightarrow> writeAttempt \<times> 'w write_state" where
  "newWriteAttempt env st =
     (let (snapshots, cs1) = fresh (we_budgets env) Snapshots (we_maxReadBytes env) (ws_cells st);
          (inputs, cs2) = fresh (we_budgets env) Inputs (we_maxReadBytes env) cs1;
          (outputs, cs3) = fresh (we_budgets env) Outputs (we_maxReadBytes env) cs2;
          (output, cs4) = NewReadBudget (we_maxReadBytes env) cs3
      in (\<lparr>wa_snapshots = snapshots, wa_inputs = inputs, wa_outputs = outputs, wa_output = output,
           wa_snapshotBytes = 0, wa_pendingCandidateBytes = 0, wa_finalCommit = False\<rparr>, st\<lparr>ws_cells := cs4\<rparr>))"

definition executeWriteAttempt ::
  "'w write_env \<Rightarrow> writeGroup list \<Rightarrow> 'w write_state \<Rightarrow> ((abort + writeGroup list) \<times> 'w write_state) option" where
  "executeWriteAttempt env groups st =
     (let (attempt, st1) = newWriteAttempt env st
      in attempt_loop env attempt groups (length groups) [] st1)"

definition conflict_error :: err where
  "conflict_error = ErrText ''record changed during conditional write''"

definition exhaust_operation :: "parsedWrite \<Rightarrow> WriteResult list \<Rightarrow> WriteResult list" where
  "exhaust_operation operation results =
     results[pw_index operation := (results ! pw_index operation)
       \<lparr>wres_status := WS_PRECONDITION_FAILED, wres_failure := Some (newFailure FC_CONFLICT (Some conflict_error) True)\<rparr>]"

definition exhaust_group :: "'w write_env \<Rightarrow> writeGroup \<Rightarrow> 'w write_state \<Rightarrow> 'w write_state" where
  "exhaust_group env g st =
     write_complete env g (st\<lparr>ws_results := fold exhaust_operation (wg_operations g) (ws_results st)\<rparr>)"

fun conditional_attempts ::
  "'w write_env \<Rightarrow> nat \<Rightarrow> writeGroup list \<Rightarrow> 'w write_state \<Rightarrow> (abort option \<times> 'w write_state) option" where
  "conditional_attempts env 0 pending st = Some (None, fold (exhaust_group env) pending st)"
| "conditional_attempts env (Suc n) pending st =
     (if pending = [] then Some (None, st)
      else case contextError env st of
        (Some e, st1) \<Rightarrow> Some (Some e, st1)
      | (None, st1) \<Rightarrow>
          (case executeWriteAttempt env pending st1 of
             None \<Rightarrow> None
           | Some (Inl e, st2) \<Rightarrow> Some (Some e, st2)
           | Some (Inr conflicts, st2) \<Rightarrow> conditional_attempts env n conflicts st2))"

definition executeConditionalWrites ::
  "'w write_env \<Rightarrow> writeGroup list \<Rightarrow> 'w write_state \<Rightarrow> (abort option \<times> 'w write_state) option" where
  "executeConditionalWrites env groups st = conditional_attempts env (we_maxMergeAttempts env) groups st"

section \<open>Waves\<close>

definition executeWriteWave ::
  "'w write_env \<Rightarrow> writeGroup list \<Rightarrow> 'w write_state \<Rightarrow> (abort option \<times> 'w write_state) option" where
  "executeWriteWave env groups st =
     (case executePuts env (filter directPut groups) st of
        (Some e, st1) \<Rightarrow> Some (Some e, st1)
      | (None, st1) \<Rightarrow> executeConditionalWrites env (filter (\<lambda>g. \<not> directPut g) groups) st1)"

text \<open>Whether a group is split, the group its round executes, and what it leaves for the next round.\<close>

definition splits :: "writeGroup \<Rightarrow> bool" where
  "splits g \<longleftrightarrow> 1 < length (wg_operations g) \<and> hasReturns g"

definition wave_head :: "writeGroup \<Rightarrow> writeGroup" where
  "wave_head g =
     (if splits g
      then let first = wg_operations g ! 0
           in \<lparr>wg_operations = [first], wg_merges = (if pw_merge first \<noteq> None then 1 else 0)\<rparr>
      else g)"

definition wave_rest :: "writeGroup \<Rightarrow> writeGroup" where
  "wave_rest g =
     (let first = wg_operations g ! 0
      in \<lparr>wg_operations = drop 1 (wg_operations g),
          wg_merges = (if pw_merge first \<noteq> None then wg_merges g - 1 else wg_merges g)\<rparr>)"

definition pending_operations :: "writeGroup list \<Rightarrow> nat" where
  "pending_operations groups = length groups + sum_list (map (\<lambda>g. length (wg_operations g)) groups)"

lemma wave_rest_pending: "splits g \<Longrightarrow> length (wg_operations (wave_rest g)) < length (wg_operations g)"
  by (auto simp: splits_def wave_rest_def Let_def)

lemma wave_pending_le: "pending_operations (map wave_rest (filter splits groups)) \<le> pending_operations groups"
  by (induction groups) (auto simp: pending_operations_def dest: wave_rest_pending)

lemma wave_pending: "groups \<noteq> [] \<Longrightarrow> pending_operations (map wave_rest (filter splits groups)) < pending_operations groups"
  using wave_pending_le [of "tl groups"] wave_rest_pending [of "hd groups"]
  by (cases groups) (auto simp: pending_operations_def)

function executeWriteGroups ::
  "'w write_env \<Rightarrow> writeGroup list \<Rightarrow> 'w write_state \<Rightarrow> (abort option \<times> 'w write_state) option" where
  "executeWriteGroups env groups st =
     (if groups = [] then Some (None, st)
      else case executeWriteWave env (map wave_head groups) st of
        None \<Rightarrow> None
      | Some (Some e, st1) \<Rightarrow> Some (Some e, st1)
      | Some (None, st1) \<Rightarrow> executeWriteGroups env (map wave_rest (filter splits groups)) st1)"
  by pat_completeness auto

termination
  by (relation "measure (\<lambda>(env, groups, st). pending_operations groups)") (auto intro: wave_pending)

declare executeWriteGroups.simps [simp del]

section \<open>Every attempt ends\<close>

text \<open>
  A read budget as the write path builds it: at most one working set, which nothing has been charged
  to yet.
\<close>

fun no_working :: "readBudget \<Rightarrow> bool" where
  "no_working (Plain i) = True"
| "no_working (Shared budgets) = (\<forall>b \<in> set budgets. no_working b)"
| "no_working (WorkingSet caller working) = False"
| "no_working (Managed caller) = no_working caller"
| "no_working (Responding caller) = no_working caller"

fun fresh_working :: "cells \<Rightarrow> readBudget \<Rightarrow> bool" where
  "fresh_working cs (WorkingSet caller working) =
     (no_working caller \<and> working < length cs \<and> rb_remaining (cs ! working) = rb_maximum (cs ! working))"
| "fresh_working cs (Managed caller) = fresh_working cs caller"
| "fresh_working cs b = no_working b"

text \<open>What the write path relies on: a storage does not put off every read of a request.\<close>

locale progress_storage =
  fixes read :: "readBudget \<Rightarrow> (Address \<times> readBudget) list \<Rightarrow> cells \<Rightarrow> 'w \<Rightarrow> (err + readResult list) \<times> cells \<times> 'w"
  assumes reads_some:
    "ops \<noteq> [] \<Longrightarrow> read request ops cs w = (Inr rs, cs', w') \<Longrightarrow> length rs = length ops \<Longrightarrow>
     \<forall>op \<in> set ops. fresh_working cs (snd op) \<Longrightarrow> \<exists>r \<in> set rs. \<not> working_set_full r"

text \<open>The memory store as the storage of the write path; the lease answers with a gRPC status.\<close>

definition lease_grow :: "(int \<Rightarrow> 'w \<Rightarrow> (status \<times> string) option \<times> 'w) \<Rightarrow> int \<Rightarrow> 'w \<Rightarrow> err option \<times> 'w" where
  "lease_grow grow n w = map_prod (map_option (\<lambda>(s, text). ErrStatus s text)) id (grow n w)"

definition memory_read ::
  "('w \<Rightarrow> mem_store) \<Rightarrow> (int \<Rightarrow> 'w \<Rightarrow> (status \<times> string) option \<times> 'w) \<Rightarrow> readBudget \<Rightarrow> (Address \<times> readBudget) list \<Rightarrow> cells \<Rightarrow> 'w
     \<Rightarrow> (err + readResult list) \<times> cells \<times> 'w" where
  "memory_read store grow request ops cs w =
     (let (rs, cs', w') = mem_Read (lease_grow grow) (lease_grow grow) (store w) (Some request) (map (map_prod id Some) ops) cs w
      in (Inr rs, cs', w'))"

lemma exhausted_not_full [simp]: "\<not> is_workingSetFull (exhausted b)"
  by (simp add: exhausted_def NewOperationError_def)

lemma reserve_cell_not_full: "reserve_cell i n cs = (Some e, cs') \<Longrightarrow> \<not> is_workingSetFull e"
  by (auto simp: reserve_cell_def Let_def split: if_splits)

lemma lease_grow_not_full: "lease_grow grow n w = (Some e, w') \<Longrightarrow> \<not> is_workingSetFull (ResourceExhaustedError e)"
  by (cases "grow n w") (auto simp: lease_grow_def ResourceExhaustedError_def NewOperationError_def)

lemma Reserve_no_working:
  shows "no_working b \<Longrightarrow> Reserve (lease_grow g) (lease_grow g) b n cs w = (Some e, cs', w') \<Longrightarrow> \<not> is_workingSetFull e"
    and "\<forall>b \<in> set bs. no_working b \<Longrightarrow> (\<And>f. failure = Some f \<Longrightarrow> \<not> is_workingSetFull f) \<Longrightarrow>
      reserve_shared (lease_grow g) (lease_grow g) bs n accepted failure cs w = (Some e, cs', w') \<Longrightarrow> \<not> is_workingSetFull e"
proof (induction "lease_grow g" "lease_grow g" b n cs w and "lease_grow g" "lease_grow g" bs n accepted failure cs w
    arbitrary: e cs' w' and e cs' w' rule: Reserve_reserve_shared.induct)
  case (1 i n cs w)
  then show ?case by (auto dest: reserve_cell_not_full split: prod.splits)
next
  case (2 budgets n cs w)
  then show ?case by (auto split: if_splits)
next
  case (4 caller n cs w)
  then show ?case by (auto dest: lease_grow_not_full split: prod.splits option.splits)
next
  case (5 caller n cs w)
  then show ?case by (auto dest: lease_grow_not_full split: prod.splits option.splits)
next
  case (6 n accepted failure cs w)
  then show ?case by (auto split: if_splits)
next
  case (7 b bs n accepted failure cs w)
  obtain f cs1 w1 where r: "Reserve (lease_grow g) (lease_grow g) b n cs w = (f, cs1, w1)" by (cases "Reserve (lease_grow g) (lease_grow g) b n cs w")
  show ?case
  proof (cases f)
    case None
    then show ?thesis using 7(2)[OF r[symmetric] None refl] 7(4-6) r by simp
  next
    case (Some x)
    have "\<not> is_workingSetFull x" using 7(1) 7(4) r Some by simp
    then show ?thesis using 7(3)[OF r[symmetric] Some refl] 7(4-6) r Some by simp
  qed
qed simp_all

lemma reserve_cell_fresh:
  "rb_remaining (cs ! i) = rb_maximum (cs ! i) \<Longrightarrow> reserve_cell i n cs = (Some e, cs') \<Longrightarrow> \<not> (0 \<le> n \<and> n \<le> rb_maximum (cs ! i) - 128)"
  by (auto simp: reserve_cell_def overhead_def Let_def split: if_splits)

lemma Reserve_fresh_working:
  "fresh_working cs b \<Longrightarrow> Reserve (lease_grow g) (lease_grow g) b n cs w = (Some e, cs', w') \<Longrightarrow> \<not> is_workingSetFull e"
proof (induction cs b arbitrary: e cs' w' rule: fresh_working.induct)
  case (1 cs caller working)
  then show ?case
    by (auto dest: reserve_cell_fresh reserve_cell_not_full Reserve_no_working(1) split: prod.splits option.splits if_splits)
next
  case (2 cs caller)
  then show ?case by (auto dest: lease_grow_not_full split: prod.splits option.splits)
qed (simp_all only: fresh_working.simps, (rule Reserve_no_working(1), assumption+)+)

interpretation memory: progress_storage "memory_read store grow" for store grow
proof
  fix ops :: "(Address \<times> readBudget) list" and request cs and w :: 'a and rs cs' w'
  assume *: "ops \<noteq> []" "memory_read store grow request ops cs w = (Inr rs, cs', w')"
    "\<forall>op \<in> set ops. fresh_working cs (snd op)"
  obtain a b rest where ops: "ops = (a, b) # rest" using *(1) by (cases ops) auto
  have fresh: "fresh_working cs b" using *(3) ops by simp
  show "\<exists>r \<in> set rs. \<not> working_set_full r"
    using *(2) fresh
    by (auto simp: ops memory_read_def mem_Read_def working_set_full_def empty_readResult_def Let_def
        split: prod.splits option.splits if_splits dest: Reserve_fresh_working)
qed


text \<open>The groups an attempt puts off or hands on to the next one are groups it was given.\<close>

lemma map_prod_Inr: "map_prod Inr id p = (Inr x, y) \<longleftrightarrow> p = (x, y)"
  by (cases p) auto

lemma commit_responses_groups: "commit_responses env candidates responses st = (gs, st') \<Longrightarrow> set gs \<subseteq> fst ` set candidates"
  by (induction env candidates responses st arbitrary: gs rule: commit_responses.induct) (auto split: if_splits prod.splits)

lemma commit_groups: "commitWriteCandidates env candidates attempt st = (Inr gs, st') \<Longrightarrow> set gs \<subseteq> fst ` set candidates"
  by (auto simp: commitWriteCandidates_def send_candidates_def map_prod_Inr split: if_splits prod.splits option.splits sum.splits
      dest!: commit_responses_groups)

lemma flush_groups:
  "flush_candidates env attempt n candidates m st = (Inr (gs, kept, k), st') \<Longrightarrow> set gs \<union> fst ` set kept \<subseteq> fst ` set candidates"
  by (auto simp: flush_candidates_def split: if_splits prod.splits sum.splits dest!: commit_groups)

text \<open>The five ways one snapshot goes.\<close>

lemma apply_snapshots_step:
  assumes "apply_snapshots env attempt ((g, stored) # rest) outcome candidates m st = r"
  obtains
    (deferred) "working_set_full stored"
      "apply_snapshots env attempt rest (outcome\<lparr>wo_deferred := wo_deferred outcome @ [g]\<rparr>) candidates m st = r"
  | (failed) st1 where "\<not> working_set_full stored" "prepare_candidate env attempt g stored st = (None, st1)"
      "apply_snapshots env attempt rest outcome candidates m (write_complete env g st1) = r"
  | (refused) candidate st1 st2 where "\<not> working_set_full stored"
      "prepare_candidate env attempt g stored st = (Some candidate, st1)"
      "reserve_candidate env attempt g candidate st1 = (False, st2)"
      "apply_snapshots env attempt rest outcome candidates m st2 = r"
  | (aborted) e st1 where "r = (Inl e, st1)"
  | (kept) candidate st1 st2 conflicts before k st3 where "\<not> working_set_full stored"
      "prepare_candidate env attempt g stored st = (Some candidate, st1)"
      "reserve_candidate env attempt g candidate st1 = (True, st2)"
      "flush_candidates env attempt (payload_bytes (so_document candidate)) candidates m st2 = (Inr (conflicts, before, k), st3)"
      "apply_snapshots env attempt rest (outcome\<lparr>wo_conflicts := wo_conflicts outcome @ conflicts\<rparr>)
         (before @ [(g, candidate)]) (k + payload_bytes (so_document candidate)) st3 = r"
proof (cases "working_set_full stored")
  case True
  then show thesis using assms that(1) by simp
next
  case False
  obtain c st1 where p: "prepare_candidate env attempt g stored st = (c, st1)" by fastforce
  show thesis
  proof (cases c)
    case None
    then show thesis using assms that(2) False p by simp
  next
    case (Some candidate)
    let ?n = "payload_bytes (so_document candidate)"
    obtain b st2 where r: "reserve_candidate env attempt g candidate st1 = (b, st2)" by fastforce
    obtain f st3 where f: "flush_candidates env attempt ?n candidates m st2 = (f, st3)" by fastforce
    show thesis
    proof (cases "b \<and> \<not> isl f")
      case True
      then obtain conflicts before k where f': "f = Inr (conflicts, before, k)" by (cases f) auto
      then show thesis using assms that(5)[of candidate st1 st2 conflicts before k st3] False p r f Some True by simp
    next
      case no: False
      show thesis
      proof (cases b)
        case True
        then obtain e where "f = Inl e" using no by (cases f) auto
        then have "r = (Inl e, st3)" using assms False p r f Some True by simp
        then show thesis by (rule that(4))
      next
        case refused: False
        then show thesis using assms that(3)[of candidate st1 st2] False p r Some by simp
      qed
    qed
  qed
qed

lemma apply_snapshots_groups:
  "apply_snapshots env attempt gs outcome candidates m st = (Inr (outcome', candidates'), st') \<Longrightarrow>
   wo_deferred outcome' = wo_deferred outcome @ map fst (filter (working_set_full \<circ> snd) gs) \<and>
   set (wo_conflicts outcome') \<union> fst ` set candidates' \<subseteq> set (wo_conflicts outcome) \<union> fst ` set candidates \<union> fst ` set gs"
proof (induction gs arbitrary: outcome candidates m st)
  case (Cons x gs)
  obtain g stored where x: "x = (g, stored)" by (cases x)
  from Cons.prems[unfolded x] show ?case
  proof (cases rule: apply_snapshots_step)
    case (kept candidate st1 st2 conflicts before k st3)
    note ih = Cons.IH[OF kept(5)] and fl = flush_groups[OF kept(4)]
    have "set (wo_conflicts outcome') \<union> fst ` set candidates' \<subseteq>
        set (wo_conflicts outcome @ conflicts) \<union> fst ` set (before @ [(g, candidate)]) \<union> fst ` set gs"
      using ih by simp
    also have "\<dots> \<subseteq> set (wo_conflicts outcome) \<union> fst ` set candidates \<union> fst ` set (x # gs)"
      using fl unfolding x by auto
    finally show ?thesis using ih kept(1) unfolding x by simp
  next
    case deferred
    then show ?thesis using Cons.IH[OF deferred(2)] unfolding x by auto
  next
    case (failed st1)
    then show ?thesis using Cons.IH[OF failed(3)] unfolding x by auto
  next
    case (refused candidate st1 st2)
    then show ?thesis using Cons.IH[OF refused(4)] unfolding x by auto
  qed simp
qed simp

lemma apply_groups:
  assumes "applyWriteSnapshots env groups snapshots attempt st = (Inr outcome, st')" "length snapshots = length groups"
  shows "wo_deferred outcome = map fst (filter (working_set_full \<circ> snd) (zip groups snapshots))"
    and "set (wo_conflicts outcome) \<subseteq> set groups"
proof -
  obtain o1 c1 st1 conf where s: "apply_snapshots env attempt (zip groups snapshots) \<lparr>wo_conflicts = [], wo_deferred = []\<rparr> [] 0 st = (Inr (o1, c1), st1)"
    and c: "commitWriteCandidates env c1 (attempt\<lparr>wa_finalCommit := True\<rparr>) st1 = (Inr conf, st')"
    and o: "outcome = o1\<lparr>wo_conflicts := wo_conflicts o1 @ conf\<rparr>"
    using assms(1) by (auto simp: applyWriteSnapshots_def split: prod.splits sum.splits)
  show "wo_deferred outcome = map fst (filter (working_set_full \<circ> snd) (zip groups snapshots))"
    using apply_snapshots_groups[OF s] o by simp
  have "fst ` set (zip groups snapshots) \<subseteq> set groups" by (auto dest: set_zip_leftD)
  then show "set (wo_conflicts outcome) \<subseteq> set groups"
    using apply_snapshots_groups[OF s] commit_groups[OF c] o by (auto 0 3)
qed

definition attempt_ok :: "'w write_env \<Rightarrow> writeAttempt \<Rightarrow> bool" where
  "attempt_ok env attempt \<longleftrightarrow> length (wa_snapshots attempt) = callerCount (we_budgets env) \<and> (\<forall>b \<in> set (wa_snapshots attempt). no_working b)"

definition owned :: "'w write_env \<Rightarrow> writeGroup list \<Rightarrow> bool" where
  "owned env groups \<longleftrightarrow> (\<forall>g \<in> set groups. \<forall>op \<in> set (wg_operations g). owner (we_budgets env) (pw_index op) < callerCount (we_budgets env))"

lemma fresh_loop_plain: "fresh_loop b kind m is cs = (bs, cs') \<Longrightarrow> length bs = length is \<and> (\<forall>x \<in> set bs. no_working x)"
  by (induction "is" arbitrary: cs bs)
    (auto simp: Fresh_def NewReadBudget_def NewTrackedReadBudget_def Let_def split: prod.splits if_splits option.splits)

lemma newWriteAttempt_ok: "newWriteAttempt env st = (attempt, st') \<Longrightarrow> attempt_ok env attempt"
  by (auto simp: newWriteAttempt_def fresh_def attempt_ok_def split: prod.splits dest!: fresh_loop_plain)

lemma shared_loop_plain:
  "\<forall>o' \<in> set owners. o' < length budgets \<Longrightarrow> set (shared_loop owners budgets seen) \<subseteq> set budgets"
  by (induction owners arbitrary: seen) auto

lemma shared_plain:
  assumes "\<forall>o' \<in> set owners. o' < length budgets" "\<forall>b \<in> set budgets. no_working b"
  shows "no_working (sharedSnapshotBudget owners budgets)"
proof -
  have "\<forall>b \<in> set (shared_loop owners budgets []). no_working b" using shared_loop_plain[OF assms(1), of "[]"] assms(2) by blast
  then have "no_working (NewSharedReadBudget (shared_loop owners budgets []))" by (simp add: NewSharedReadBudget_def)
  then show ?thesis using assms by (simp add: sharedSnapshotBudget_def)
qed

lemma read_operation_fresh:
  assumes "attempt_ok env attempt" "owned env groups" "g \<in> set groups"
    and "working < length cs" "rb_remaining (cs ! working) = rb_maximum (cs ! working)"
  shows "fresh_working cs (snd (read_operation env attempt working g))"
proof -
  let ?b = "sharedSnapshotBudget (map (\<lambda>member. owner (we_budgets env) (pw_index member)) (wg_operations g)) (wa_snapshots attempt)"
  have "no_working ?b" using assms(1-3) by (intro shared_plain) (auto simp: attempt_ok_def owned_def)
  moreover have "no_working b \<Longrightarrow> fresh_working cs b" for b by (induction b) auto
  ultimately show ?thesis
    using assms(4,5) by (simp add: read_operation_def Let_def WithMemoryBudget_def NewWorkingSetReadBudget_def)
qed


text \<open>The ways one pass of an attempt goes.\<close>

lemma attempt_pass_step:
  assumes "attempt_pass env attempt pending limit conflicts st = r"
  obtains
    (aborted) e st1 where "r = Inl (Inl e, st1)"
  | (refused) e w st1 where "contextError env st = (None, st1)"
      "r = Inl (Inr conflicts, fail_pending env e pending (st1\<lparr>ws_world := w\<rparr>))"
  | (chunk) st1 w snapshots st2 bytes outcome st3 limit' where "contextError env st = (None, st1)"
      "readWriteSnapshots env (take (min limit (length pending)) pending) attempt (st1\<lparr>ws_world := w\<rparr>) = (Inr snapshots, st2)"
      "applyWriteSnapshots env (take (min limit (length pending)) pending) snapshots (attempt\<lparr>wa_snapshotBytes := bytes\<rparr>) st2 = (Inr outcome, st3)"
      "0 < limit \<Longrightarrow> 0 < limit'"
      "r = Inr (wo_deferred outcome @ drop (min limit (length pending)) pending, limit', conflicts @ wo_conflicts outcome, st3)"
proof -
  let ?n = "min limit (length pending)"
  obtain e st1 where c: "contextError env st = (e, st1)" by fastforce
  obtain e' w where z: "we_resize env (we_estimateBytes env) (ws_world st1) = (e', w)" by fastforce
  obtain rd st2 where d: "readWriteSnapshots env (take ?n pending) attempt (st1\<lparr>ws_world := w\<rparr>) = (rd, st2)" by fastforce
  note pass = assms[symmetric, unfolded attempt_pass_def]
  consider (failed) x where "e = Some x" | (full) x where "e = None" "e' = Some x"
    | (unread) x where "e = None" "e' = None" "rd = Inl x" | (read) snapshots where "e = None" "e' = None" "rd = Inr snapshots"
    by (metis not_Some_eq sum.exhaust)
  then show thesis
  proof cases
    case failed
    then have "r = Inl (Inl x, st1)" using pass c by simp
    then show thesis by (rule aborted)
  next
    case full
    then have "r = Inl (Inr conflicts, fail_pending env x pending (st1\<lparr>ws_world := w\<rparr>))" using pass c z by simp
    then show thesis using refused c full by blast
  next
    case unread
    then have "r = Inl (Inl x, st2)" using pass c z d by simp
    then show thesis by (rule aborted)
  next
    case read
    let ?b = "sum_list (map (\<lambda>s. payload_bytes (rr_document s)) snapshots)"
    obtain x st3 where a: "applyWriteSnapshots env (take ?n pending) snapshots (attempt\<lparr>wa_snapshotBytes := ?b\<rparr>) st2 = (x, st3)" by fastforce
    show thesis
    proof (cases x)
      case (Inl e2)
      then have "r = Inl (Inl e2, st3)" using pass c z d read a by simp
      then show thesis by (rule aborted)
    next
      case (Inr outcome)
      let ?l = "if wo_deferred outcome \<noteq> [] then max 1 (?n - length (wo_deferred outcome)) else limit"
      have "r = Inr (wo_deferred outcome @ drop ?n pending, ?l, conflicts @ wo_conflicts outcome, st3)"
        using pass c z d read a Inr by (simp add: Let_def)
      moreover have "0 < limit \<Longrightarrow> 0 < ?l" by (simp add: less_max_iff_disj)
      ultimately show thesis using chunk[of st1 w snapshots st2 ?b outcome st3 ?l] c d read a Inr by blast
    qed
  qed
qed

lemma wave_head_ops: "set (wg_operations (wave_head g)) \<subseteq> set (wg_operations g)"
  by (cases "wg_operations g") (auto simp: wave_head_def Let_def splits_def)

lemma wave_rest_ops: "set (wg_operations (wave_rest g)) \<subseteq> set (wg_operations g)"
  by (auto simp: wave_rest_def Let_def dest: in_set_dropD)

context progress_storage
begin

text \<open>Of the groups of one read, at least one is not put off.\<close>

lemma deferred_fewer:
  assumes "we_read env = read" "attempt_ok env attempt" "owned env batch" "batch \<noteq> []"
    and r: "readWriteSnapshots env batch attempt st = (Inr snapshots, st1)"
    and a: "applyWriteSnapshots env batch snapshots attempt' st1 = (Inr outcome, st2)"
  shows "length (wo_deferred outcome) < length batch \<and> set (wo_deferred outcome) \<union> set (wo_conflicts outcome) \<subseteq> set batch"
proof -
  let ?cs = "ws_cells st"
  obtain b1 cs1 where n1: "NewReadBudget (we_maxReadBytes env) ?cs = (b1, cs1)" by fastforce
  obtain b2 cs2 where n2: "NewReadBudget (we_maxReadBytes env) cs1 = (b2, cs2)" by fastforce
  let ?ops = "map (read_operation env attempt (length ?cs)) batch"
  have len: "length snapshots = length batch" and "\<exists>cs3 w. read b2 ?ops cs2 (ws_world st) = (Inr snapshots, cs3, w)"
    using r assms(1) by (auto simp: readWriteSnapshots_def n1 n2 Let_def split: prod.splits sum.splits if_splits)
  then obtain cs3 w where rd: "read b2 ?ops cs2 (ws_world st) = (Inr snapshots, cs3, w)" by blast
  have "length ?cs < length cs2 \<and> rb_remaining (cs2 ! length ?cs) = rb_maximum (cs2 ! length ?cs)"
    using n1 n2 by (auto simp: NewReadBudget_def Let_def nth_append)
  then have fr: "\<forall>op \<in> set ?ops. fresh_working cs2 (snd op)"
    using read_operation_fresh[OF assms(2,3)] by auto
  have "?ops \<noteq> []" "length snapshots = length ?ops" using assms(4) len by simp_all
  from reads_some[OF this(1) rd this(2) fr] obtain x where x: "x \<in> set snapshots" "\<not> working_set_full x" by blast
  obtain y where y: "(y, x) \<in> set (zip batch snapshots)" using in_set_impl_in_set_zip2[OF len[symmetric] x(1)] .
  have "length (filter (working_set_full \<circ> snd) (zip batch snapshots)) < length (zip batch snapshots)"
    by (rule length_filter_less[OF y]) (simp add: x(2))
  moreover have "set (map fst (filter (working_set_full \<circ> snd) (zip batch snapshots))) \<subseteq> set batch"
    by (auto dest: set_zip_leftD)
  ultimately show ?thesis using apply_groups[OF a len] len by simp
qed

lemma attempt_loop_ends:
  assumes "we_read env = read" "attempt_ok env attempt"
  shows "owned env pending \<Longrightarrow> 0 < limit \<or> pending = [] \<Longrightarrow>
    \<exists>r st'. attempt_loop env attempt pending limit conflicts st = Some (r, st') \<and>
      (\<forall>gs. r = Inr gs \<longrightarrow> set gs \<subseteq> set pending \<union> set conflicts)"
proof (induction "length pending" arbitrary: pending limit conflicts st rule: less_induct)
  case less
  let ?n = "min limit (length pending)"
  have batch: "owned env (take ?n pending)" using less.prems(1) by (auto simp: owned_def dest: in_set_takeD)
  note loop = attempt_loop.simps[of env attempt pending limit conflicts st]
  obtain out where out: "attempt_pass env attempt pending limit conflicts st = out" by blast
  show ?case
  proof (cases "pending = []")
    case True
    then show ?thesis unfolding loop by simp
  next
    case False
    from out show ?thesis
    proof (cases rule: attempt_pass_step)
      case (chunk st1 w snapshots st2 bytes outcome st3 limit')
      have ne: "take ?n pending \<noteq> []" "0 < limit" using less.prems(2) False by auto
      let ?p = "wo_deferred outcome @ drop ?n pending" and ?c = "conflicts @ wo_conflicts outcome"
      note d = deferred_fewer[OF assms batch ne(1) chunk(2,3)]
      then have sub: "set (wo_deferred outcome) \<union> set (wo_conflicts outcome) \<subseteq> set pending" by (auto dest: in_set_takeD)
      have own: "owned env ?p" using less.prems(1) sub by (auto simp: owned_def dest: in_set_dropD)
      have len: "length ?p < length pending" using d by auto
      have "set ?p \<union> set ?c \<subseteq> set pending \<union> set conflicts" using sub by (auto dest: in_set_dropD)
      moreover obtain r st' where r: "attempt_loop env attempt ?p limit' ?c st3 = Some (r, st')"
        and "\<forall>gs. r = Inr gs \<longrightarrow> set gs \<subseteq> set ?p \<union> set ?c"
        using less.hyps[OF len own, of limit' ?c st3] chunk(4) ne(2) by blast
      moreover have "attempt_loop env attempt pending limit conflicts st = Some (r, st')"
        unfolding loop using False out chunk(5) r by simp
      ultimately show ?thesis by blast
    qed (use False out in \<open>simp_all add: loop\<close>)
  qed
qed

lemma attempts_end:
  assumes "we_read env = read"
  shows "owned env groups \<Longrightarrow> \<exists>r. conditional_attempts env n groups st = Some r"
proof (induction n arbitrary: groups st)
  case (Suc n)
  obtain e st1 where c: "contextError env st = (e, st1)" by fastforce
  obtain attempt st2 where a: "newWriteAttempt env st1 = (attempt, st2)" by fastforce
  obtain r st3 where r: "executeWriteAttempt env groups st1 = Some (r, st3)" "\<forall>gs. r = Inr gs \<longrightarrow> set gs \<subseteq> set groups"
    using attempt_loop_ends[OF assms newWriteAttempt_ok[OF a] Suc.prems, of "length groups" "[]" st2] a
    by (auto simp: executeWriteAttempt_def)
  have "owned env gs" if "r = Inr gs" for gs using r(2) that Suc.prems by (auto simp: owned_def)
  then show ?case using Suc.IH c r(1) by (cases e; cases r) auto
qed simp

lemma waves_end:
  assumes "we_read env = read"
  shows "owned env groups \<Longrightarrow> \<exists>r. executeWriteGroups env groups st = Some r"
proof (induction "pending_operations groups" arbitrary: groups st rule: less_induct)
  case (less groups)
  have heads: "owned env (map wave_head groups)" 
    using less.prems wave_head_ops by (fastforce simp: owned_def)
  have rests: "owned env (map wave_rest (filter splits groups))"
    using less.prems wave_rest_ops by (fastforce simp: owned_def)
  obtain e st1 where p: "executePuts env (filter directPut (map wave_head groups)) st = (e, st1)" by fastforce
  have "owned env (filter (\<lambda>g. \<not> directPut g) (map wave_head groups))" using heads by (auto simp: owned_def)
  then obtain r where r: "executeConditionalWrites env (filter (\<lambda>g. \<not> directPut g) (map wave_head groups)) st1 = Some r"
    using attempts_end[OF assms] unfolding executeConditionalWrites_def by blast
  obtain e' st2 where w: "executeWriteWave env (map wave_head groups) st = Some (e', st2)"
    using p r unfolding executeWriteWave_def by (cases e; cases r) auto
  show ?case
  proof (cases "groups = []")
    case False
    obtain r' where "executeWriteGroups env (map wave_rest (filter splits groups)) st2 = Some r'"
      using less.hyps[OF wave_pending[OF False] rests] by blast
    then show ?thesis
      using w False unfolding executeWriteGroups.simps[of env groups st] by (cases e') simp_all
  next
    case True
    then show ?thesis unfolding executeWriteGroups.simps[of env groups st] by simp
  qed
qed

end

end
