(* ===== verification/Write_Answers.thy ===== *)
theory Write_Answers
  imports Write_Path
begin

text \<open>
  What executing a batch of writes promises its callers: the execution ends, and when it ends without
  an error every operation has been answered with a definite status. The lemmas follow the functions
  of \<open>Write_Path\<close> in their order; \<open>steps\<close> relates the states before and after each of them.
\<close>

section \<open>Every operation is answered\<close>

text \<open>
  A result that holds a failure has a status, every result that a caller has been given has one, and
  the operations with a published result are done.
\<close>

definition settled_result :: "WriteResult \<Rightarrow> bool" where
  "settled_result r \<longleftrightarrow> wres_status r \<noteq> WS_UNSPECIFIED"

definition consistent_result :: "WriteResult \<Rightarrow> bool" where
  "consistent_result r \<longleftrightarrow> (wres_failure r \<noteq> None \<longrightarrow> settled_result r)"

definition answered :: "writeCompletion \<Rightarrow> bool" where
  "answered c \<longleftrightarrow> (\<forall>row \<in> set (wc_responses c). \<forall>r. Some r \<in> set row \<longrightarrow> settled_result r) \<and>
     (\<forall>caller row. CompleteCall caller row \<in> set (wc_events c) \<longrightarrow> (\<forall>r. Some r \<in> set row \<longrightarrow> settled_result r))"

definition completion_ok :: "nat \<Rightarrow> writeCompletion \<Rightarrow> bool" where
  "completion_ok n c \<longleftrightarrow> length (wc_owners c) = n \<and> (\<forall>o' \<in> set (wc_owners c). ow_caller o' < length (wc_responses c)) \<and> answered c"

definition state_ok :: "nat \<Rightarrow> 'w write_state \<Rightarrow> bool" where
  "state_ok n st \<longleftrightarrow> length (ws_results st) = n \<and> (\<forall>r \<in> set (ws_results st). consistent_result r) \<and>
     (\<exists>c. ws_completion st = Some c \<and> completion_ok n c)"

definition is_done :: "'w write_state \<Rightarrow> parsedWrite \<Rightarrow> bool" where
  "is_done st op \<longleftrightarrow> (\<exists>c. ws_completion st = Some c \<and> ow_done (wc_owners c ! pw_index op))"

definition steps :: "nat \<Rightarrow> 'w write_state \<Rightarrow> 'w write_state \<Rightarrow> bool" where
  "steps n st st' \<longleftrightarrow> state_ok n st' \<and> (\<forall>op. is_done st op \<longrightarrow> is_done st' op)"

definition within :: "nat \<Rightarrow> writeGroup \<Rightarrow> bool" where
  "within n g \<longleftrightarrow> (\<forall>op \<in> set (wg_operations g). pw_index op < n)"

lemma steps_refl: "state_ok n st \<Longrightarrow> steps n st st"
  by (simp add: steps_def)

lemma steps_trans: "steps n st st1 \<Longrightarrow> steps n st1 st2 \<Longrightarrow> steps n st st2"
  by (auto simp: steps_def)

lemma steps_ok: "steps n st st' \<Longrightarrow> state_ok n st'"
  by (simp add: steps_def)

lemma steps_done: "steps n st st' \<Longrightarrow> is_done st op \<Longrightarrow> is_done st' op"
  by (simp add: steps_def)

text \<open>Steps that leave the published results alone.\<close>

lemma steps_quiet:
  assumes "state_ok n st" "ws_completion st' = ws_completion st" "length (ws_results st') = length (ws_results st)"
    and "\<forall>r \<in> set (ws_results st'). consistent_result r"
  shows "steps n st st'"
  using assms by (simp add: steps_def state_ok_def is_done_def)

lemma published_settled: "settled_result (published o' k m r) = settled_result r"
  by (simp add: published_def settled_result_def)

lemma completion_operation_answered:
  assumes "answered c" "settled_result result" "i < length (wc_owners c)" "\<forall>o' \<in> set (wc_owners c). ow_caller o' < length (wc_responses c)"
  shows "answered (completion_operation i result c)"
proof (cases "ow_done (wc_owners c ! i)")
  case False
  let ?o = "wc_owners c ! i"
  let ?row = "(wc_responses c ! ow_caller ?o)[ow_index ?o := Some (published ?o (length (wc_responses c ! ow_caller ?o)) (wc_maximum c) result)]"
  have "ow_caller ?o < length (wc_responses c)" using assms(3,4) by simp
  then have row: "\<forall>r. Some r \<in> set ?row \<longrightarrow> settled_result r"
    using assms(1,2) published_settled by (auto simp: answered_def dest!: set_update_subset_insert[THEN subsetD])
  have resp: "wc_responses (completion_operation i result c) = (wc_responses c)[ow_caller ?o := ?row]"
    and ev: "\<forall>caller row. CompleteCall caller row \<in> set (wc_events (completion_operation i result c)) \<longrightarrow>
       CompleteCall caller row \<in> set (wc_events c) \<or> row = ?row"
    using False by (auto simp: completion_operation_def Let_def split: prod.splits option.splits if_splits)
  have "set (wc_responses (completion_operation i result c)) \<subseteq> insert ?row (set (wc_responses c))"
    unfolding resp by (rule set_update_subset_insert)
  then show ?thesis using assms(1) row ev unfolding answered_def by blast
qed (use assms(1) in \<open>simp add: completion_operation_def Let_def\<close>)

lemma completion_operation_owners:
  "wc_owners (completion_operation i result c) = (wc_owners c)[i := (wc_owners c ! i)\<lparr>ow_done := True\<rparr>] \<or> 
   completion_operation i result c = c \<and> ow_done (wc_owners c ! i)"
  "length (wc_responses (completion_operation i result c)) = length (wc_responses c)"
  by (auto simp: completion_operation_def Let_def split: prod.splits option.splits)

lemma completion_operation_ok:
  assumes "completion_ok n c" "settled_result result" "i < n"
  shows "completion_ok n (completion_operation i result c)" "ow_done (wc_owners (completion_operation i result c) ! i)"
    "ow_done (wc_owners c ! j) \<Longrightarrow> ow_done (wc_owners (completion_operation i result c) ! j)"
proof -
  have i: "i < length (wc_owners c)" using assms by (simp add: completion_ok_def)
  then show "completion_ok n (completion_operation i result c)"
    using completion_operation_owners[of i result c] completion_operation_answered[of c result i] assms
    by (auto simp: completion_ok_def dest!: set_update_subset_insert[THEN subsetD])
  show "ow_done (wc_owners (completion_operation i result c) ! i)"
    using completion_operation_owners(1)[of i result c] i by auto
  show "ow_done (wc_owners c ! j) \<Longrightarrow> ow_done (wc_owners (completion_operation i result c) ! j)"
    using completion_operation_owners(1)[of i result c] i by (cases "j = i") auto
qed


lemma completion_group_ok:
  assumes "completion_ok n c" "\<forall>op \<in> set ops. pw_index op < n \<and> settled_result (rs ! pw_index op)"
  shows "\<exists>c'. completion_group ops rs (Some c) = Some c' \<and> completion_ok n c' \<and>
    (\<forall>op \<in> set ops. ow_done (wc_owners c' ! pw_index op)) \<and> (\<forall>j. ow_done (wc_owners c ! j) \<longrightarrow> ow_done (wc_owners c' ! j))"
  using assms
proof (induction ops arbitrary: c)
  case (Cons op ops)
  have op: "pw_index op < n" "settled_result (rs ! pw_index op)" using Cons.prems(2) by auto
  note one = completion_operation_ok[OF Cons.prems(1) op(2,1)]
  show ?case using Cons.IH[OF one(1)] Cons.prems(2) one(2,3) by (auto simp: completion_group_def)
qed (simp add: completion_group_def)

lemma write_complete_steps:
  assumes "state_ok n st" "within n g" "\<forall>op \<in> set (wg_operations g). settled_result (ws_results st ! pw_index op)"
  shows "steps n st (write_complete env g st)" "\<forall>op \<in> set (wg_operations g). is_done (write_complete env g st) op"
proof -
  obtain c where c: "ws_completion st = Some c" "completion_ok n c" using assms(1) by (auto simp: state_ok_def)
  obtain r w where s: "settle (we_free env) g (ws_results st) (ws_returns st) (ws_world st) = (r, w)" by fastforce
  obtain c' where c': "completion_group (wg_operations g) (ws_results st) (Some c) = Some c'" "completion_ok n c'"
    "\<forall>op \<in> set (wg_operations g). ow_done (wc_owners c' ! pw_index op)" "\<forall>j. ow_done (wc_owners c ! j) \<longrightarrow> ow_done (wc_owners c' ! j)"
    using completion_group_ok[OF c(2)] assms(2,3) unfolding within_def by metis
  show "steps n st (write_complete env g st)"
    using assms(1) c c' s by (auto simp: write_complete_def steps_def state_ok_def is_done_def)
  show "\<forall>op \<in> set (wg_operations g). is_done (write_complete env g st) op"
    using c c' s by (auto simp: write_complete_def is_done_def)
qed

text \<open>The functions that fill in a group's results.\<close>

lemma applyWriteResult_settled: "settled_result (applyWriteResult r x)"
  by (auto simp: applyWriteResult_def setWriteFailure_def settled_result_def Let_def split: writeStatus.splits prod.splits)

lemma apply1_settled: "consistent_result r \<Longrightarrow> settled_result (apply_group_result1 x r)"
  using applyWriteResult_settled
  by (auto simp: apply_group_result1_def consistent_result_def settled_result_def Let_def)

lemma settled_consistent: "settled_result r \<Longrightarrow> consistent_result r"
  by (simp add: consistent_result_def)

text \<open>Updating results one by one: what holds of every update holds where something was updated.\<close>

lemma fold_update_all:
  assumes "\<forall>r \<in> set rs. Q r" "\<And>x r. Q r \<Longrightarrow> R (f x r)" "\<And>r. R r \<Longrightarrow> Q r"
  shows "(\<forall>r \<in> set (fold (\<lambda>x rs. rs[ix x := f x (rs ! ix x)]) xs rs). Q r) \<and>
    (\<forall>x \<in> set xs. ix x < length rs \<longrightarrow> R (fold (\<lambda>x rs. rs[ix x := f x (rs ! ix x)]) xs rs ! ix x))"
proof (induction xs rule: rev_induct)
  case (snoc y ys)
  let ?rs = "fold (\<lambda>x rs. rs[ix x := f x (rs ! ix x)]) ys rs"
  have len: "length ?rs = length rs" by (rule fold_update_length)
  have "ix y < length rs \<Longrightarrow> R (f y (?rs ! ix y))" using snoc len assms(2) by auto
  then have up: "ix y < length rs \<Longrightarrow> Q (f y (?rs ! ix y)) \<and> R (f y (?rs ! ix y))" using assms(3) by blast
  show ?case
  proof (cases "ix y < length rs")
    case True
    then show ?thesis
      using snoc up len by (auto simp: nth_list_update dest!: set_update_subset_insert[THEN subsetD])
  next
    case False
    then have "?rs[ix y := f y (?rs ! ix y)] = ?rs" using len by (intro list_update_beyond) linarith
    then show ?thesis using snoc False by auto
  qed
qed (use assms(1) in simp)

lemma applyWriteGroupResult_settled:
  assumes "\<forall>r \<in> set rs. consistent_result r"
  shows "(\<forall>r \<in> set (applyWriteGroupResult ops rs x). consistent_result r) \<and>
    (\<forall>op \<in> set ops. pw_index op < length rs \<longrightarrow> settled_result (applyWriteGroupResult ops rs x ! pw_index op))"
  unfolding applyWriteGroupResult_def using assms apply1_settled settled_consistent by (rule fold_update_all)

lemma fold_update_keep:
  "(\<And>x r. P r \<Longrightarrow> P (f x r)) \<Longrightarrow> P (rs ! i) \<Longrightarrow> P (fold (\<lambda>x rs. rs[ix x := f x (rs ! ix x)]) xs rs ! i)"
proof (induction xs arbitrary: rs)
  case (Cons x xs)
  have "P (rs[ix x := f x (rs ! ix x)] ! i)"
    using Cons.prems by (cases "ix x < length rs"; cases "ix x = i") (auto simp: not_less list_update_beyond)
  then show ?case using Cons by simp
qed simp

lemma attach1_settled: "settled_result (attach1 d op r) = settled_result r" "consistent_result (attach1 d op r) = consistent_result r"
  by (simp_all add: attach1_def settled_result_def consistent_result_def)

lemma attach_settled:
  "(\<forall>r \<in> set rs. consistent_result r) \<Longrightarrow> (\<forall>r \<in> set (attachWriteDocument ops rs d). consistent_result r) \<and>
   length (attachWriteDocument ops rs d) = length rs \<and>
   (\<forall>i. settled_result (rs ! i) \<longrightarrow> settled_result (attachWriteDocument ops rs d ! i))"
  unfolding attachWriteDocument_fold
  using fold_update_all[where Q = consistent_result and R = consistent_result and f = "attach1 d" and ix = pw_index]
    fold_update_keep[where P = settled_result and f = "attach1 d" and ix = pw_index]
  by (simp add: attach1_settled fold_update_length[where f = "attach1 d"])

lemma answer_group:
  assumes "state_ok n st" "within n g" "length rs = n" "\<forall>r \<in> set rs. consistent_result r"
    and "\<forall>op \<in> set (wg_operations g). settled_result (rs ! pw_index op)"
  shows "steps n st (write_complete env g (st\<lparr>ws_results := rs\<rparr>)) \<and>
    (\<forall>op \<in> set (wg_operations g). is_done (write_complete env g (st\<lparr>ws_results := rs\<rparr>)) op)"
proof -
  have q: "steps n st (st\<lparr>ws_results := rs\<rparr>)"
    using assms(1,3,4) by (intro steps_quiet) (auto simp: state_ok_def)
  then have "state_ok n (st\<lparr>ws_results := rs\<rparr>)" by (rule steps_ok)
  then show ?thesis using write_complete_steps[of n "st\<lparr>ws_results := rs\<rparr>" g env] steps_trans[OF q] assms(2,5) by simp
qed

lemma fail_group_steps:
  assumes "state_ok n st" "within n g"
  shows "steps n st (fail_group env e g st) \<and> (\<forall>op \<in> set (wg_operations g). is_done (fail_group env e g st) op)"
  unfolding fail_group_def
  using assms applyWriteGroupResult_settled[of "ws_results st" "wg_operations g"]
  by (intro answer_group) (auto simp: state_ok_def within_def)

lemma finish_group_steps:
  assumes "state_ok n st" "within n g"
  shows "steps n st (finish_group env g operation x st) \<and> (\<forall>op \<in> set (wg_operations g). is_done (finish_group env g operation x st) op)"
proof -
  let ?rs = "applyWriteGroupResult (wg_operations g) (ws_results st) x"
  note a = applyWriteGroupResult_settled[of "ws_results st" "wg_operations g" x]
  have "\<forall>r \<in> set ?rs. consistent_result r" using a assms(1) by (simp add: state_ok_def)
  from attach_settled[OF this] show ?thesis
    unfolding finish_group_def using assms a by (intro answer_group) (auto simp: state_ok_def within_def)
qed

lemma overwrite_group_steps:
  assumes "state_ok n st" "within n g" "\<And>r. settled_result (f r)"
    and h: "h = (\<lambda>op rs. rs[pw_index op := f (rs ! pw_index op)])"
  shows "steps n st (write_complete env g (st\<lparr>ws_results := fold h (wg_operations g) (ws_results st)\<rparr>)) \<and>
    (\<forall>op \<in> set (wg_operations g). is_done (write_complete env g (st\<lparr>ws_results := fold h (wg_operations g) (ws_results st)\<rparr>)) op)"
proof -
  let ?rs = "fold h (wg_operations g) (ws_results st)"
  have "(\<forall>r \<in> set ?rs. consistent_result r) \<and>
    (\<forall>op \<in> set (wg_operations g). pw_index op < length (ws_results st) \<longrightarrow> settled_result (?rs ! pw_index op))"
    unfolding h using assms(1,3) settled_consistent by (intro fold_update_all[where f = "\<lambda>_. f"]) (auto simp: state_ok_def)
  moreover have "length ?rs = length (ws_results st)"
    unfolding h by (rule fold_update_length[where f = "\<lambda>_. f"])
  ultimately show ?thesis using assms(1,2) by (intro answer_group) (auto simp: state_ok_def within_def)
qed

lemma exhaust_group_steps:
  assumes "state_ok n st" "within n g"
  shows "steps n st (exhaust_group env g st) \<and> (\<forall>op \<in> set (wg_operations g). is_done (exhaust_group env g st) op)"
  unfolding exhaust_group_def using assms
  by (rule overwrite_group_steps[where f = "\<lambda>r. r\<lparr>wres_status := WS_PRECONDITION_FAILED,
        wres_failure := Some (newFailure FC_CONFLICT (Some conflict_error) True)\<rparr>"])
    (auto simp: settled_result_def exhaust_operation_def fun_eq_iff)

lemma refuse_group_steps:
  assumes "state_ok n st" "within n g"
  shows "steps n st (write_complete env g (st\<lparr>ws_results := fold (fail_operation e) (wg_operations g) (ws_results st)\<rparr>)) \<and>
    (\<forall>op \<in> set (wg_operations g). is_done (write_complete env g (st\<lparr>ws_results := fold (fail_operation e) (wg_operations g) (ws_results st)\<rparr>)) op)"
  using assms
  by (rule overwrite_group_steps[where f = "\<lambda>r. setWriteFailure r FC_RESOURCE_EXHAUSTED (Some e) True"])
    (auto simp: settled_result_def fail_operation_def setWriteFailure_def fun_eq_iff)

lemma fold_steps:
  assumes "\<And>x st. x \<in> set xs \<Longrightarrow> state_ok n st \<Longrightarrow> steps n st (f x st) \<and> (\<forall>op \<in> set (wg_operations (grp x)). is_done (f x st) op)"
  shows "state_ok n st \<Longrightarrow> steps n st (fold f xs st) \<and> (\<forall>x \<in> set xs. \<forall>op \<in> set (wg_operations (grp x)). is_done (fold f xs st) op)"
  using assms
proof (induction xs arbitrary: st)
  case (Cons x xs)
  have x: "steps n st (f x st)" "\<forall>op \<in> set (wg_operations (grp x)). is_done (f x st) op" using Cons.prems by auto
  have "steps n (f x st) (fold f xs (f x st)) \<and> (\<forall>x' \<in> set xs. \<forall>op \<in> set (wg_operations (grp x')). is_done (fold f xs (f x st)) op)"
    using Cons.prems by (intro Cons.IH steps_ok[OF x(1)]) simp_all
  then show ?case using x by (auto intro: steps_trans steps_done)
qed (simp add: steps_refl)


text \<open>Folding a group: an operation that is not prepared has its failure.\<close>

lemma setWriteFailure_settled: "settled_result (setWriteFailure r code e b)"
  by (simp add: setWriteFailure_def settled_result_def)

lemma prepareFoldedPut_settled:
  "fst (prepareFoldedPut op put cur r) = None \<Longrightarrow> settled_result (snd (prepareFoldedPut op put cur r))"
  "consistent_result r \<Longrightarrow> consistent_result (snd (prepareFoldedPut op put cur r))"
  by (auto simp: prepareFoldedPut_def Let_def case_prod_beta setWriteFailure_settled applyWriteResult_settled settled_consistent
      simp del: not_None_eq split: if_splits)

lemma prepareMergeOperation_settled:
  "fst (prepareMergeOperation lua op cur r) = None \<Longrightarrow> settled_result (snd (prepareMergeOperation lua op cur r))"
  "consistent_result r \<Longrightarrow> consistent_result (snd (prepareMergeOperation lua op cur r))"
  by (auto simp: prepareMergeOperation_def Let_def case_prod_beta setWriteFailure_settled settled_consistent
      split: readStatus.splits sum.splits if_splits)

lemma prepare_operation_settled:
  "fst (prepare_operation lua op cur r) = None \<Longrightarrow> settled_result (snd (prepare_operation lua op cur r))"
  "consistent_result r \<Longrightarrow> consistent_result (snd (prepare_operation lua op cur r))"
  using prepareFoldedPut_settled prepareMergeOperation_settled
  by (simp_all add: prepare_operation_def split: option.splits)

lemma clear_consistent: "consistent_result (clear_result r)"
  by (simp add: clear_result_def consistent_result_def)

text \<open>\<open>covers ops rs rs'\<close>: every operation of \<open>ops\<close> has a status in \<open>rs'\<close>, and none is lost.\<close>

definition covers :: "parsedWrite list \<Rightarrow> WriteResult list \<Rightarrow> WriteResult list \<Rightarrow> bool" where
  "covers ops rs rs' \<longleftrightarrow> (\<forall>i < length rs. settled_result (rs ! i) \<or> i \<in> pw_index ` set ops \<longrightarrow> settled_result (rs' ! i))"

definition consistent_results :: "WriteResult list \<Rightarrow> WriteResult list \<Rightarrow> bool" where
  "consistent_results rs rs' \<longleftrightarrow> ((\<forall>r \<in> set rs. consistent_result r) \<longrightarrow> (\<forall>r \<in> set rs'. consistent_result r)) \<and> length rs' = length rs"

lemma consistent_results_trans: "consistent_results a b \<Longrightarrow> consistent_results b c \<Longrightarrow> consistent_results a c"
  by (simp add: consistent_results_def)

lemma covers_trans: "covers xs a b \<Longrightarrow> covers ys b c \<Longrightarrow> length b = length a \<Longrightarrow> covers (xs @ ys) a c"
  by (auto simp: covers_def)

lemma covers_update: "settled_result r \<Longrightarrow> covers [op] rs (rs[pw_index op := r])"
  by (cases "pw_index op < length rs") (auto simp: covers_def nth_list_update)

lemma consistent_update: "consistent_result r \<Longrightarrow> consistent_results rs (rs[i := r])"
  by (auto simp: consistent_results_def dest!: set_update_subset_insert[THEN subsetD])

lemma prepare_loop_covers:
  "prepare_loop lua ops cur cand rs = (cand', rs') \<Longrightarrow>
   consistent_results rs rs' \<and> (cand' = None \<longrightarrow> cand = None \<and> covers ops rs rs')"
proof (induction ops arbitrary: cur cand rs)
  case (Cons op ops)
  let ?p = "prepare_operation lua op cur (clear_result (rs ! pw_index op))"
  have u: "consistent_results rs (rs[pw_index op := snd ?p])"
    by (intro consistent_update prepare_operation_settled(2) clear_consistent)
  show ?case
  proof (cases "fst ?p")
    case None
    then have run: "prepare_loop lua ops cur cand (rs[pw_index op := snd ?p]) = (cand', rs')"
      using Cons.prems by (simp add: Let_def case_prod_beta)
    have "covers [op] rs (rs[pw_index op := snd ?p])" by (intro covers_update prepare_operation_settled(1) None)
    then have "covers ops (rs[pw_index op := snd ?p]) rs' \<Longrightarrow> covers (op # ops) rs rs'" using covers_trans[of "[op]"] by simp
    then show ?thesis using Cons.IH[OF run] consistent_results_trans[OF u] by blast
  next
    case (Some m)
    then have run: "prepare_loop lua ops (found_document cur (so_document m)) (Some (extend_candidate cand m)) (rs[pw_index op := snd ?p]) = (cand', rs')"
      using Cons.prems by (simp add: Let_def case_prod_beta)
    then show ?thesis using Cons.IH[OF run] u consistent_results_trans by blast
  qed
qed (auto simp: consistent_results_def covers_def)

lemma refuse_covers:
  assumes "\<forall>r \<in> set rs. consistent_result r"
  shows "consistent_results rs (applyWriteGroupResult ops rs x) \<and> covers ops rs (applyWriteGroupResult ops rs x)"
proof -
  have "settled_result (applyWriteGroupResult ops rs x ! i)" if "i < length rs" "settled_result (rs ! i)" for i
    using applyWriteGroupResult_settled[OF assms, of ops x] applyWriteGroupResult_other[of i ops rs x] that
    by (cases "i \<in> pw_index ` set ops") auto
  then show ?thesis
    using applyWriteGroupResult_settled[OF assms, of ops x] by (auto simp: consistent_results_def covers_def)
qed


lemma prepare_loop_other:
  "prepare_loop lua ops cur cand rs = (cand', rs') \<Longrightarrow> i \<notin> pw_index ` set ops \<Longrightarrow> rs' ! i = rs ! i"
  by (induction ops arbitrary: cur cand rs) (auto simp: Let_def case_prod_beta split: option.splits)

text \<open>One part of \<open>prepareBatchedWriteGroup\<close>.\<close>

lemma prepare_part_step:
  assumes run: "prepare_parts lua out grow own inputs outputs (first # later) cur cand rs cs w = r"
    and ok: "\<forall>r \<in> set rs. consistent_result r"
  obtains cur1 cand1 rs1 cs1 w1 part rest where "first # later = part @ rest" "part \<noteq> []"
    "prepare_parts lua out grow own inputs outputs rest cur1 cand1 rs1 cs1 w1 = r"
    "consistent_results rs rs1" "cand1 = None \<longrightarrow> cand = None \<and> covers part rs rs1"
proof -
  let ?P = "\<lambda>op. own (pw_index op) = own (pw_index first)"
  let ?part = "takeWhile ?P (first # later)" and ?rest = "dropWhile ?P (first # later)"
  let ?refuse = "\<lambda>e rs. applyWriteGroupResult ?part rs (empty_writeResult\<lparr>sw_status := WriteStatusFailed, sw_err := Some e\<rparr>)"
  have split: "first # later = ?part @ ?rest" "?part \<noteq> []" by simp_all
  obtain e1 cs1 w1 where i: "(if rr_status cur = ReadStatusFound
      then Reserve out grow (inputs (own (pw_index first))) (int (length (sd_payload (rr_document cur)))) cs w
      else (None, cs, w)) = (e1, cs1, w1)" by (metis prod_cases3)
  obtain m rs1 where l: "prepare_loop lua ?part cur None rs = (m, rs1)" by fastforce
  have l': "consistent_results rs rs1" "m = None \<longrightarrow> covers ?part rs rs1" using prepare_loop_covers[OF l] by auto
  have ok1: "\<forall>r \<in> set rs1. consistent_result r" using l'(1) ok by (simp add: consistent_results_def)
  note run' = run[unfolded prepare_parts.simps[of lua out grow own inputs outputs "first # later"] list.case Let_def i prod.case]
  show thesis
  proof (cases e1)
    case (Some e)
    show thesis
      by (rule that[OF split, of cur cand "?refuse e rs" cs1 w1])
        (use run'[unfolded Some option.case] refuse_covers[OF ok, of ?part] in simp_all)
  next
    case e1: None
    note run1 = run'[unfolded e1 option.case l prod.case]
    show thesis
    proof (cases m)
      case None
      show thesis by (rule that[OF split, of cur cand rs1 cs1 w1]) (use run1[unfolded None option.case] l' None in simp_all)
    next
      case (Some x)
      obtain e2 cs2 w2 where o: "Reserve out grow (outputs (own (pw_index first))) (int (length (sd_payload (so_document x)))) cs1 w1 = (e2, cs2, w2)"
        by (metis prod_cases3)
      note run2 = run1[unfolded Some option.case o prod.case]
      show thesis
      proof (cases e2)
        case None
        show thesis
          by (rule that[OF split, of "found_document cur (so_document x)" "Some (extend_candidate cand x)" rs1 cs2 w2])
            (use run2[unfolded None option.case] l' in simp_all)
      next
        case (Some e)
        note c = refuse_covers[OF ok1, of ?part "empty_writeResult\<lparr>sw_status := WriteStatusFailed, sw_err := Some e\<rparr>"]
        have "covers ?part rs (?refuse e rs1)"
          using c l'(1) prepare_loop_other[OF l] unfolding covers_def consistent_results_def by metis
        then show thesis
          by (intro that[OF split, of cur cand "?refuse e rs1" cs2 w2])
            (use run2[unfolded Some option.case] c consistent_results_trans[OF l'(1)] in simp_all)
      qed
    qed
  qed
qed

lemma prepare_parts_covers:
  "prepare_parts lua out grow own inputs outputs ops cur cand rs cs w = (cand', rs', cs', w') \<Longrightarrow>
   \<forall>r \<in> set rs. consistent_result r \<Longrightarrow> consistent_results rs rs' \<and> (cand' = None \<longrightarrow> cand = None \<and> covers ops rs rs')"
proof (induction "length ops" arbitrary: ops cur cand rs cs w rule: less_induct)
  case less
  show ?case
  proof (cases ops)
    case Nil
    then show ?thesis using less.prems(1)
      by (simp add: prepare_parts.simps[of lua out grow own inputs outputs "[]"] consistent_results_def covers_def)
  next
    case (Cons first later)
    from less.prems(1)[unfolded Cons] less.prems(2) show ?thesis
    proof (cases rule: prepare_part_step)
      case (1 cur1 cand1 rs1 cs1 w1 part rest)
      have "length rest < length ops" using 1(1,2) Cons by (cases part) auto
      moreover have "\<forall>r \<in> set rs1. consistent_result r" using 1(4) less.prems(2) by (simp add: consistent_results_def)
      ultimately have ih: "consistent_results rs1 rs' \<and> (cand' = None \<longrightarrow> cand1 = None \<and> covers rest rs1 rs')"
        using less.hyps[OF _ 1(3)] by blast
      have "cand' = None \<Longrightarrow> covers ops rs rs'"
        using ih 1(5) covers_trans[of part rs rs1 rest rs'] 1(4) unfolding Cons 1(1) by (simp add: consistent_results_def)
      then show ?thesis using ih 1(4,5) consistent_results_trans by blast
    qed
  qed
qed

lemma prepare_candidate_steps:
  assumes "state_ok n st" "prepare_candidate env attempt g stored st = (c, st1)" "within n g"
  shows "steps n st st1" "c = None \<Longrightarrow> \<forall>op \<in> set (wg_operations g). settled_result (ws_results st1 ! pw_index op)"
proof -
  have ok: "\<forall>r \<in> set (ws_results st). consistent_result r" "length (ws_results st) = n" using assms(1) by (auto simp: state_ok_def)
  have "consistent_results (ws_results st) (ws_results st1) \<and> ws_completion st1 = ws_completion st \<and>
      (c = None \<longrightarrow> covers (wg_operations g) (ws_results st) (ws_results st1))"
  proof (cases "we_budgets env")
    case None
    then show ?thesis using assms(2)
      by (auto simp: prepare_candidate_def prepareWriteGroup_def split: prod.splits dest!: prepare_loop_covers)
  next
    case (Some b)
    then show ?thesis using assms(2)
      by (auto simp: prepare_candidate_def prepareBatchedWriteGroup_def split: prod.splits dest!: prepare_parts_covers[OF _ ok(1)])
  qed
  then show "steps n st st1" "c = None \<Longrightarrow> \<forall>op \<in> set (wg_operations g). settled_result (ws_results st1 ! pw_index op)"
    using steps_quiet[OF assms(1), of st1] ok assms(3) by (auto simp: consistent_results_def covers_def within_def)
qed


text \<open>Reserving the bytes of a candidate: a refusal answers the group.\<close>

lemma quiet_world: "state_ok n st \<Longrightarrow> steps n st (st\<lparr>ws_world := w\<rparr>)"
  "state_ok n st \<Longrightarrow> steps n st (st\<lparr>ws_cells := cs, ws_world := w\<rparr>)"
  "state_ok n st \<Longrightarrow> steps n st (st\<lparr>ws_returns := r, ws_world := w\<rparr>)"
  "state_ok n st \<Longrightarrow> steps n st (st\<lparr>ws_cells := cs\<rparr>)"
  by (auto intro!: steps_quiet simp: state_ok_def)

lemma steps_world: "steps n st st1 \<Longrightarrow> steps n st (st1\<lparr>ws_world := w\<rparr>)"
  by (rule steps_trans[OF _ quiet_world(1)[OF steps_ok]])

lemma contextError_steps: "state_ok n st \<Longrightarrow> contextError env st = (e, st1) \<Longrightarrow> steps n st st1"
  by (auto simp: contextError_def quiet_world split: prod.splits)

lemma capacity_Grow_steps: "state_ok n st \<Longrightarrow> capacity_Grow env k st = (e, st1) \<Longrightarrow> steps n st st1"
  by (auto simp: capacity_Grow_def quiet_world steps_refl split: prod.splits if_splits)

lemma managed_Shrink_steps: "state_ok n st \<Longrightarrow> steps n st (managed_Shrink env k st)"
  by (auto simp: managed_Shrink_def quiet_world steps_refl)

lemma reserve_output_steps: "state_ok n st \<Longrightarrow> reserve_output env attempt c st = (e, st1) \<Longrightarrow> steps n st st1"
  by (auto simp: reserve_output_def quiet_world steps_refl split: prod.splits if_splits)

lemma fail_after:
  assumes "steps n st st1" "within n g"
  shows "steps n st (fail_group env e g st1) \<and> (\<forall>op \<in> set (wg_operations g). is_done (fail_group env e g st1) op)"
  using fail_group_steps[OF steps_ok[OF assms(1)] assms(2)] steps_trans[OF assms(1)] by blast

lemma reserve_candidate_steps:
  assumes ok: "state_ok n st" and g: "within n g" and r: "reserve_candidate env attempt g candidate st = (b, st')"
  shows "steps n st st' \<and> (\<not> b \<longrightarrow> (\<forall>op \<in> set (wg_operations g). is_done st' op))"
proof -
  obtain e1 st1 where 1: "capacity_Grow env (3 * payload_bytes (so_document candidate)) st = (e1, st1)" by fastforce
  have s1: "steps n st st1" using capacity_Grow_steps[OF ok 1] .
  obtain e2 rt w where 2: "returns_reserve (we_output env) g (so_document candidate) (ws_returns st1) (ws_world st1) = (e2, rt, w)"
    by (metis prod_cases3)
  let ?st2 = "st1\<lparr>ws_returns := rt, ws_world := w\<rparr>"
  have s2: "steps n st ?st2" using steps_trans[OF s1 quiet_world(3)[OF steps_ok[OF s1]]] .
  obtain e3 st3 where 3: "reserve_output env attempt candidate ?st2 = (e3, st3)" by fastforce
  have s3: "steps n st st3" using steps_trans[OF s2 reserve_output_steps[OF steps_ok[OF s2] 3]] .
  have shrink: "steps n st (managed_Shrink env k x)" if "steps n st x" for k x
    using that managed_Shrink_steps steps_ok steps_trans by blast
  show ?thesis
    using r fail_after[OF s1 g] fail_after[OF shrink[OF s2] g] fail_after[OF shrink[OF s3] g] s3
    by (simp add: reserve_candidate_def 1 2 3 Let_def split: option.splits) blast+
qed

text \<open>Committing: every candidate is answered or handed back as a conflict.\<close>

definition answered_or :: "writeGroup list \<Rightarrow> writeGroup list \<Rightarrow> 'w write_state \<Rightarrow> bool" where
  "answered_or groups left st \<longleftrightarrow> (\<forall>g \<in> set groups. g \<in> set left \<or> (\<forall>op \<in> set (wg_operations g). is_done st op))"

lemma answered_or_later: "answered_or gs left st \<Longrightarrow> steps n st st' \<Longrightarrow> answered_or gs left st'"
  by (auto simp: answered_or_def dest: steps_done)

lemma answered_or_trans: "answered_or xs ys st \<Longrightarrow> answered_or zs left st \<Longrightarrow> set ys \<subseteq> set zs \<Longrightarrow> answered_or xs left st"
  unfolding answered_or_def by blast

lemma answered_or_mono:
  "answered_or xs left st \<Longrightarrow> answered_or ys left st \<Longrightarrow> set zs \<subseteq> set xs \<union> set ys \<Longrightarrow> answered_or zs left st"
  unfolding answered_or_def by blast

lemma commit_responses_steps:
  "commit_responses env candidates responses st = (left, st') \<Longrightarrow> length responses = length candidates \<Longrightarrow> state_ok n st \<Longrightarrow>
   \<forall>g \<in> fst ` set candidates. within n g \<Longrightarrow> steps n st st' \<and> answered_or (map fst candidates) left st'"
proof (induction env candidates responses st arbitrary: left rule: commit_responses.induct)
  case (1 env g operation candidates stored responses st)
  show ?case
  proof (cases "sw_status stored = WriteStatusPreconditionFailed")
    case True
    then obtain rest where r: "commit_responses env candidates responses st = (rest, st')" "left = g # rest"
      using 1(3) by (auto split: prod.splits)
    show ?thesis using 1(1)[OF True r(1)] 1(4-6) r(2) by (auto simp: answered_or_def)
  next
    case False
    let ?st = "finish_group env g operation stored st"
    have f: "steps n st ?st" "\<forall>op \<in> set (wg_operations g). is_done ?st op" using finish_group_steps[of n st g env operation stored] 1(5,6) by auto
    have r: "commit_responses env candidates responses ?st = (left, st')" using 1(3) False by simp
    have "steps n ?st st' \<and> answered_or (map fst candidates) left st'" using 1(2)[OF False r] 1(4,6) steps_ok[OF f(1)] by simp
    then show ?thesis using f steps_trans steps_done by (auto simp: answered_or_def) blast+
  qed
qed (auto simp: steps_refl answered_or_def)


lemma send_candidates_steps:
  assumes "state_ok n st" "\<forall>g \<in> fst ` set candidates. within n g" "send_candidates env candidates st = (Inr left, st')"
  shows "steps n st st' \<and> answered_or (map fst candidates) left st'"
proof -
  obtain responses w where w: "length responses = length candidates"
    "commit_responses env candidates responses (st\<lparr>ws_world := w\<rparr>) = (left, st')"
    using assms(3) by (auto simp: send_candidates_def map_prod_Inr split: prod.splits sum.splits if_splits)
  note q = quiet_world(1)[OF assms(1), of w]
  show ?thesis using commit_responses_steps[OF w(2,1) steps_ok[OF q] assms(2)] steps_trans[OF q] by blast
qed

lemma fail_candidates_steps:
  assumes "state_ok n st" "\<forall>g \<in> fst ` set candidates. within n g"
  shows "steps n st (fail_candidates env e candidates st) \<and> answered_or (map fst candidates) [] (fail_candidates env e candidates st)"
proof -
  let ?f = "\<lambda>x. fail_group env (ResourceExhaustedError e) (fst x)"
  have "steps n s (?f x s) \<and> (\<forall>op \<in> set (wg_operations (fst x)). is_done (?f x s) op)" if "x \<in> set candidates" "state_ok n s" for x s
    using fail_group_steps[OF that(2)] that(1) assms(2) by blast
  from fold_steps[where f = ?f and grp = fst and xs = candidates, OF this assms(1)] show ?thesis
    by (simp add: fail_candidates_def answered_or_def split_def)
qed

lemma commit_steps:
  assumes "state_ok n st" "\<forall>g \<in> fst ` set candidates. within n g" "commitWriteCandidates env candidates attempt st = (Inr left, st')"
  shows "steps n st st' \<and> answered_or (map fst candidates) left st'"
proof (cases "candidates = []")
  case True
  then show ?thesis using assms by (simp add: commitWriteCandidates_def steps_refl answered_or_def)
next
  case False
  obtain e st1 where c: "contextError env st = (e, st1)" by fastforce
  have s1: "steps n st st1" using contextError_steps[OF assms(1) c] .
  obtain e' w where r: "retain env (wa_snapshotBytes attempt) (candidate_bytes candidates + wa_pendingCandidateBytes attempt) (ws_world st1) = (e', w)"
    by fastforce
  have s2: "steps n st (st1\<lparr>ws_world := w\<rparr>)" using steps_trans[OF s1 quiet_world(1)[OF steps_ok[OF s1]]] .
  consider "send_candidates env candidates st1 = (Inr left, st')" | "send_candidates env candidates (st1\<lparr>ws_world := w\<rparr>) = (Inr left, st')"
    | x where "left = []" "st' = fail_candidates env x candidates (st1\<lparr>ws_world := w\<rparr>)"
    using assms(3) False by (auto simp: commitWriteCandidates_def c r split: option.splits if_splits)
  then show ?thesis
    using send_candidates_steps[OF steps_ok[OF s1] assms(2)] send_candidates_steps[OF steps_ok[OF s2] assms(2)]
      fail_candidates_steps[OF steps_ok[OF s2] assms(2)] steps_trans[OF s1] steps_trans[OF s2]
    by cases blast+
qed

lemma flush_steps:
  assumes "state_ok n st" "\<forall>g \<in> fst ` set candidates. within n g" "flush_candidates env attempt k candidates m st = (Inr (left, kept, k'), st')"
  shows "steps n st st' \<and> answered_or (map fst candidates) (left @ map fst kept) st'"
proof (cases "left = [] \<and> kept = candidates \<and> st' = st")
  case True
  then show ?thesis using assms(1) by (auto simp: steps_refl answered_or_def)
next
  case False
  then obtain st1 where c: "commitWriteCandidates env candidates (attempt\<lparr>wa_pendingCandidateBytes := k\<rparr>) st = (Inr left, st1)"
    and st': "kept = []" "st' = managed_Shrink env (3 * m) st1"
    using assms(3) by (auto simp: flush_candidates_def split: if_splits prod.splits sum.splits)
  note s = commit_steps[OF assms(1,2) c]
  then have sh: "steps n st1 st'" using managed_Shrink_steps steps_ok unfolding st'(2) by blast
  then show ?thesis using s steps_trans answered_or_later st'(1) by (metis append_Nil2 list.simps(8))
qed

definition all_within :: "nat \<Rightarrow> writeGroup list \<Rightarrow> bool" where
  "all_within n gs \<longleftrightarrow> (\<forall>g \<in> set gs. within n g)"

lemma apply_snapshots_steps:
  assumes "apply_snapshots env attempt gs outcome candidates m st = (Inr (outcome', candidates'), st')"
    and "state_ok n st" "all_within n (map fst gs)" "all_within n (map fst candidates)"
  shows "steps n st st' \<and> answered_or (map fst gs @ map fst candidates @ wo_conflicts outcome @ wo_deferred outcome)
    (map fst candidates' @ wo_conflicts outcome' @ wo_deferred outcome') st'"
  using assms
proof (induction gs arbitrary: outcome candidates m st)
  case Nil
  then show ?case by (auto simp: steps_refl answered_or_def)
next
  case (Cons x gs)
  obtain g stored where x: "x = (g, stored)" by (cases x)
  have w: "within n g" "all_within n (map fst gs)" using Cons.prems(3) x by (auto simp: all_within_def)
  from Cons.prems(1)[unfolded x] show ?case
  proof (cases rule: apply_snapshots_step)
    case deferred
    from Cons.IH[OF deferred(2) Cons.prems(2) w(2) Cons.prems(4)] show ?thesis by (auto simp: x answered_or_def)
  next
    case (failed st1)
    note p = prepare_candidate_steps[OF Cons.prems(2) failed(2) w(1)]
    note c = write_complete_steps[OF steps_ok[OF p(1)] w(1) p(2)[OF refl], of env]
    note ih = Cons.IH[OF failed(3) steps_ok[OF c(1)] w(2) Cons.prems(4)]
    have "\<forall>op \<in> set (wg_operations g). is_done st' op" using c(2) ih steps_done by blast
    then show ?thesis using ih steps_trans[OF steps_trans[OF p(1) c(1)]] by (auto simp: x answered_or_def)
  next
    case (refused candidate st1 st2)
    note p = prepare_candidate_steps(1)[OF Cons.prems(2) refused(2) w(1)]
    note c = reserve_candidate_steps[OF steps_ok[OF p(1)] w(1) refused(3)]
    note ih = Cons.IH[OF refused(4) steps_ok[OF conjunct1[OF c]] w(2) Cons.prems(4)]
    have "\<forall>op \<in> set (wg_operations g). is_done st' op" using c ih steps_done by blast
    then show ?thesis using ih steps_trans[OF steps_trans[OF p(1) conjunct1[OF c]]] by (auto simp: x answered_or_def)
  next
    case (aborted e st1)
    then show ?thesis by simp
  next
    case (kept candidate st1 st2 conflicts before k st3)
    note p = prepare_candidate_steps(1)[OF Cons.prems(2) kept(2) w(1)]
    note c = reserve_candidate_steps[OF steps_ok[OF p(1)] w(1) kept(3)]
    have wc: "\<forall>g \<in> fst ` set candidates. within n g" using Cons.prems(4) by (auto simp: all_within_def)
    note f = flush_steps[OF steps_ok[OF conjunct1[OF c]] wc kept(4)]
    have wb: "all_within n (map fst (before @ [(g, candidate)]))"
      unfolding all_within_def
    proof
      fix h assume "h \<in> set (map fst (before @ [(g, candidate)]))"
      then have "h = g \<or> h \<in> fst ` set before" by auto
      then show "within n h" using flush_groups[OF kept(4)] wc w(1) by blast
    qed
    note ih = Cons.IH[OF kept(5) steps_ok[OF conjunct1[OF f]] w(2) wb]
    have "answered_or (map fst candidates) (conflicts @ map fst before) st'" using answered_or_later f ih by blast
    from answered_or_trans[OF this conjunct2[OF ih]]
    have "answered_or (map fst candidates) (map fst candidates' @ wo_conflicts outcome' @ wo_deferred outcome') st'" by auto
    then have "answered_or (map fst (x # gs) @ map fst candidates @ wo_conflicts outcome @ wo_deferred outcome)
        (map fst candidates' @ wo_conflicts outcome' @ wo_deferred outcome') st'"
      by (rule answered_or_mono[OF conjunct2[OF ih]]) (simp add: x, blast)
    moreover have "steps n st st'"
      by (rule steps_trans[OF steps_trans[OF steps_trans[OF p(1) conjunct1[OF c]] conjunct1[OF f]] conjunct1[OF ih]])
    ultimately show ?thesis by (intro conjI)
  qed
qed


lemma apply_steps:
  assumes "applyWriteSnapshots env groups snapshots attempt st = (Inr outcome, st')" "length snapshots = length groups"
    and "state_ok n st" "all_within n groups"
  shows "steps n st st' \<and> answered_or groups (wo_conflicts outcome @ wo_deferred outcome) st'"
proof -
  obtain o1 c1 st1 conf where s: "apply_snapshots env attempt (zip groups snapshots) \<lparr>wo_conflicts = [], wo_deferred = []\<rparr> [] 0 st = (Inr (o1, c1), st1)"
    and c: "commitWriteCandidates env c1 (attempt\<lparr>wa_finalCommit := True\<rparr>) st1 = (Inr conf, st')"
    and o: "outcome = o1\<lparr>wo_conflicts := wo_conflicts o1 @ conf\<rparr>"
    using assms(1) by (auto simp: applyWriteSnapshots_def split: prod.splits sum.splits)
  have gs: "map fst (zip groups snapshots) = groups" using assms(2) by simp
  note a = apply_snapshots_steps[OF s assms(3), unfolded gs, OF assms(4)]
  have "fst ` set (zip groups snapshots) \<subseteq> set groups" by (auto dest: set_zip_leftD)
  moreover have "fst ` set c1 \<subseteq> fst ` set (zip groups snapshots)" using conjunct2[OF apply_snapshots_groups[OF s]] by simp
  ultimately have "fst ` set c1 \<subseteq> set groups" by (rule subset_trans[rotated])
  then have "\<forall>g \<in> fst ` set c1. within n g" using assms(4) by (auto simp: all_within_def)
  moreover have a': "steps n st st1" "answered_or groups (map fst c1 @ wo_conflicts o1 @ wo_deferred o1) st1"
    using a by (simp_all add: all_within_def)
  ultimately have k: "steps n st1 st' \<and> answered_or (map fst c1) conf st'" using commit_steps[OF steps_ok _ c] by blast
  have "answered_or (map fst c1 @ wo_conflicts o1 @ wo_deferred o1) (wo_conflicts outcome @ wo_deferred outcome) st'"
    using k unfolding o answered_or_def by auto
  then have "answered_or groups (wo_conflicts outcome @ wo_deferred outcome) st'"
    using answered_or_trans[OF answered_or_later[OF a'(2)]] k by blast
  then show ?thesis using steps_trans[OF a'(1)] k by blast
qed

lemma fail_pending_steps:
  assumes "state_ok n st" "all_within n gs"
  shows "steps n st (fail_pending env e gs st) \<and> answered_or gs [] (fail_pending env e gs st)"
proof -
  let ?f = "\<lambda>g st. write_complete env g (st\<lparr>ws_results := fold (fail_operation e) (wg_operations g) (ws_results st)\<rparr>)"
  have "steps n s (?f g s) \<and> (\<forall>op \<in> set (wg_operations g). is_done (?f g s) op)" if "g \<in> set gs" "state_ok n s" for g s
    using refuse_group_steps[OF that(2)] that(1) assms(2) by (simp add: all_within_def)
  from fold_steps[where f = ?f and grp = "\<lambda>g. g" and xs = gs, OF this assms(1)] show ?thesis
    by (simp add: fail_pending_def answered_or_def)
qed

lemma exhaust_steps:
  assumes "state_ok n st" "all_within n gs"
  shows "steps n st (fold (exhaust_group env) gs st) \<and> answered_or gs [] (fold (exhaust_group env) gs st)"
proof -
  have "steps n s (exhaust_group env g s) \<and> (\<forall>op \<in> set (wg_operations g). is_done (exhaust_group env g s) op)"
    if "g \<in> set gs" "state_ok n s" for g s
    using exhaust_group_steps[OF that(2)] that(1) assms(2) by (simp add: all_within_def)
  from fold_steps[where f = "exhaust_group env" and grp = "\<lambda>g. g" and xs = gs, OF this assms(1)] show ?thesis
    by (simp add: answered_or_def)
qed

lemma readWriteSnapshots_steps:
  assumes "state_ok n st" "readWriteSnapshots env groups attempt st = (Inr snapshots, st')"
  shows "steps n st st' \<and> length snapshots = length groups"
  using assms quiet_world(2)[OF assms(1)]
  by (auto simp: readWriteSnapshots_def Let_def split: prod.splits sum.splits if_splits)

text \<open>What a pass leaves open, an induction over the loop's approximations closes.\<close>

lemma attempt_pass_steps:
  assumes "attempt_pass env attempt pending limit conflicts st = Inr (pending', limit', conflicts', st')"
    and "state_ok n st" "all_within n (pending @ conflicts)"
  shows "steps n st st' \<and> set (pending' @ conflicts') \<subseteq> set (pending @ conflicts) \<and>
    answered_or (pending @ conflicts) (pending' @ conflicts') st'"
  using assms(1)
proof (cases rule: attempt_pass_step)
  case (chunk st1 w snapshots st2 bytes outcome st3 limit'')
  let ?n = "min limit (length pending)"
  let ?batch = "take ?n pending" and ?rest = "drop ?n pending"
  have out: "pending' = wo_deferred outcome @ ?rest" "conflicts' = conflicts @ wo_conflicts outcome" "st' = st3"
    using chunk(5) by simp_all
  have s1: "steps n st (st1\<lparr>ws_world := w\<rparr>)"
    by (rule steps_world[OF contextError_steps[OF assms(2) chunk(1)]])
  note rd = readWriteSnapshots_steps[OF steps_ok[OF s1] chunk(2)]
  have s: "steps n st st2" and len: "length snapshots = length ?batch" using steps_trans[OF s1 conjunct1[OF rd]] rd by simp_all
  have wb: "all_within n ?batch" using assms(3) by (auto simp: all_within_def dest: in_set_takeD)
  note a = apply_steps[OF chunk(3) len steps_ok[OF s] wb]
  have sub: "set (wo_deferred outcome) \<union> set (wo_conflicts outcome) \<subseteq> set ?batch"
    using apply_groups[OF chunk(3) len] by (auto dest: set_zip_leftD)
  have all: "set pending = set ?batch \<union> set ?rest" by (metis append_take_drop_id set_append)
  have within: "set (pending' @ conflicts') \<subseteq> set (pending @ conflicts)" unfolding out using sub all by auto
  have "answered_or (pending @ conflicts) (pending' @ conflicts') st'"
    unfolding answered_or_def
  proof
    fix g assume "g \<in> set (pending @ conflicts)"
    then consider "g \<in> set ?batch" | "g \<in> set (pending' @ conflicts')" using all by (auto simp: out)
    then show "g \<in> set (pending' @ conflicts') \<or> (\<forall>op \<in> set (wg_operations g). is_done st' op)"
      using conjunct2[OF a] by cases (auto simp: answered_or_def out)
  qed
  then show ?thesis using steps_trans[OF s conjunct1[OF a]] within out(3) by simp
qed simp_all

definition loop_answers :: "nat \<Rightarrow> writeGroup list \<Rightarrow> writeGroup list \<Rightarrow> 'w write_state \<Rightarrow> (abort + writeGroup list) \<times> 'w write_state \<Rightarrow> bool" where
  "loop_answers n pending conflicts st out \<longleftrightarrow>
     (\<forall>left st'. out = (Inr left, st') \<longrightarrow> state_ok n st \<longrightarrow> all_within n (pending @ conflicts) \<longrightarrow>
        steps n st st' \<and> answered_or (pending @ conflicts) left st' \<and> set left \<subseteq> set (pending @ conflicts))"

lemma attempt_pass_over:
  assumes "attempt_pass env attempt pending limit conflicts st = Inl out"
  shows "loop_answers n pending conflicts st out"
  using assms
proof (cases rule: attempt_pass_step)
  case (refused e w st1)
  show ?thesis unfolding loop_answers_def
  proof (intro allI impI)
    fix left st' assume out: "out = (Inr left, st')" and ok: "state_ok n st" and inside: "all_within n (pending @ conflicts)"
    have pend: "all_within n pending" using inside by (simp add: all_within_def)
    have s: "steps n st (st1\<lparr>ws_world := w\<rparr>)" by (rule steps_world[OF contextError_steps[OF ok refused(1)]])
    have left: "left = conflicts" "st' = fail_pending env e pending (st1\<lparr>ws_world := w\<rparr>)" using refused(2) out by simp_all
    then have "steps n st st' \<and> answered_or pending [] st'"
      using fail_pending_steps[OF steps_ok[OF s] pend, of env e] steps_trans[OF s] by simp
    then show "steps n st st' \<and> answered_or (pending @ conflicts) left st' \<and> set left \<subseteq> set (pending @ conflicts)"
      using left(1) by (auto simp: answered_or_def)
  qed
qed (simp_all add: loop_answers_def)

lemma attempt_pass_next:
  assumes "attempt_pass env attempt pending limit conflicts st = Inr (pending', limit', conflicts', st1)"
    and "loop_answers n pending' conflicts' st1 out"
  shows "loop_answers n pending conflicts st out"
  unfolding loop_answers_def
proof (intro allI impI)
  fix left st' assume out: "out = (Inr left, st')" and ok: "state_ok n st" and inside: "all_within n (pending @ conflicts)"
  note pass = attempt_pass_steps[OF assms(1) ok inside]
  have "all_within n (pending' @ conflicts')" using pass inside unfolding all_within_def by blast
  then have rest: "steps n st1 st'" "answered_or (pending' @ conflicts') left st'" "set left \<subseteq> set (pending' @ conflicts')"
    using assms(2) out steps_ok[OF conjunct1[OF pass]] by (simp_all add: loop_answers_def)
  have "answered_or (pending @ conflicts) left st'"
    by (rule answered_or_trans[OF answered_or_later[OF conjunct2[OF conjunct2[OF pass]] rest(1)] rest(2)]) simp
  then show "steps n st st' \<and> answered_or (pending @ conflicts) left st' \<and> set left \<subseteq> set (pending @ conflicts)"
    using steps_trans[OF conjunct1[OF pass] rest(1)] rest(3) pass by blast
qed

lemma attempt_loop_answers:
  assumes "attempt_loop env attempt pending limit conflicts st = Some out"
  shows "loop_answers n pending conflicts st out"
proof (rule attempt_loop.raw_induct[where P = "\<lambda>env attempt pending limit conflicts st out. loop_answers n pending conflicts st out", OF _ assms])
  fix loop env attempt pending limit conflicts st out
  assume ih: "\<And>env attempt pending limit conflicts st out. loop env attempt pending limit conflicts st = Some out \<Longrightarrow> loop_answers n pending conflicts st out"
    and body: "(if pending = [] then Some (Inr conflicts, st)
      else case attempt_pass env attempt pending limit conflicts st of Inl outcome \<Rightarrow> Some outcome
        | Inr (pending', limit', conflicts', st') \<Rightarrow> loop env attempt pending' limit' conflicts' st') = Some out"
  show "loop_answers n pending conflicts st out"
  proof (cases "pending = []")
    case True
    then show ?thesis using body by (auto simp: loop_answers_def steps_refl answered_or_def)
  next
    case False
    show ?thesis
    proof (cases "attempt_pass env attempt pending limit conflicts st")
      case (Inl over)
      then show ?thesis using attempt_pass_over[OF Inl] body False by simp
    next
      case (Inr again)
      obtain pending' limit' conflicts' st' where again: "again = (pending', limit', conflicts', st')" by (cases again)
      then have "loop env attempt pending' limit' conflicts' st' = Some out" using body False Inr by simp
      then show ?thesis using attempt_pass_next[OF Inr[unfolded again]] ih by blast
    qed
  qed
qed

lemma attempt_loop_steps:
  assumes "attempt_loop env attempt pending limit conflicts st = Some (Inr left, st')" "state_ok n st"
    and "all_within n (pending @ conflicts)"
  shows "steps n st st' \<and> answered_or (pending @ conflicts) left st' \<and> set left \<subseteq> set (pending @ conflicts)"
  using attempt_loop_answers[OF assms(1)] assms(2,3) by (simp add: loop_answers_def)

lemma conditional_steps:
  "conditional_attempts env k groups st = Some (None, st') \<Longrightarrow> state_ok n st \<Longrightarrow> all_within n groups \<Longrightarrow>
   steps n st st' \<and> answered_or groups [] st'"
proof (induction k arbitrary: groups st)
  case 0
  then show ?case using exhaust_steps[of n st groups env] by simp
next
  case (Suc k)
  show ?case
  proof (cases "groups = []")
    case True
    then show ?thesis using Suc.prems by (simp add: steps_refl answered_or_def)
  next
    case False
    obtain st1 left st2 where c: "contextError env st = (None, st1)" and a: "executeWriteAttempt env groups st1 = Some (Inr left, st2)"
      and r: "conditional_attempts env k left st2 = Some (None, st')"
      using Suc.prems(1) False by (auto split: prod.splits option.splits sum.splits)
    have s1: "steps n st st1" using contextError_steps[OF Suc.prems(2) c] .
    obtain attempt st1' where n: "newWriteAttempt env st1 = (attempt, st1')" by fastforce
    have s2: "steps n st st1'" using n quiet_world(4)[OF steps_ok[OF s1]] steps_trans[OF s1]
      by (auto simp: newWriteAttempt_def Let_def split: prod.splits)
    have "attempt_loop env attempt groups (length groups) [] st1' = Some (Inr left, st2)"
      using a n by (simp add: executeWriteAttempt_def)
    from attempt_loop_steps[OF this steps_ok[OF s2]] Suc.prems(3)
    have l: "steps n st1' st2" "answered_or groups left st2" "set left \<subseteq> set groups" by simp_all
    then have "all_within n left" using Suc.prems(3) by (auto simp: all_within_def)
    from Suc.IH[OF r steps_ok[OF l(1)] this] have f: "steps n st2 st'" "answered_or left [] st'" by auto
    then have "answered_or groups [] st'" using answered_or_trans[OF answered_or_later[OF l(2) f(1)]] by blast
    then show ?thesis using steps_trans[OF steps_trans[OF s2 l(1)] f(1)] by (intro conjI)
  qed
qed

lemma puts_reserve_steps:
  "puts_reserve env groups st = (applied, st') \<Longrightarrow> state_ok n st \<Longrightarrow> all_within n groups \<Longrightarrow>
   steps n st st' \<and> answered_or groups (map fst applied) st' \<and> fst ` set applied \<subseteq> set groups"
proof (induction groups arbitrary: st applied)
  case Nil
  then show ?case by (simp add: steps_refl answered_or_def)
next
  case (Cons g groups)
  let ?op = "last (wg_operations g)"
  obtain e r w where o: "returns_reserve (we_output env) g (pp_document (the (pw_put ?op))) (ws_returns st) (ws_world st) = (e, r, w)"
    by (metis prod_cases3)
  let ?st1 = "st\<lparr>ws_returns := r, ws_world := w\<rparr>"
  have w: "within n g" "all_within n groups" using Cons.prems(3) by (auto simp: all_within_def)
  have s1: "steps n st ?st1" using quiet_world(3)[OF Cons.prems(2)] .
  show ?case
  proof (cases e)
    case (Some e')
    note f = fail_after[OF s1 w(1), of env e']
    have "puts_reserve env groups (fail_group env e' g ?st1) = (applied, st')" using Cons.prems(1) o Some by (simp add: Let_def)
    note ih = Cons.IH[OF this steps_ok[OF conjunct1[OF f]] w(2)]
    have "\<forall>op \<in> set (wg_operations g). is_done st' op" using f ih steps_done by blast
    then show ?thesis using ih steps_trans[OF conjunct1[OF f]] by (auto simp: answered_or_def)
  next
    case None
    then obtain rest op where r: "puts_reserve env groups ?st1 = (rest, st')" "applied = (g, op) # rest"
      using Cons.prems(1) o by (auto simp: Let_def split: prod.splits)
    note ih = Cons.IH[OF r(1) steps_ok[OF s1] w(2)]
    then show ?thesis using steps_trans[OF s1] r(2) by (auto simp: answered_or_def)
  qed
qed

lemma apply_responses_steps:
  assumes "state_ok n st" "\<forall>g \<in> fst ` set applied. within n g" "length stored = length applied"
  shows "steps n st (apply_responses env applied stored st) \<and> answered_or (map fst applied) [] (apply_responses env applied stored st)"
proof -
  let ?f = "\<lambda>x. finish_group env (fst (fst x)) (snd (fst x)) (snd x)" and ?xs = "zip applied stored"
  have "steps n s (?f x s) \<and> (\<forall>op \<in> set (wg_operations (fst (fst x))). is_done (?f x s) op)" if "x \<in> set ?xs" "state_ok n s" for x s
  proof -
    have "fst x \<in> set applied" using that(1) set_zip_leftD[of "fst x" "snd x"] by simp
    then show ?thesis using finish_group_steps[OF that(2)] assms(2) by simp
  qed
  note all = fold_steps[where f = ?f and grp = "\<lambda>x. fst (fst x)" and xs = ?xs, OF this assms(1)]
  have "\<exists>x \<in> set ?xs. fst x = a" if "a \<in> set applied" for a
    using that assms(3) by (metis in_set_impl_in_set_zip1 fst_conv)
  then show ?thesis using all by (fastforce simp: apply_responses_def answered_or_def split_def)
qed

lemma executePuts_steps:
  assumes "executePuts env groups st = (None, st')" "state_ok n st" "all_within n groups"
  shows "steps n st st' \<and> answered_or groups [] st'"
proof (cases "groups = []")
  case True
  then show ?thesis using assms by (simp add: executePuts_def steps_refl answered_or_def)
next
  case False
  obtain applied st1 where p: "puts_reserve env groups st = (applied, st1)" by fastforce
  note r = puts_reserve_steps[OF p assms(2,3)]
  show ?thesis
  proof (cases "applied = []")
    case True
    then show ?thesis using assms(1) False p r by (simp add: executePuts_def)
  next
    case applied: False
    obtain stored w where w: "length stored = length applied" "st' = apply_responses env applied stored (st1\<lparr>ws_world := w\<rparr>)"
      using assms(1) False p applied by (auto simp: executePuts_def split: prod.splits sum.splits if_splits)
    have s: "steps n st (st1\<lparr>ws_world := w\<rparr>)" by (rule steps_world[OF conjunct1[OF r]])
    have "\<forall>g \<in> fst ` set applied. within n g" using r assms(3) by (auto simp: all_within_def)
    from apply_responses_steps[OF steps_ok[OF s] this w(1), of env]
    have a: "steps n (st1\<lparr>ws_world := w\<rparr>) st'" "answered_or (map fst applied) [] st'" unfolding w(2) by auto
    have "steps n st1 st'" by (rule steps_trans[OF quiet_world(1)[OF steps_ok[OF conjunct1[OF r]]] a(1)])
    then have "answered_or groups (map fst applied) st'" using answered_or_later r by blast
    then have "answered_or groups [] st'" by (rule answered_or_trans[OF _ a(2) subset_refl])
    then show ?thesis using steps_trans[OF s a(1)] by (intro conjI)
  qed
qed


lemma wave_steps:
  assumes "executeWriteWave env groups st = Some (None, st')" "state_ok n st" "all_within n groups"
  shows "steps n st st' \<and> answered_or groups [] st'"
proof -
  let ?puts = "filter directPut groups" and ?cond = "filter (\<lambda>g. \<not> directPut g) groups"
  have w: "all_within n ?puts" "all_within n ?cond" using assms(3) by (auto simp: all_within_def)
  obtain st1 where p: "executePuts env ?puts st = (None, st1)" and c: "conditional_attempts env (we_maxMergeAttempts env) ?cond st1 = Some (None, st')"
    using assms(1) by (auto simp: executeWriteWave_def executeConditionalWrites_def split: prod.splits option.splits)
  note a = executePuts_steps[OF p assms(2) w(1)]
  note b = conditional_steps[OF c steps_ok[OF conjunct1[OF a]] w(2)]
  have "answered_or ?puts [] st'" using answered_or_later a b by blast
  from answered_or_mono[OF this conjunct2[OF b], of groups] have "answered_or groups [] st'" by auto
  then show ?thesis using steps_trans[OF conjunct1[OF a] conjunct1[OF b]] by (intro conjI)
qed

lemma wave_parts: "splits g \<Longrightarrow> set (wg_operations g) = set (wg_operations (wave_head g)) \<union> set (wg_operations (wave_rest g))"
  "\<not> splits g \<Longrightarrow> wave_head g = g"
  by (cases "wg_operations g"; auto simp: wave_head_def wave_rest_def splits_def Let_def)+

lemma within_wave: "within n g \<Longrightarrow> within n (wave_head g)" "within n g \<Longrightarrow> within n (wave_rest g)"
  unfolding within_def using wave_head_ops wave_rest_ops by blast+

lemma waves_steps:
  "executeWriteGroups env groups st = Some (None, st') \<Longrightarrow> state_ok n st \<Longrightarrow> all_within n groups \<Longrightarrow>
   steps n st st' \<and> answered_or groups [] st'"
proof (induction "pending_operations groups" arbitrary: groups st rule: less_induct)
  case (less groups)
  show ?case
  proof (cases "groups = []")
    case True
    then show ?thesis using less.prems unfolding executeWriteGroups.simps[of env groups st] by (simp add: steps_refl answered_or_def)
  next
    case False
    let ?heads = "map wave_head groups" and ?rests = "map wave_rest (filter splits groups)"
    obtain st1 where w: "executeWriteWave env ?heads st = Some (None, st1)" and r: "executeWriteGroups env ?rests st1 = Some (None, st')"
      using less.prems(1) False unfolding executeWriteGroups.simps[of env groups st] by (auto split: option.splits prod.splits)
    have "all_within n ?heads" "all_within n ?rests"
      using less.prems(3) within_wave unfolding all_within_def by simp_all
    note a = wave_steps[OF w less.prems(2) this(1)]
    note b = less.hyps[OF wave_pending[OF False] r steps_ok[OF conjunct1[OF a]] \<open>all_within n ?rests\<close>]
    have h: "answered_or ?heads [] st'" using answered_or_later a b by blast
    have "answered_or groups [] st'"
      unfolding answered_or_def
    proof
      fix g assume g: "g \<in> set groups"
      then have "\<forall>op \<in> set (wg_operations (wave_head g)). is_done st' op" using h by (auto simp: answered_or_def)
      moreover have "\<forall>op \<in> set (wg_operations (wave_rest g)). is_done st' op" if "splits g"
        using b g that by (auto simp: answered_or_def)
      ultimately have "\<forall>op \<in> set (wg_operations g). is_done st' op"
        using wave_parts[of g] by (cases "splits g") (metis Un_iff, metis)
      then show "g \<in> set [] \<or> (\<forall>op \<in> set (wg_operations g). is_done st' op)" ..
    qed
    then show ?thesis using steps_trans[OF conjunct1[OF a] conjunct1[OF b]] by (intro conjI)
  qed
qed

section \<open>What a batch of writes promises\<close>

lemma newWriteCompletion_ok:
  "completion_ok (sum_list (map length calls)) (newWriteCompletion uri calls maximum)"
proof -
  have "map (\<lambda>c. length (call_owners uri c (calls ! c))) [0..<length calls] = map length calls"
    by (rule nth_equalityI) (simp_all add: call_owners_def)
  then have "length (concat (map (\<lambda>c. call_owners uri c (calls ! c)) [0..<length calls])) = sum_list (map length calls)"
    by (simp add: length_concat comp_def)
  then show ?thesis
    by (auto simp: completion_ok_def newWriteCompletion_def answered_def call_owners_def)
qed

text \<open>Whatever the storage is, an execution that returns without an error answered every operation.\<close>

lemma groups_answered:
  assumes run: "executeWriteGroups env groups st = Some (None, st')"
    and "ws_completion st = Some (newWriteCompletion uri calls maximum)"
    and "length (ws_results st) = sum_list (map length calls)"
    and "\<forall>r \<in> set (ws_results st). wres_failure r \<noteq> None \<longrightarrow> wres_status r \<noteq> WS_UNSPECIFIED"
    and "\<forall>g \<in> set groups. \<forall>op \<in> set (wg_operations g). pw_index op < length (ws_results st)"
  shows "\<exists>c. ws_completion st' = Some c \<and>
    (\<forall>g \<in> set groups. \<forall>op \<in> set (wg_operations g). ow_done (wc_owners c ! pw_index op)) \<and>
    (\<forall>caller row r. CompleteCall caller row \<in> set (wc_events c) \<longrightarrow> Some r \<in> set row \<longrightarrow> wres_status r \<noteq> WS_UNSPECIFIED)"
proof -
  let ?n = "sum_list (map length calls)"
  have ok: "state_ok ?n st"
    using assms(2-4) newWriteCompletion_ok[of calls uri maximum]
    by (simp add: state_ok_def consistent_result_def settled_result_def)
  moreover have "all_within ?n groups" using assms(3,5) by (simp add: all_within_def within_def)
  ultimately have s: "steps ?n st st'" "answered_or groups [] st'" using waves_steps[OF run] by blast+
  obtain c where "ws_completion st' = Some c" "completion_ok ?n c" using steps_ok[OF s(1)] by (auto simp: state_ok_def)
  then show ?thesis
    using s(2) by (auto simp: completion_ok_def answered_def answered_or_def is_done_def settled_result_def)
qed

text \<open>
  C25: executing writes ends. Whatever the groups, the budgets, the memory reservations, the other
  writers of the store and the answers of the storage to writes are, the execution of a batch against
  the memory store returns: the groups an attempt puts off get fewer with every pass.
\<close>

theorem write_execution_ends:
  assumes "we_read env = memory_read store grow"
    and "\<forall>g \<in> set groups. \<forall>op \<in> set (wg_operations g). owner (we_budgets env) (pw_index op) < callerCount (we_budgets env)"
  shows "\<exists>outcome st'. executeWriteGroups env groups st = Some (outcome, st')"
proof -
  have "owned env groups" using assms(2) by (simp add: owned_def)
  then show ?thesis using memory.waves_end[OF assms(1)] by (metis prod.exhaust)
qed

text \<open>
  C24: every operation is answered. Executing the groups of a batch against the memory store, whatever
  the budgets, the memory reservations, the other writers of the store and the answers of the storage to
  writes are, returns. When it returns without an error, every operation of every group has been
  published to its caller, and every result of every reply that was sent has a status.
\<close>

theorem write_execution_answers:
  assumes "we_read env = memory_read store grow"
    and "\<forall>g \<in> set groups. \<forall>op \<in> set (wg_operations g). owner (we_budgets env) (pw_index op) < callerCount (we_budgets env)"
    and "ws_completion st = Some (newWriteCompletion uri calls maximum)"
    and "length (ws_results st) = sum_list (map length calls)"
    and "\<forall>r \<in> set (ws_results st). wres_failure r \<noteq> None \<longrightarrow> wres_status r \<noteq> WS_UNSPECIFIED"
    and "\<forall>g \<in> set groups. \<forall>op \<in> set (wg_operations g). pw_index op < length (ws_results st)"
  shows "\<exists>outcome st'. executeWriteGroups env groups st = Some (outcome, st') \<and>
    (outcome = None \<longrightarrow> (\<exists>c. ws_completion st' = Some c \<and>
       (\<forall>g \<in> set groups. \<forall>op \<in> set (wg_operations g). ow_done (wc_owners c ! pw_index op)) \<and>
       (\<forall>caller row r. CompleteCall caller row \<in> set (wc_events c) \<longrightarrow> Some r \<in> set row \<longrightarrow> wres_status r \<noteq> WS_UNSPECIFIED)))"
proof -
  have "owned env groups" using assms(2) by (simp add: owned_def)
  then obtain outcome st' where run: "executeWriteGroups env groups st = Some (outcome, st')"
    using memory.waves_end[OF assms(1)] by (metis prod.exhaust)
  then show ?thesis using groups_answered[OF _ assms(3-6)] by blast
qed

text \<open>Two callers put two records of an empty memory store.\<close>

definition demo_env :: "mem_store write_env" where
  "demo_env =
     \<lparr>we_maxReadBytes = 1000, we_maxMergeAttempts = 2, we_visible = False,
      we_budgets = Some (addContext (None, False) 1 (addContext (None, False) 1 no_budgets)),
      we_managed = False, we_estimateBytes = 100, we_workingBytes = 50,
      we_ctx = (\<lambda>w. (None, w)), we_read = memory_read (\<lambda>w. w) (\<lambda>n w. (None, w)),
      we_write = (\<lambda>visible ops w. map_prod Inr id (mem_Write ops w)),
      we_resize = (\<lambda>n w. (None, w)), we_grow = (\<lambda>n w. (None, w)), we_shrink = (\<lambda>n w. w),
      we_output = (\<lambda>caller n w. (None, w)), we_free = (\<lambda>caller n w. w), we_lua = (\<lambda>w. (demo_lua, w))\<rparr>"

definition demo_groups :: "writeGroup list" where
  "demo_groups =
     [\<lparr>wg_operations = [demo_parsed_put 0 ''a'' [1] PreconditionNone], wg_merges = 0\<rparr>,
      \<lparr>wg_operations = [demo_parsed_put 1 ''b'' [2] PreconditionNone], wg_merges = 0\<rparr>]"

definition demo_state :: "mem_store write_state" where
  "demo_state =
     \<lparr>ws_results = [demo_result 0, demo_result 1], ws_returns = None,
      ws_completion = Some (newWriteCompletion demo_uri_ok [[None], [None]] 1000), ws_cells = [], ws_world = mem_New\<rparr>"

lemma mem_Write_length: "length (fst (mem_Write ops s)) = length ops"
  by (induction ops arbitrary: s) (simp_all add: case_prod_beta)

lemma demo_runs: "\<exists>st'. executeWriteGroups demo_env demo_groups demo_state = Some (None, st')"
proof -
  have heads: "map wave_head demo_groups = demo_groups" "filter splits demo_groups = []" "filter directPut demo_groups = demo_groups"
    "filter (\<lambda>g. \<not> directPut g) demo_groups = []"
    by (simp_all add: demo_groups_def wave_head_def splits_def directPut_def demo_parsed_put_def no_precondition_def Let_def)
  have "\<exists>st1. executePuts demo_env demo_groups demo_state = (None, st1)"
    using mem_Write_length[of "[_, _]"]
    by (simp add: executePuts_def demo_groups_def demo_state_def returns_reserve_def Let_def demo_env_def map_prod_def case_prod_beta del: mem_Write.simps)
  then obtain st1 where p: "executePuts demo_env demo_groups demo_state = (None, st1)" by blast
  have "we_maxMergeAttempts demo_env = Suc 1" by (simp add: demo_env_def)
  then have w: "executeWriteWave demo_env demo_groups demo_state = Some (None, st1)"
    by (simp add: executeWriteWave_def heads p executeConditionalWrites_def)
  have "executeWriteGroups demo_env [] st1 = Some (None, st1)" by (subst executeWriteGroups.simps) simp
  moreover have "demo_groups \<noteq> []" by (simp add: demo_groups_def)
  ultimately show ?thesis unfolding executeWriteGroups.simps[of demo_env demo_groups demo_state] by (simp add: heads w)
qed

lemma demo_owned:
  "we_read demo_env = memory_read (\<lambda>w. w) (\<lambda>n w. (None, w))"
  "owner (we_budgets demo_env) 1 = 1" "callerCount (we_budgets demo_env) = 2"
  "\<forall>g \<in> set demo_groups. \<forall>op \<in> set (wg_operations g). owner (we_budgets demo_env) (pw_index op) < callerCount (we_budgets demo_env)"
proof -
  have o: "owner (we_budgets demo_env) 0 = 0" "owner (we_budgets demo_env) 1 = 1" "callerCount (we_budgets demo_env) = 2"
    by (simp_all add: demo_env_def owner_def callerCount_def addContext_def budgets_add_def no_budgets_def Let_def)
  then show "owner (we_budgets demo_env) 1 = 1" "callerCount (we_budgets demo_env) = 2" by simp_all
  show "\<forall>g \<in> set demo_groups. \<forall>op \<in> set (wg_operations g). owner (we_budgets demo_env) (pw_index op) < callerCount (we_budgets demo_env)"
    using o by (simp add: demo_groups_def demo_parsed_put_def)
qed (simp add: demo_env_def)

theorem write_execution_ends_witness:
  "owner (we_budgets demo_env) 1 = 1 \<and> callerCount (we_budgets demo_env) = 2 \<and>
   (\<exists>outcome st'. executeWriteGroups demo_env demo_groups demo_state = Some (outcome, st'))"
  using write_execution_ends[OF demo_owned(1,4)] demo_owned(2,3) by blast

theorem write_execution_answers_witness:
  "\<exists>st' c. executeWriteGroups demo_env demo_groups demo_state = Some (None, st') \<and> ws_completion st' = Some c \<and>
    ow_done (wc_owners c ! 0) \<and> ow_done (wc_owners c ! 1)"
proof -
  obtain st' where run: "executeWriteGroups demo_env demo_groups demo_state = Some (None, st')" using demo_runs by blast
  have ops: "\<forall>g \<in> set demo_groups. \<forall>op \<in> set (wg_operations g). pw_index op < length (ws_results demo_state)"
    "\<exists>g \<in> set demo_groups. \<exists>op \<in> set (wg_operations g). pw_index op = 0"
    "\<exists>g \<in> set demo_groups. \<exists>op \<in> set (wg_operations g). pw_index op = 1"
    by (simp_all add: demo_groups_def demo_parsed_put_def demo_state_def)
  have st: "ws_completion demo_state = Some (newWriteCompletion demo_uri_ok [[None], [None]] 1000)"
    "length (ws_results demo_state) = sum_list (map length [[None], [None :: RecordAddress option]])"
    "\<forall>r \<in> set (ws_results demo_state). wres_failure r \<noteq> None \<longrightarrow> wres_status r \<noteq> WS_UNSPECIFIED"
    by (simp_all add: demo_state_def demo_result_def)
  obtain c where "ws_completion st' = Some c" "\<forall>g \<in> set demo_groups. \<forall>op \<in> set (wg_operations g). ow_done (wc_owners c ! pw_index op)"
    using write_execution_answers[OF demo_owned(1,4) st ops(1)] run by auto
  moreover from this(2) ops(2,3) have "ow_done (wc_owners c ! 0) \<and> ow_done (wc_owners c ! 1)" by fastforce
  ultimately show ?thesis using run by blast
qed

end
