(* ===== verification/Admission.thy ===== *)
theory Admission
  imports Request_Budgets Capacity_Scope
begin

text \<open>
  Admission of requests to execution, \<open>src/internal/service/admission.go\<close>, \<open>admission_queue.go\<close>,
  \<open>reservation.go\<close>, and the limits a server is created with, \<open>options.go\<close>. A request that waits is
  known by the index of its call; its \<open>ready\<close> channel of capacity one is a flag of the call. Metrics
  and durations that only set a deadline are left out.
\<close>

section \<open>Server options\<close>

record service_options =
  so_boundStore :: string
  so_hasStorage :: bool
  so_hasLua :: bool
  so_maxOperations :: int
  so_maxMergeAttempts :: int
  so_requestTimeout :: int
  so_maxInFlightRequests :: int
  so_maxInFlightBytes :: int
  so_maxAdmissionRequests :: int
  so_maxAdmissionBytes :: int
  so_admissionWait :: int
  so_maxPublishRequests :: int
  so_maxPublishBytes :: int
  so_maxReadBytes :: int
  so_maxScanRequests :: int
  so_maxScanBytes :: int
  so_scanAdmissionWait :: int

record admissionPool =
  ap_name :: string
  ap_requestTimeout :: int
  ap_maxInFlightRequests :: int
  ap_maxInFlightBytes :: int
  ap_waiters :: "nat list"
  ap_inFlightRequests :: int
  ap_inFlightBytes :: int
  ap_maxScanRequests :: int
  ap_maxScanBytes :: int
  ap_scanRequests :: int
  ap_scanBytes :: int
  ap_scanAdmissionWait :: int
  ap_maxQueuedRequests :: int
  ap_maxQueuedBytes :: int
  ap_admissionWait :: int
  ap_queuedRequests :: int
  ap_queuedBytes :: int

record service_limits =
  sl_boundStore :: string
  sl_maxOperations :: int
  sl_maxMergeAttempts :: int
  sl_maxReadBytes :: int
  sl_execution :: admissionPool
  sl_publish :: admissionPool

text \<open>Durations are nanoseconds.\<close>

definition second :: int where
  "second = 1000000000"

definition or_default :: "int \<Rightarrow> int \<Rightarrow> int" where
  "or_default v d = (if v = 0 then d else v)"

definition empty_pool :: admissionPool where
  "empty_pool =
     \<lparr>ap_name = [], ap_requestTimeout = 0, ap_maxInFlightRequests = 0, ap_maxInFlightBytes = 0, ap_waiters = [],
      ap_inFlightRequests = 0, ap_inFlightBytes = 0, ap_maxScanRequests = 0, ap_maxScanBytes = 0, ap_scanRequests = 0,
      ap_scanBytes = 0, ap_scanAdmissionWait = 0, ap_maxQueuedRequests = 0, ap_maxQueuedBytes = 0, ap_admissionWait = 0,
      ap_queuedRequests = 0, ap_queuedBytes = 0\<rparr>"

text \<open>The defaults of \<open>New\<close>, after its checks.\<close>

definition service_defaults :: "service_options \<Rightarrow> service_options" where
  "service_defaults opts =
     (let timeout = or_default (so_requestTimeout opts) (30 * second);
          requests = or_default (so_maxInFlightRequests opts) 128;
          bytes = or_default (so_maxInFlightBytes opts) (256 * 2 ^ 20)
      in opts
         \<lparr>so_requestTimeout := timeout, so_maxInFlightRequests := requests, so_maxInFlightBytes := bytes,
          so_maxReadBytes := or_default (so_maxReadBytes opts) DefaultMaxReadBytes,
          so_maxAdmissionRequests := or_default (so_maxAdmissionRequests opts) 1024,
          so_maxAdmissionBytes := or_default (so_maxAdmissionBytes opts) (min (32 * 2 ^ 20) bytes),
          so_admissionWait := min (or_default (so_admissionWait opts) (2 * second)) timeout,
          so_maxPublishRequests := or_default (so_maxPublishRequests opts) 32,
          so_maxPublishBytes := or_default (so_maxPublishBytes opts) (256 * 2 ^ 20),
          so_maxScanRequests := or_default (so_maxScanRequests opts) (max 1 (requests div 2)),
          so_maxScanBytes := or_default (so_maxScanBytes opts) (max 1 (bytes div 2)),
          so_scanAdmissionWait := min (or_default (so_scanAdmissionWait opts) (2 * second)) timeout,
          so_maxOperations := or_default (so_maxOperations opts) 1000,
          so_maxMergeAttempts := or_default (so_maxMergeAttempts opts) 3\<rparr>)"

definition service_New :: "service_options \<Rightarrow> string + service_limits" where
  "service_New opts =
     (if so_boundStore opts = [] then Inl ''create Sink server: bound Store is required''
      else if \<not> so_hasStorage opts then Inl ''create Sink server: storage is required''
      else if \<not> so_hasLua opts then Inl ''create Sink server: Lua merge engine is required''
      else if so_maxOperations opts < 0 then Inl ''create Sink server: max operations cannot be negative''
      else if so_maxMergeAttempts opts < 0 then Inl ''create Sink server: max merge attempts cannot be negative''
      else if so_requestTimeout opts < 0 \<or> so_maxInFlightRequests opts < 0 \<or> so_maxInFlightBytes opts < 0 \<or> so_maxReadBytes opts < 0
        then Inl ''create Sink server: resource limits cannot be negative''
      else if so_maxAdmissionRequests opts < 0 \<or> so_maxAdmissionBytes opts < 0 \<or> so_admissionWait opts < 0
        then Inl ''create Sink server: admission queue limits cannot be negative''
      else if so_maxPublishRequests opts < 0 \<or> so_maxPublishBytes opts < 0
        then Inl ''create Sink server: publish limits cannot be negative''
      else if so_maxScanRequests opts < 0 \<or> so_maxScanBytes opts < 0 \<or> so_scanAdmissionWait opts < 0
        then Inl ''create Sink server: scan limits cannot be negative''
      else
        let o' = service_defaults opts in
        if so_maxScanRequests o' > so_maxInFlightRequests o' \<or> so_maxScanBytes o' > so_maxInFlightBytes o'
        then Inl ''create Sink server: scan limits cannot exceed total limits''
        else Inr
          \<lparr>sl_boundStore = so_boundStore o', sl_maxOperations = so_maxOperations o',
           sl_maxMergeAttempts = so_maxMergeAttempts o', sl_maxReadBytes = so_maxReadBytes o',
           sl_execution = empty_pool\<lparr>ap_name := ''execution'', ap_requestTimeout := so_requestTimeout o',
             ap_maxInFlightRequests := so_maxInFlightRequests o', ap_maxInFlightBytes := so_maxInFlightBytes o',
             ap_maxScanRequests := so_maxScanRequests o', ap_maxScanBytes := so_maxScanBytes o',
             ap_scanAdmissionWait := so_scanAdmissionWait o', ap_maxQueuedRequests := so_maxAdmissionRequests o',
             ap_maxQueuedBytes := so_maxAdmissionBytes o', ap_admissionWait := so_admissionWait o'\<rparr>,
           sl_publish = empty_pool\<lparr>ap_name := ''publish'', ap_requestTimeout := so_requestTimeout o',
             ap_maxInFlightRequests := so_maxPublishRequests o', ap_maxInFlightBytes := so_maxPublishBytes o'\<rparr>\<rparr>)"

section \<open>The critical sections of a pool\<close>

record admissionRequest =
  ar_encodedBytes :: int
  ar_resultBytes :: int
  ar_sharedInput :: bool
  ar_stores :: "string list"
  ar_wait :: bool
  ar_scan :: bool
  ar_publish :: bool
  ar_reserved :: bool
  ar_inputBytes :: int
  ar_direct :: bool

definition admissionSlotsFull :: "admissionPool \<Rightarrow> admissionRequest \<Rightarrow> bool" where
  "admissionSlotsFull p r =
     (ap_inFlightRequests p \<ge> ap_maxInFlightRequests p \<or>
      ar_scan r \<and> (ap_scanRequests p \<ge> ap_maxScanRequests p \<or> ar_encodedBytes r > ap_maxScanBytes p - ap_scanBytes p))"

definition admissionCanFit :: "admissionPool \<Rightarrow> admissionRequest \<Rightarrow> bool" where
  "admissionCanFit p r = (ar_encodedBytes r \<le> ap_maxInFlightBytes p \<and> (\<not> ar_scan r \<or> ar_encodedBytes r \<le> ap_maxScanBytes p))"

definition scanWaitQueueFull :: "(nat \<Rightarrow> admissionRequest) \<Rightarrow> admissionPool \<Rightarrow> admissionRequest \<Rightarrow> bool" where
  "scanWaitQueueFull req p r =
     (let scans = filter (\<lambda>i. ar_scan (req i)) (ap_waiters p);
          bytes = sum_list (map (\<lambda>i. ar_encodedBytes (req i)) scans)
      in int (length scans) \<ge> ap_maxScanRequests p \<or> ar_encodedBytes r > ap_maxScanBytes p - bytes)"

definition directWaitQueueFull :: "admissionPool \<Rightarrow> admissionRequest \<Rightarrow> bool" where
  "directWaitQueueFull p r =
     (ap_queuedRequests p \<ge> ap_maxQueuedRequests p \<or> ar_inputBytes r > ap_maxQueuedBytes p - ap_queuedBytes p)"

definition adjustDirectQueue :: "admissionRequest \<Rightarrow> int \<Rightarrow> admissionPool \<Rightarrow> admissionPool" where
  "adjustDirectQueue r delta p =
     p\<lparr>ap_queuedRequests := ap_queuedRequests p + delta, ap_queuedBytes := ap_queuedBytes p + delta * ar_inputBytes r\<rparr>"

text \<open>\<open>wakeAdmissionWaiter\<close>: the call whose channel is sent to, if any.\<close>

fun wake_loop :: "(nat \<Rightarrow> admissionRequest) \<Rightarrow> admissionPool \<Rightarrow> nat list \<Rightarrow> nat option" where
  "wake_loop req p [] = None"
| "wake_loop req p (i # waiters) =
     (if admissionSlotsFull p (req i) then wake_loop req p waiters
      else if ar_encodedBytes (req i) \<le> ap_maxInFlightBytes p - ap_inFlightBytes p then Some i else None)"

definition wakeAdmissionWaiter :: "(nat \<Rightarrow> admissionRequest) \<Rightarrow> admissionPool \<Rightarrow> nat option" where
  "wakeAdmissionWaiter req p = wake_loop req p (ap_waiters p)"

definition removeAdmissionWaiter :: "(nat \<Rightarrow> admissionRequest) \<Rightarrow> nat \<Rightarrow> admissionPool \<Rightarrow> admissionPool \<times> nat option" where
  "removeAdmissionWaiter req i p =
     (if i \<notin> set (ap_waiters p) then (p, None)
      else
        let p1 = p\<lparr>ap_waiters := remove1 i (ap_waiters p)\<rparr>;
            p2 = (if ar_direct (req i) then adjustDirectQueue (req i) (-1) p1 else p1)
        in (p2, wakeAdmissionWaiter req p2))"

text \<open>
  What \<open>rejectAdmission\<close> answers: the status, and for a scan that could fit later the pool and the
  reason of its retry detail.
\<close>

record rejection =
  rj_status :: status
  rj_detail :: "(string \<times> string) option"

definition rejectAdmission :: "admissionPool \<Rightarrow> admissionRequest \<Rightarrow> string \<Rightarrow> rejection" where
  "rejectAdmission p r reason =
     \<lparr>rj_status = status_error ResourceExhausted (''Sink '' @ ap_name p @ '' capacity is full''),
      rj_detail = (if ar_scan r \<and> admissionCanFit p r then Some (ap_name p, reason) else None)\<rparr>"

text \<open>
  One pass of the loop of \<open>admitRequest\<close> under the lock, for call \<open>i\<close>; \<open>queued\<close> says whether its
  request waits already. The last component is the call that is woken.
\<close>

datatype admit_outcome = AdmitGranted | AdmitWait | AdmitReject rejection

definition earlier_eligible :: "(nat \<Rightarrow> admissionRequest) \<Rightarrow> nat \<Rightarrow> admissionPool \<Rightarrow> bool" where
  "earlier_eligible req i p = list_ex (\<lambda>e. \<not> admissionSlotsFull p (req e)) (takeWhile (\<lambda>e. e \<noteq> i) (ap_waiters p))"

definition bytes_full :: "admissionPool \<Rightarrow> admissionRequest \<Rightarrow> bool" where
  "bytes_full p r = (ar_encodedBytes r > ap_maxInFlightBytes p - ap_inFlightBytes p)"

definition admission_reason :: "(nat \<Rightarrow> admissionRequest) \<Rightarrow> nat \<Rightarrow> admissionPool \<Rightarrow> string" where
  "admission_reason req i p =
     (if \<not> (admissionSlotsFull p (req i) \<or> bytes_full p (req i)) \<and> earlier_eligible req i p then ''fairness''
      else if bytes_full p (req i) then ''bytes'' else ''requests'')"

definition admission_charge :: "admissionRequest \<Rightarrow> admissionPool \<Rightarrow> admissionPool" where
  "admission_charge r p =
     (let p1 = p\<lparr>ap_inFlightRequests := ap_inFlightRequests p + 1, ap_inFlightBytes := ap_inFlightBytes p + ar_encodedBytes r\<rparr>
      in if ar_scan r
         then p1\<lparr>ap_scanRequests := ap_scanRequests p1 + 1, ap_scanBytes := ap_scanBytes p1 + ar_encodedBytes r\<rparr> else p1)"

definition admission_enqueue :: "(nat \<Rightarrow> admissionRequest) \<Rightarrow> nat \<Rightarrow> admissionPool \<Rightarrow> admissionPool" where
  "admission_enqueue req i p =
     (let p1 = p\<lparr>ap_waiters := ap_waiters p @ [i]\<rparr> in if ar_direct (req i) then adjustDirectQueue (req i) 1 p1 else p1)"

definition admit_try ::
  "(nat \<Rightarrow> admissionRequest) \<Rightarrow> nat \<Rightarrow> bool \<Rightarrow> admissionPool \<Rightarrow> admit_outcome \<times> admissionPool \<times> nat option" where
  "admit_try req i queued p =
     (let r = req i in
      if admissionSlotsFull p r \<or> bytes_full p r \<or> earlier_eligible req i p
      then
        let canWait = ar_wait r \<and> admissionCanFit p r in
        if canWait \<and> \<not> queued then
          if ar_direct r \<and> directWaitQueueFull p r then (AdmitReject (rejectAdmission p r ''queue''), p, None)
          else if ar_scan r \<and> scanWaitQueueFull req p r then (AdmitReject (rejectAdmission p r ''queue''), p, None)
          else (AdmitWait, admission_enqueue req i p, None)
        else if canWait then (AdmitWait, p, None)
        else (AdmitReject (rejectAdmission p r (admission_reason req i p)), p, None)
      else
        let p1 = admission_charge r p in
        if queued then (let (p2, woken) = removeAdmissionWaiter req i p1 in (AdmitGranted, p2, woken))
        else (AdmitGranted, p1, None))"

section \<open>Reservations\<close>

record admissionReservation =
  rv_bytes :: int
  rv_maximum :: int
  rv_released :: bool

text \<open>\<open>resize\<close> of a reservation that no process pool manages.\<close>

definition resize ::
  "(nat \<Rightarrow> admissionRequest) \<Rightarrow> int \<Rightarrow> admissionReservation \<Rightarrow> admissionPool
     \<Rightarrow> err option \<times> admissionReservation \<times> admissionPool \<times> nat option" where
  "resize req bytes r p =
     (if rv_released r \<or> bytes < 0 \<or> bytes > rv_maximum r
      then (Some (ErrText ''invalid execution reservation resize''), r, p, None)
      else
        let delta = bytes - rv_bytes r in
        if delta = 0 then (None, r, p, None)
        else if delta > 0 \<and> (delta > ap_maxInFlightBytes p - ap_inFlightBytes p \<or>
            list_ex (\<lambda>i. \<not> admissionSlotsFull p (req i)) (ap_waiters p))
        then (let message = ''Sink execution capacity cannot restore the write working set''
              in (Some (ErrStatus (status_error ResourceExhausted message) message), r, p, None))
        else
          let p1 = p\<lparr>ap_inFlightBytes := ap_inFlightBytes p + delta\<rparr>
          in (None, r\<lparr>rv_bytes := bytes\<rparr>, p1, if delta < 0 then wakeAdmissionWaiter req p1 else None))"

text \<open>The reservation a granted request starts with, and the release function it is given.\<close>

definition granted_reservation :: "admissionRequest \<Rightarrow> admissionReservation" where
  "granted_reservation r = \<lparr>rv_bytes = ar_encodedBytes r, rv_maximum = ar_encodedBytes r, rv_released = False\<rparr>"

definition admission_release ::
  "(nat \<Rightarrow> admissionRequest) \<Rightarrow> admissionRequest \<Rightarrow> admissionReservation \<Rightarrow> admissionPool
     \<Rightarrow> admissionReservation \<times> admissionPool \<times> nat option" where
  "admission_release req r v p =
     (let bytes = (if ar_reserved r then rv_bytes v else ar_encodedBytes r);
          p1 = p\<lparr>ap_inFlightRequests := ap_inFlightRequests p - 1, ap_inFlightBytes := ap_inFlightBytes p - bytes\<rparr>;
          p2 = (if ar_scan r
                then p1\<lparr>ap_scanRequests := ap_scanRequests p1 - 1, ap_scanBytes := ap_scanBytes p1 - ar_encodedBytes r\<rparr> else p1)
      in (v\<lparr>rv_released := True\<rparr>, p2, wakeAdmissionWaiter req p2))"

section \<open>What a request asks for\<close>

text \<open>\<open>Server.admitRequest\<close> without a process pool: the pool it goes to and the request it makes there.\<close>

datatype admission_target = PublishPool | ExecutionPool

definition admitRequest :: "admissionRequest \<Rightarrow> admission_target \<times> admissionRequest" where
  "admitRequest r =
     (if ar_publish r then (PublishPool, r)
      else if \<not> ar_wait r \<and> \<not> ar_scan r \<and> ar_inputBytes r > 0
      then (ExecutionPool, r\<lparr>ar_wait := True, ar_direct := True, ar_inputBytes := ar_inputBytes r + 256\<rparr>)
      else (ExecutionPool, r))"

text \<open>
  \<open>admitMemory\<close>: the bytes a new scope is charged for. A request whose context has a scope is
  charged nothing more; its reservation gets a lease of the scope it runs in.
\<close>

definition memory_charge :: "admissionRequest \<Rightarrow> int" where
  "memory_charge r =
     (if ar_sharedInput r then ar_resultBytes r + 4096 else 2 * ar_inputBytes r + 2 * ar_resultBytes r + 4096)"

definition admitMemory :: "admissionRequest \<Rightarrow> scope option \<Rightarrow> pool \<Rightarrow> scope \<times> grow_request option \<times> pool" where
  "admitMemory r current p =
     (case current of
        Some s \<Rightarrow> (s, None, p)
      | None \<Rightarrow> (let (s, p1) = NewScope p in (s, Some (Admit s (memory_charge r)), p1)))"

definition admitMemory_lease :: "admissionRequest \<Rightarrow> scope \<Rightarrow> pool \<Rightarrow> nat option \<times> scope \<times> pool" where
  "admitMemory_lease r s p =
     (if ar_reserved r then (let (l, s1, p1) = scope_NewLease s p in (Some l, s1, p1)) else (None, s, p))"

definition admitMemory_release :: "nat option \<Rightarrow> bool \<Rightarrow> scope \<Rightarrow> pool \<Rightarrow> scope \<times> pool" where
  "admitMemory_release lease own_scope s p =
     (let p1 = (case lease of None \<Rightarrow> p | Some l \<Rightarrow> Close l p) in if own_scope then Release s p1 else (s, p1))"

text \<open>\<open>resize\<close> of a managed reservation: it shrinks the lease at once or asks for growth.\<close>

definition resize_managed :: "nat \<Rightarrow> int \<Rightarrow> pool \<Rightarrow> grow_request option \<times> pool" where
  "resize_managed l bytes p =
     (let current = Bytes l p in
      if bytes < current then (None, Shrink l (current - bytes) p)
      else (Some \<lparr>gr_lease = l, gr_bytes = bytes - current, gr_phase = Response\<rparr>, p))"

text \<open>The stores of a request, each once; the order of a map iteration is that of the operations here.\<close>

definition operationStores :: "uri_parser \<Rightarrow> RecordAddress option list \<Rightarrow> string list" where
  "operationStores uri addresses = remdups (map (RecordStore uri) addresses)"

record writeExecutionEstimate =
  we_bytes :: int
  we_working :: int

text \<open>\<open>encoded\<close> is the encoded size of the request, computed by generated code.\<close>

fun estimate_returns_loop :: "WriteOperation list \<Rightarrow> int \<Rightarrow> int option" where
  "estimate_returns_loop [] bytes = Some bytes"
| "estimate_returns_loop (operation # rest) bytes =
     (if \<not> wo_returnDocument operation then estimate_returns_loop rest bytes
      else case wo_action operation of
        MergeAction _ \<Rightarrow> None
      | PutAction put \<Rightarrow>
          estimate_returns_loop rest (bytes + (case put_document put of None \<Rightarrow> 0 | Some d \<Rightarrow> int (length (d_payload d))) + 128)
      | NoAction \<Rightarrow> estimate_returns_loop rest (bytes + 128))"

definition estimateWriteReturns :: "int \<Rightarrow> WriteRequest \<Rightarrow> int \<Rightarrow> int" where
  "estimateWriteReturns maxReadBytes req callers =
     (let maximum = maxReadBytes * callers in
      case estimate_returns_loop (wr_operations req) 0 of None \<Rightarrow> maximum | Some bytes \<Rightarrow> min bytes maximum)"

definition returningCallerCount :: "WriteRequest \<Rightarrow> requestBudgets option \<Rightarrow> nat" where
  "returningCallerCount req budgets =
     length (remdups (map (\<lambda>i. owner budgets i)
       (filter (\<lambda>i. wo_returnDocument (wr_operations req ! i)) [0..<length (wr_operations req)])))"

text \<open>
  The scan over the operations in \<open>estimateWriteExecution\<close>: bytes for expanded Lua sources, and
  whether some record needs a snapshot. \<open>puts\<close> counts the puts of a record and says whether one of
  them has a condition.
\<close>

definition conditional_put :: "WriteOperation \<Rightarrow> bool" where
  "conditional_put operation = (case wo_action operation of PutAction put \<Rightarrow> put_mode put \<noteq> WRITE_UPSERT | _ \<Rightarrow> False)"

fun estimate_loop ::
  "uri_parser \<Rightarrow> int \<Rightarrow> bool \<Rightarrow> WriteOperation list \<Rightarrow> int \<Rightarrow> bool \<Rightarrow> (recordIdentity \<Rightarrow> nat \<times> bool) \<Rightarrow> int \<times> bool" where
  "estimate_loop uri largestSource hasConditionalPut [] bytes hasSnapshot puts = (bytes, hasSnapshot)"
| "estimate_loop uri largestSource hasConditionalPut (operation # rest) bytes hasSnapshot puts =
     (case wo_action operation of
        MergeAction m \<Rightarrow>
          estimate_loop uri largestSource hasConditionalPut rest
            (bytes + max largestSource (case MergeOperation.merge_program m of None \<Rightarrow> 0 | Some l \<Rightarrow> int (length (lua_source l)))) True puts
      | PutAction put \<Rightarrow>
          if hasConditionalPut \<and> \<not> hasSnapshot then
            (case ParseAddress uri (wo_address operation) of
               Inl _ \<Rightarrow> estimate_loop uri largestSource hasConditionalPut rest bytes hasSnapshot puts
             | Inr address \<Rightarrow>
                 (let key = ad_string address;
                      number = fst (puts key) + 1;
                      conditional = (snd (puts key) \<or> put_mode put \<noteq> WRITE_UPSERT)
                  in estimate_loop uri largestSource hasConditionalPut rest bytes (1 < number \<and> conditional)
                       (puts(key := (number, conditional)))))
          else estimate_loop uri largestSource hasConditionalPut rest bytes hasSnapshot puts
      | NoAction \<Rightarrow> estimate_loop uri largestSource hasConditionalPut rest bytes hasSnapshot puts)"

definition distinct_records :: "uri_parser \<Rightarrow> WriteOperation list \<Rightarrow> nat" where
  "distinct_records uri ops =
     length (remdups (List.map_filter (\<lambda>op. case ParseAddress uri (wo_address op) of Inl _ \<Rightarrow> None | Inr a \<Rightarrow> Some (ad_string a)) ops))"

definition estimateWriteExecution ::
  "uri_parser \<Rightarrow> bool \<Rightarrow> int \<Rightarrow> int \<Rightarrow> WriteRequest \<Rightarrow> nat \<Rightarrow> nat \<Rightarrow> writeExecutionEstimate" where
  "estimateWriteExecution uri managed maxReadBytes encoded req callers returningCallers =
     (let ops = wr_operations req; failures = failureResponseBytes (int (length ops)) in
      if managed then \<lparr>we_bytes = 2 * encoded + failures, we_working = 0\<rparr>
      else
        let bytes0 = encoded + failures + estimateWriteReturns maxReadBytes req (int returningCallers);
            largestSource = fold (\<lambda>program m. max m (int (length (lua_source program)))) (wr_programs req) 0;
            hasConditionalPut = (1 < length ops \<and> list_ex conditional_put ops);
            (bytes, hasSnapshot) = estimate_loop uri largestSource hasConditionalPut ops bytes0 False (\<lambda>_. (0, False))
        in if hasSnapshot \<and> wr_mode req \<noteq> RETURN_AFTER_ACCEPTED
           then
             let retained = (if 1 < callers then min callers (max 1 (distinct_records uri ops)) else callers);
                 working = maxReadBytes * int (min (2 * retained) 3)
             in \<lparr>we_bytes = bytes + working, we_working = working\<rparr>
           else \<lparr>we_bytes = bytes, we_working = 0\<rparr>)"

end
