(* ===== verification/Admission_Steps.thy ===== *)
theory Admission_Steps
  imports Admission
begin

text \<open>
  The calls of one admission pool as a step relation, and what holds in every reachable state: the
  counters are the sums over the calls and stay within the limits, and a waiter that could run has
  been woken.
\<close>

section \<open>Calls\<close>

text \<open>
  A call is trying (at the head of the loop of \<open>admitRequest\<close>), waiting in its select, admitted, or
  gone. \<open>ac_token\<close> is the content of its channel.
\<close>

datatype admit_phase = Trying | Waiting | Admitted | Gone

record admitter =
  ac_request :: admissionRequest
  ac_phase :: admit_phase
  ac_token :: bool
  ac_reservation :: admissionReservation

record admission_sys =
  as_pool :: admissionPool
  as_calls :: "admitter list"

definition sys_req :: "admission_sys \<Rightarrow> nat \<Rightarrow> admissionRequest" where
  "sys_req s i = ac_request (as_calls s ! i)"

definition send_token :: "nat option \<Rightarrow> admitter list \<Rightarrow> admitter list" where
  "send_token w calls = (case w of None \<Rightarrow> calls | Some i \<Rightarrow> calls[i := (calls ! i)\<lparr>ac_token := True\<rparr>])"

definition set_phase :: "nat \<Rightarrow> admit_phase \<Rightarrow> admitter list \<Rightarrow> admitter list" where
  "set_phase i ph calls = calls[i := (calls ! i)\<lparr>ac_phase := ph\<rparr>]"

text \<open>
  The steps of the calls of one pool: a request arrives; a trying call passes its critical section; a
  call with a token wakes up; a call whose context or wait has ended leaves; an admitted call resizes
  its reservation or returns.
\<close>

inductive admission_step :: "admission_sys \<Rightarrow> admission_sys \<Rightarrow> bool" where
  arrive: "0 \<le> ar_encodedBytes r \<Longrightarrow> 0 \<le> ar_inputBytes r \<Longrightarrow>
    admission_step s (s\<lparr>as_calls := as_calls s @ [\<lparr>ac_request = r, ac_phase = Trying, ac_token = False, ac_reservation = granted_reservation r\<rparr>]\<rparr>)"
| granted: "\<lbrakk>i < length (as_calls s); ac_phase (as_calls s ! i) = Trying;
    admit_try (sys_req s) i (i \<in> set (ap_waiters (as_pool s))) (as_pool s) = (AdmitGranted, p, w)\<rbrakk> \<Longrightarrow>
    admission_step s (s\<lparr>as_pool := p, as_calls := send_token w (set_phase i Admitted (as_calls s))\<rparr>)"
| waits: "\<lbrakk>i < length (as_calls s); ac_phase (as_calls s ! i) = Trying;
    admit_try (sys_req s) i (i \<in> set (ap_waiters (as_pool s))) (as_pool s) = (AdmitWait, p, w)\<rbrakk> \<Longrightarrow>
    admission_step s (s\<lparr>as_pool := p, as_calls := set_phase i Waiting (as_calls s)\<rparr>)"
| rejected: "\<lbrakk>i < length (as_calls s); ac_phase (as_calls s ! i) = Trying;
    admit_try (sys_req s) i (i \<in> set (ap_waiters (as_pool s))) (as_pool s) = (AdmitReject e, p, w)\<rbrakk> \<Longrightarrow>
    admission_step s (s\<lparr>as_pool := p, as_calls := set_phase i Gone (as_calls s)\<rparr>)"
| woken: "\<lbrakk>i < length (as_calls s); ac_phase (as_calls s ! i) = Waiting; ac_token (as_calls s ! i)\<rbrakk> \<Longrightarrow>
    admission_step s (s\<lparr>as_calls := (as_calls s)[i := (as_calls s ! i)\<lparr>ac_phase := Trying, ac_token := False\<rparr>]\<rparr>)"
| leaves: "\<lbrakk>i < length (as_calls s); ac_phase (as_calls s ! i) = Trying \<or> ac_phase (as_calls s ! i) = Waiting;
    removeAdmissionWaiter (sys_req s) i (as_pool s) = (p, w)\<rbrakk> \<Longrightarrow>
    admission_step s (s\<lparr>as_pool := p, as_calls := send_token w (set_phase i Gone (as_calls s))\<rparr>)"
| resized: "\<lbrakk>i < length (as_calls s); ac_phase (as_calls s ! i) = Admitted; ar_reserved (sys_req s i);
    resize (sys_req s) bytes (ac_reservation (as_calls s ! i)) (as_pool s) = (e, v, p, w)\<rbrakk> \<Longrightarrow>
    admission_step s (s\<lparr>as_pool := p, as_calls := send_token w ((as_calls s)[i := (as_calls s ! i)\<lparr>ac_reservation := v\<rparr>])\<rparr>)"
| released: "\<lbrakk>i < length (as_calls s); ac_phase (as_calls s ! i) = Admitted;
    admission_release (sys_req s) (sys_req s i) (ac_reservation (as_calls s ! i)) (as_pool s) = (v, p, w)\<rbrakk> \<Longrightarrow>
    admission_step s (s\<lparr>as_pool := p,
      as_calls := send_token w (set_phase i Gone ((as_calls s)[i := (as_calls s ! i)\<lparr>ac_reservation := v\<rparr>]))\<rparr>)"

inductive admission_reach :: "service_options \<Rightarrow> admission_sys \<Rightarrow> bool" where
  start: "service_New opts = Inr sl \<Longrightarrow> p = sl_execution sl \<or> p = sl_publish sl \<Longrightarrow>
    admission_reach opts \<lparr>as_pool = p, as_calls = []\<rparr>"
| step: "admission_reach opts s \<Longrightarrow> admission_step s s' \<Longrightarrow> admission_reach opts s'"

inductive_cases admission_stepE: "admission_step s s'"

section \<open>The invariant\<close>

definition held_bytes :: "admitter \<Rightarrow> int" where
  "held_bytes c = (if ac_phase c = Admitted then (if ar_reserved (ac_request c) then rv_bytes (ac_reservation c) else ar_encodedBytes (ac_request c)) else 0)"

definition held_request :: "admitter \<Rightarrow> int" where
  "held_request c = (if ac_phase c = Admitted then 1 else 0)"

definition held_scan :: "admitter \<Rightarrow> int" where
  "held_scan c = (if ac_phase c = Admitted \<and> ar_scan (ac_request c) then 1 else 0)"

definition held_scan_bytes :: "admitter \<Rightarrow> int" where
  "held_scan_bytes c = (if ac_phase c = Admitted \<and> ar_scan (ac_request c) then ar_encodedBytes (ac_request c) else 0)"

definition direct_one :: "admissionRequest \<Rightarrow> int" where
  "direct_one r = (if ar_direct r then 1 else 0)"

definition direct_bytes :: "admissionRequest \<Rightarrow> int" where
  "direct_bytes r = (if ar_direct r then ar_inputBytes r else 0)"

definition scan_one :: "admissionRequest \<Rightarrow> int" where
  "scan_one r = (if ar_scan r then 1 else 0)"

definition scan_bytes :: "admissionRequest \<Rightarrow> int" where
  "scan_bytes r = (if ar_scan r then ar_encodedBytes r else 0)"

definition waiting_sum :: "(admissionRequest \<Rightarrow> int) \<Rightarrow> admission_sys \<Rightarrow> int" where
  "waiting_sum f s = sum_list (map (\<lambda>i. f (sys_req s i)) (ap_waiters (as_pool s)))"

definition held_sum :: "(admitter \<Rightarrow> int) \<Rightarrow> admission_sys \<Rightarrow> int" where
  "held_sum f s = sum_list (map f (as_calls s))"

definition call_ok :: "admitter \<Rightarrow> bool" where
  "call_ok c \<longleftrightarrow> 0 \<le> ar_encodedBytes (ac_request c) \<and> 0 \<le> ar_inputBytes (ac_request c) \<and> 0 \<le> rv_bytes (ac_reservation c) \<and>
     (ac_phase c \<in> {Trying, Waiting} \<longrightarrow> rv_bytes (ac_reservation c) = ar_encodedBytes (ac_request c))"

definition queue_ok :: "admission_sys \<Rightarrow> bool" where
  "queue_ok s \<longleftrightarrow> distinct (ap_waiters (as_pool s)) \<and>
     (\<forall>i \<in> set (ap_waiters (as_pool s)). i < length (as_calls s) \<and> ac_phase (as_calls s ! i) \<in> {Trying, Waiting} \<and>
        ar_wait (sys_req s i) \<and> admissionCanFit (as_pool s) (sys_req s i)) \<and>
     (\<forall>i < length (as_calls s). ac_phase (as_calls s ! i) = Waiting \<longrightarrow> i \<in> set (ap_waiters (as_pool s))) \<and>
     (\<forall>c \<in> set (as_calls s). call_ok c)"

definition sums_ok :: "admission_sys \<Rightarrow> bool" where
  "sums_ok s \<longleftrightarrow>
     ap_inFlightRequests (as_pool s) = held_sum held_request s \<and> ap_inFlightBytes (as_pool s) = held_sum held_bytes s \<and>
     ap_scanRequests (as_pool s) = held_sum held_scan s \<and> ap_scanBytes (as_pool s) = held_sum held_scan_bytes s \<and>
     ap_queuedRequests (as_pool s) = waiting_sum direct_one s \<and> ap_queuedBytes (as_pool s) = waiting_sum direct_bytes s"

definition limits_ok :: "admission_sys \<Rightarrow> bool" where
  "limits_ok s \<longleftrightarrow> (let p = as_pool s in
     ap_inFlightRequests p \<le> ap_maxInFlightRequests p \<and> ap_inFlightBytes p \<le> ap_maxInFlightBytes p \<and>
     ap_scanRequests p \<le> ap_maxScanRequests p \<and> ap_scanBytes p \<le> ap_maxScanBytes p \<and>
     ap_queuedRequests p \<le> ap_maxQueuedRequests p \<and> ap_queuedBytes p \<le> ap_maxQueuedBytes p \<and>
     waiting_sum scan_one s \<le> ap_maxScanRequests p \<and> waiting_sum scan_bytes s \<le> ap_maxScanBytes p)"

definition wake_ok :: "admission_sys \<Rightarrow> bool" where
  "wake_ok s \<longleftrightarrow> (\<forall>i. wakeAdmissionWaiter (sys_req s) (as_pool s) = Some i \<longrightarrow> ac_token (as_calls s ! i) \<or> ac_phase (as_calls s ! i) = Trying)"

section \<open>Waking\<close>

lemma wake_loop_Some:
  "wake_loop req p xs = Some i \<Longrightarrow> i \<in> set xs \<and> \<not> admissionSlotsFull p (req i) \<and> \<not> bytes_full p (req i) \<and>
     \<not> list_ex (\<lambda>e. \<not> admissionSlotsFull p (req e)) (takeWhile (\<lambda>e. e \<noteq> i) xs)"
  by (induction xs) (auto simp: bytes_full_def split: if_splits)

lemma wake_loop_none: "\<not> list_ex (\<lambda>e. \<not> admissionSlotsFull p (req e)) xs \<Longrightarrow> wake_loop req p xs = None"
  by (induction xs) auto

lemma wake_loop_snoc:
  "wake_loop req p (xs @ [i]) = Some j \<Longrightarrow> wake_loop req p xs = Some j \<or>
     j = i \<and> \<not> admissionSlotsFull p (req i) \<and> \<not> bytes_full p (req i) \<and> \<not> list_ex (\<lambda>e. \<not> admissionSlotsFull p (req e)) xs"
  by (induction xs) (auto simp: bytes_full_def split: if_splits)

lemma wake_loop_cong:
  assumes "\<And>i. i \<in> set xs \<Longrightarrow> req i = req' i"
    and "\<And>r. admissionSlotsFull p r = admissionSlotsFull p' r" "ap_maxInFlightBytes p = ap_maxInFlightBytes p'" "ap_inFlightBytes p = ap_inFlightBytes p'"
  shows "wake_loop req p xs = wake_loop req' p' xs"
  using assms by (induction xs) auto

text \<open>What a pass of the loop leaves behind.\<close>

lemma admit_try_granted:
  assumes "admit_try req i queued p = (AdmitGranted, p', w)"
  shows "\<not> admissionSlotsFull p (req i)" "\<not> bytes_full p (req i)" "\<not> earlier_eligible req i p"
    "if queued then removeAdmissionWaiter req i (admission_charge (req i) p) = (p', w) else p' = admission_charge (req i) p \<and> w = None"
  using assms by (auto simp: admit_try_def Let_def split: if_splits prod.splits)

lemma admit_try_wait:
  assumes "admit_try req i queued p = (AdmitWait, p', w)"
  shows "admissionSlotsFull p (req i) \<or> bytes_full p (req i) \<or> earlier_eligible req i p" "w = None"
    "ar_wait (req i)" "admissionCanFit p (req i)"
    "if queued then p' = p else p' = admission_enqueue req i p \<and> (ar_direct (req i) \<longrightarrow> \<not> directWaitQueueFull p (req i)) \<and>
       (ar_scan (req i) \<longrightarrow> \<not> scanWaitQueueFull req p (req i))"
  using assms by (auto simp: admit_try_def Let_def split: if_splits prod.splits)

lemma admit_try_reject:
  assumes "admit_try req i queued p = (AdmitReject e, p', w)"
  shows "p' = p" "w = None" "queued \<Longrightarrow> \<not> (ar_wait (req i) \<and> admissionCanFit p (req i))"
  using assms by (auto simp: admit_try_def Let_def split: if_splits prod.splits)

lemma charge_simps [simp]:
  "ap_waiters (admission_charge r p) = ap_waiters p"
  "ap_maxInFlightRequests (admission_charge r p) = ap_maxInFlightRequests p"
  "ap_maxInFlightBytes (admission_charge r p) = ap_maxInFlightBytes p"
  "ap_maxScanRequests (admission_charge r p) = ap_maxScanRequests p"
  "ap_maxScanBytes (admission_charge r p) = ap_maxScanBytes p"
  "ap_maxQueuedRequests (admission_charge r p) = ap_maxQueuedRequests p"
  "ap_maxQueuedBytes (admission_charge r p) = ap_maxQueuedBytes p"
  "ap_queuedRequests (admission_charge r p) = ap_queuedRequests p"
  "ap_queuedBytes (admission_charge r p) = ap_queuedBytes p"
  "ap_inFlightRequests (admission_charge r p) = ap_inFlightRequests p + 1"
  "ap_inFlightBytes (admission_charge r p) = ap_inFlightBytes p + ar_encodedBytes r"
  "ap_scanRequests (admission_charge r p) = ap_scanRequests p + scan_one r"
  "ap_scanBytes (admission_charge r p) = ap_scanBytes p + scan_bytes r"
  by (simp_all add: admission_charge_def Let_def scan_one_def scan_bytes_def)

lemma enqueue_simps [simp]:
  "ap_waiters (admission_enqueue req i p) = ap_waiters p @ [i]"
  "ap_maxInFlightRequests (admission_enqueue req i p) = ap_maxInFlightRequests p"
  "ap_maxInFlightBytes (admission_enqueue req i p) = ap_maxInFlightBytes p"
  "ap_maxScanRequests (admission_enqueue req i p) = ap_maxScanRequests p"
  "ap_maxScanBytes (admission_enqueue req i p) = ap_maxScanBytes p"
  "ap_maxQueuedRequests (admission_enqueue req i p) = ap_maxQueuedRequests p"
  "ap_maxQueuedBytes (admission_enqueue req i p) = ap_maxQueuedBytes p"
  "ap_queuedRequests (admission_enqueue req i p) = ap_queuedRequests p + direct_one (req i)"
  "ap_queuedBytes (admission_enqueue req i p) = ap_queuedBytes p + direct_bytes (req i)"
  "ap_inFlightRequests (admission_enqueue req i p) = ap_inFlightRequests p"
  "ap_inFlightBytes (admission_enqueue req i p) = ap_inFlightBytes p"
  "ap_scanRequests (admission_enqueue req i p) = ap_scanRequests p"
  "ap_scanBytes (admission_enqueue req i p) = ap_scanBytes p"
  by (simp_all add: admission_enqueue_def adjustDirectQueue_def Let_def direct_one_def direct_bytes_def)

definition dequeue :: "(nat \<Rightarrow> admissionRequest) \<Rightarrow> nat \<Rightarrow> admissionPool \<Rightarrow> admissionPool" where
  "dequeue req i p = (let p1 = p\<lparr>ap_waiters := remove1 i (ap_waiters p)\<rparr> in if ar_direct (req i) then adjustDirectQueue (req i) (-1) p1 else p1)"

lemma remove_waiter:
  "removeAdmissionWaiter req i p = (if i \<in> set (ap_waiters p) then (dequeue req i p, wakeAdmissionWaiter req (dequeue req i p)) else (p, None))"
  by (simp add: removeAdmissionWaiter_def dequeue_def Let_def)

lemma dequeue_simps [simp]:
  "ap_waiters (dequeue req i p) = remove1 i (ap_waiters p)"
  "ap_maxInFlightRequests (dequeue req i p) = ap_maxInFlightRequests p"
  "ap_maxInFlightBytes (dequeue req i p) = ap_maxInFlightBytes p"
  "ap_maxScanRequests (dequeue req i p) = ap_maxScanRequests p"
  "ap_maxScanBytes (dequeue req i p) = ap_maxScanBytes p"
  "ap_maxQueuedRequests (dequeue req i p) = ap_maxQueuedRequests p"
  "ap_maxQueuedBytes (dequeue req i p) = ap_maxQueuedBytes p"
  "ap_queuedRequests (dequeue req i p) = ap_queuedRequests p - direct_one (req i)"
  "ap_queuedBytes (dequeue req i p) = ap_queuedBytes p - direct_bytes (req i)"
  "ap_inFlightRequests (dequeue req i p) = ap_inFlightRequests p"
  "ap_inFlightBytes (dequeue req i p) = ap_inFlightBytes p"
  "ap_scanRequests (dequeue req i p) = ap_scanRequests p"
  "ap_scanBytes (dequeue req i p) = ap_scanBytes p"
  by (simp_all add: dequeue_def adjustDirectQueue_def Let_def direct_one_def direct_bytes_def)


section \<open>Changing one call\<close>

text \<open>Every step but an arrival changes one call, and perhaps puts a token into another.\<close>

definition change :: "nat \<Rightarrow> admitter \<Rightarrow> admissionPool \<Rightarrow> nat option \<Rightarrow> admission_sys \<Rightarrow> admission_sys" where
  "change i c p w s = s\<lparr>as_pool := p, as_calls := send_token w ((as_calls s)[i := c])\<rparr>"

lemma send_token_nth:
  "ac_request (send_token w cs ! j) = ac_request (cs ! j)" "ac_phase (send_token w cs ! j) = ac_phase (cs ! j)"
  "ac_reservation (send_token w cs ! j) = ac_reservation (cs ! j)" "ac_token (cs ! j) \<Longrightarrow> ac_token (send_token w cs ! j)"
  "length (send_token w cs) = length cs" "j < length cs \<Longrightarrow> ac_token (send_token (Some j) cs ! j)"
  by (auto simp: send_token_def nth_update_if split: option.splits)

lemma send_token_map: "(\<And>c b. f (c\<lparr>ac_token := b\<rparr>) = f c) \<Longrightarrow> map f (send_token w cs) = map f cs"
  by (cases w) (auto simp: send_token_def map_update intro!: nth_equalityI simp: nth_update_if)

lemma change_req: "ac_request c = sys_req s i \<Longrightarrow> sys_req (change i c p w s) = sys_req s"
  by (rule ext) (simp add: sys_req_def change_def send_token_nth nth_update_if)

lemma held_ignores:
  "held_request (c\<lparr>ac_token := b\<rparr>) = held_request c" "held_bytes (c\<lparr>ac_token := b\<rparr>) = held_bytes c"
  "held_scan (c\<lparr>ac_token := b\<rparr>) = held_scan c" "held_scan_bytes (c\<lparr>ac_token := b\<rparr>) = held_scan_bytes c"
  by (simp_all add: held_request_def held_bytes_def held_scan_def held_scan_bytes_def)

lemma change_held:
  assumes "i < length (as_calls s)" "\<And>c b. f (c\<lparr>ac_token := b\<rparr>) = f c"
  shows "held_sum f (change i c p w s) = held_sum f s - f (as_calls s ! i) + f c"
  using assms by (simp add: held_sum_def change_def send_token_map sum_list_update_int)

lemma change_waiting:
  "ac_request c = sys_req s i \<Longrightarrow> waiting_sum f (change i c p w s) = sum_list (map (\<lambda>j. f (sys_req s j)) (ap_waiters p))"
  by (simp add: waiting_sum_def change_req) (simp add: change_def)

lemma change_pool [simp]: "as_pool (change i c p w s) = p"
  by (simp add: change_def)

lemma change_call:
  "j < length (as_calls s) \<Longrightarrow> ac_phase (as_calls (change i c p w s) ! j) = (if j = i then ac_phase c else ac_phase (as_calls s ! j))"
  "length (as_calls (change i c p w s)) = length (as_calls s)"
  by (auto simp: change_def send_token_nth nth_update_if)

lemma change_calls_ok:
  assumes "\<forall>x \<in> set (as_calls s). call_ok x" "call_ok c"
  shows "\<forall>x \<in> set (as_calls (change i c p w s)). call_ok x"
proof -
  have "call_ok ((as_calls s)[i := c] ! j)" if "j < length (as_calls s)" for j
    using assms that by (simp add: nth_update_if)
  then show ?thesis by (auto simp: change_def in_set_conv_nth send_token_nth call_ok_def)
qed

definition same_limits :: "admissionPool \<Rightarrow> admissionPool \<Rightarrow> bool" where
  "same_limits p p' \<longleftrightarrow> ap_maxInFlightRequests p' = ap_maxInFlightRequests p \<and> ap_maxInFlightBytes p' = ap_maxInFlightBytes p \<and>
     ap_maxScanRequests p' = ap_maxScanRequests p \<and> ap_maxScanBytes p' = ap_maxScanBytes p \<and>
     ap_maxQueuedRequests p' = ap_maxQueuedRequests p \<and> ap_maxQueuedBytes p' = ap_maxQueuedBytes p"

lemma change_queue_ok:
  assumes q: "queue_ok s" and i: "i < length (as_calls s)" and c: "ac_request c = sys_req s i" and lim: "same_limits (as_pool s) p"
    and w: "distinct (ap_waiters p)" "set (ap_waiters p) \<subseteq> insert i (set (ap_waiters (as_pool s)))"
      "set (ap_waiters (as_pool s)) - {i} \<subseteq> set (ap_waiters p)"
    and own: "i \<in> set (ap_waiters p) \<Longrightarrow> ac_phase c \<in> {Trying, Waiting} \<and> ar_wait (sys_req s i) \<and> admissionCanFit (as_pool s) (sys_req s i)"
    and waits: "ac_phase c = Waiting \<Longrightarrow> i \<in> set (ap_waiters p)" and pos: "call_ok c"
  shows "queue_ok (change i c p wk s)"
proof -
  have fit: "admissionCanFit p r = admissionCanFit (as_pool s) r" for r using lim by (simp add: admissionCanFit_def same_limits_def)
  have "\<forall>x \<in> set (as_calls (change i c p wk s)). call_ok x"
    using q pos by (intro change_calls_ok) (auto simp: queue_ok_def)
  moreover have "\<forall>j \<in> set (ap_waiters p). j < length (as_calls s) \<and> ac_phase (as_calls (change i c p wk s) ! j) \<in> {Trying, Waiting} \<and>
      ar_wait (sys_req s j) \<and> admissionCanFit p (sys_req s j)"
  proof
    fix j assume j: "j \<in> set (ap_waiters p)"
    show "j < length (as_calls s) \<and> ac_phase (as_calls (change i c p wk s) ! j) \<in> {Trying, Waiting} \<and> ar_wait (sys_req s j) \<and> admissionCanFit p (sys_req s j)"
    proof (cases "j = i")
      case True
      then show ?thesis using own j i by (simp add: change_call fit)
    next
      case False
      then have "j \<in> set (ap_waiters (as_pool s))" using w(2) j by blast
      then have "j < length (as_calls s)" "ac_phase (as_calls s ! j) \<in> {Trying, Waiting}" "ar_wait (sys_req s j)" "admissionCanFit (as_pool s) (sys_req s j)"
        using q by (auto simp: queue_ok_def)
      then show ?thesis using False by (simp add: change_call fit)
    qed
  qed
  moreover have "\<forall>j < length (as_calls s). ac_phase (as_calls (change i c p wk s) ! j) = Waiting \<longrightarrow> j \<in> set (ap_waiters p)"
    using q w(3) waits by (auto simp: queue_ok_def change_call)
  ultimately show ?thesis using w(1) unfolding queue_ok_def change_req[OF c] change_call(2) change_pool by blast
qed

lemma change_wake_ok:
  assumes "queue_ok s" "wake_ok s" "i < length (as_calls s)" "ac_request c = sys_req s i" "set (ap_waiters p) \<subseteq> {..<length (as_calls s)}"
    and "wk = wakeAdmissionWaiter (sys_req s) p \<or>
      (\<forall>j. wakeAdmissionWaiter (sys_req s) p = Some j \<longrightarrow>
         j \<noteq> i \<and> wakeAdmissionWaiter (sys_req s) (as_pool s) = Some j \<or> j = i \<and> (ac_token c \<or> ac_phase c = Trying))"
  shows "wake_ok (change i c p wk s)"
  unfolding wake_ok_def change_req[OF assms(4)] change_pool
proof (intro allI impI)
  fix j assume j: "wakeAdmissionWaiter (sys_req s) p = Some j"
  then have len: "j < length (as_calls s)" using wake_loop_Some assms(5) by (fastforce simp: wakeAdmissionWaiter_def)
  show "ac_token (as_calls (change i c p wk s) ! j) \<or> ac_phase (as_calls (change i c p wk s) ! j) = Trying"
  proof (cases "wk = Some j")
    case True
    then show ?thesis using len by (simp add: change_def send_token_nth)
  next
    case False
    then consider "j \<noteq> i" "wakeAdmissionWaiter (sys_req s) (as_pool s) = Some j" | "j = i" "ac_token c \<or> ac_phase c = Trying"
      using assms(6) j by auto
    then show ?thesis
    proof cases
      case 1
      then have "ac_token (as_calls s ! j) \<or> ac_phase (as_calls s ! j) = Trying" using assms(2) by (simp add: wake_ok_def)
      then show ?thesis using 1(1) len by (auto simp: change_def send_token_nth nth_update_if)
    next
      case 2
      then show ?thesis using len assms(3) by (auto simp: change_def send_token_nth nth_update_if)
    qed
  qed
qed


lemmas change_sums = change_held[OF _ held_ignores(1)] change_held[OF _ held_ignores(2)] change_held[OF _ held_ignores(3)]
  change_held[OF _ held_ignores(4)]

lemma change_sums_ok:
  assumes "sums_ok s" "i < length (as_calls s)" "ac_request c = sys_req s i"
    and "ap_inFlightRequests p = ap_inFlightRequests (as_pool s) - held_request (as_calls s ! i) + held_request c"
    and "ap_inFlightBytes p = ap_inFlightBytes (as_pool s) - held_bytes (as_calls s ! i) + held_bytes c"
    and "ap_scanRequests p = ap_scanRequests (as_pool s) - held_scan (as_calls s ! i) + held_scan c"
    and "ap_scanBytes p = ap_scanBytes (as_pool s) - held_scan_bytes (as_calls s ! i) + held_scan_bytes c"
    and "ap_queuedRequests p = sum_list (map (\<lambda>j. direct_one (sys_req s j)) (ap_waiters p))"
    and "ap_queuedBytes p = sum_list (map (\<lambda>j. direct_bytes (sys_req s j)) (ap_waiters p))"
  shows "sums_ok (change i c p wk s)"
  using assms by (simp add: sums_ok_def change_sums change_waiting)

definition admission_inv :: "admission_sys \<Rightarrow> bool" where
  "admission_inv s \<longleftrightarrow> queue_ok s \<and> sums_ok s \<and> limits_ok s \<and> wake_ok s"

lemma waiters_remove:
  assumes "i \<in> set (ap_waiters (as_pool s))"
  shows "sum_list (map (\<lambda>j. f (sys_req s j)) (remove1 i (ap_waiters (as_pool s)))) = waiting_sum f s - f (sys_req s i)"
  using sum_list_map_remove1[OF assms, of "\<lambda>j. f (sys_req s j)"] by (simp add: waiting_sum_def)

lemma queue_members: "queue_ok s \<Longrightarrow> set (ap_waiters (as_pool s)) \<subseteq> {..<length (as_calls s)}"
  by (auto simp: queue_ok_def)

lemma call_at: "queue_ok s \<Longrightarrow> i < length (as_calls s) \<Longrightarrow> call_ok (as_calls s ! i)"
  by (simp add: queue_ok_def)

lemma req_nonneg: "queue_ok s \<Longrightarrow> i < length (as_calls s) \<Longrightarrow> 0 \<le> ar_encodedBytes (sys_req s i) \<and> 0 \<le> ar_inputBytes (sys_req s i)"
  using call_at[of s i] by (simp add: sys_req_def call_ok_def)

lemma weights_nonneg: "0 \<le> direct_one r" "0 \<le> scan_one r" "0 \<le> ar_inputBytes r \<Longrightarrow> 0 \<le> direct_bytes r" "0 \<le> ar_encodedBytes r \<Longrightarrow> 0 \<le> scan_bytes r"
  by (simp_all add: direct_one_def scan_one_def direct_bytes_def scan_bytes_def)

lemma slots_free:
  assumes "\<not> admissionSlotsFull (as_pool s) r" "limits_ok s"
  shows "ap_inFlightRequests (as_pool s) < ap_maxInFlightRequests (as_pool s) \<and>
    ap_scanRequests (as_pool s) + scan_one r \<le> ap_maxScanRequests (as_pool s) \<and> ap_scanBytes (as_pool s) + scan_bytes r \<le> ap_maxScanBytes (as_pool s)"
  using assms by (auto simp: admissionSlotsFull_def limits_ok_def Let_def scan_one_def scan_bytes_def)

text \<open>A call that is granted its request.\<close>

lemma granted_inv:
  assumes inv: "admission_inv s" and i: "i < length (as_calls s)" "ac_phase (as_calls s ! i) = Trying"
    and t: "admit_try (sys_req s) i (i \<in> set (ap_waiters (as_pool s))) (as_pool s) = (AdmitGranted, p, w)"
  shows "admission_inv (change i ((as_calls s ! i)\<lparr>ac_phase := Admitted\<rparr>) p w s)"
proof -
  let ?r = "sys_req s i" and ?c = "(as_calls s ! i)\<lparr>ac_phase := Admitted\<rparr>" and ?in = "i \<in> set (ap_waiters (as_pool s))"
  have q: "queue_ok s" and sm: "sums_ok s" and lm: "limits_ok s" and wk: "wake_ok s" using inv by (auto simp: admission_inv_def)
  note g = admit_try_granted[OF t]
  have p: "p = (if ?in then dequeue (sys_req s) i (admission_charge ?r (as_pool s)) else admission_charge ?r (as_pool s))"
    and w: "?in \<Longrightarrow> w = wakeAdmissionWaiter (sys_req s) p" "\<not> ?in \<Longrightarrow> w = None"
    using g(4) by (auto simp: remove_waiter split: if_splits)
  have c: "ac_request ?c = ?r" by (simp add: sys_req_def)
  have ok: "call_ok (as_calls s ! i)" using call_at[OF q i(1)] .
  have ws: "ap_waiters p = (if ?in then remove1 i (ap_waiters (as_pool s)) else ap_waiters (as_pool s))" by (simp add: p)
  have d: "distinct (ap_waiters (as_pool s))" using q by (simp add: queue_ok_def)
  have sub: "set (ap_waiters p) = set (ap_waiters (as_pool s)) - {i}" using d by (simp add: ws)
  have "queue_ok (change i ?c p w s)"
    using d sub ok by (intro change_queue_ok[OF q i(1) c]) (auto simp: same_limits_def p call_ok_def ws)
  moreover have "sums_ok (change i ?c p w s)"
    using sm ok i(2) by (intro change_sums_ok[OF sm i(1) c])
      (auto simp: p sums_ok_def held_request_def held_bytes_def held_scan_def held_scan_bytes_def scan_one_def scan_bytes_def
        call_ok_def sys_req_def[symmetric] waiters_remove waiting_sum_def[symmetric])
  moreover have "limits_ok (change i ?c p w s)"
    using lm slots_free[OF g(1) lm] g(2) req_nonneg[OF q i(1)] weights_nonneg[of ?r]
    by (auto simp: limits_ok_def Let_def change_waiting[OF c] p bytes_full_def waiters_remove waiting_sum_def[symmetric])
  moreover have "wake_ok (change i ?c p w s)"
  proof (intro change_wake_ok[OF q wk i(1) c])
    show "set (ap_waiters p) \<subseteq> {..<length (as_calls s)}" using sub queue_members[OF q] by auto
    have "wakeAdmissionWaiter (sys_req s) p = None" if "\<not> ?in"
    proof -
      have all: "takeWhile (\<lambda>e. e \<noteq> i) (ap_waiters (as_pool s)) = ap_waiters (as_pool s)" using that by (auto simp: takeWhile_eq_all_conv)
      have "\<not> list_ex (\<lambda>e. \<not> admissionSlotsFull (as_pool s) (sys_req s e)) (ap_waiters (as_pool s))"
        using g(3)[unfolded earlier_eligible_def all] .
      then have "\<not> list_ex (\<lambda>e. \<not> admissionSlotsFull p (sys_req s e)) (ap_waiters p)"
        using that weights_nonneg[of ?r] req_nonneg[OF q i(1)] by (auto simp: p list_ex_iff admissionSlotsFull_def)
      then show ?thesis unfolding wakeAdmissionWaiter_def by (rule wake_loop_none)
    qed
    then show "w = wakeAdmissionWaiter (sys_req s) p \<or> (\<forall>j. wakeAdmissionWaiter (sys_req s) p = Some j \<longrightarrow>
        j \<noteq> i \<and> wakeAdmissionWaiter (sys_req s) (as_pool s) = Some j \<or> j = i \<and> (ac_token ?c \<or> ac_phase ?c = Trying))"
      using w by (cases ?in) auto
  qed
  ultimately show ?thesis by (simp add: admission_inv_def)
qed


text \<open>A call that starts or goes on waiting.\<close>

lemma scan_room:
  assumes "ar_scan r \<longrightarrow> \<not> scanWaitQueueFull (sys_req s) (as_pool s) r" "limits_ok s"
  shows "waiting_sum scan_one s + scan_one r \<le> ap_maxScanRequests (as_pool s) \<and>
    waiting_sum scan_bytes s + scan_bytes r \<le> ap_maxScanBytes (as_pool s)"
proof -
  have "sum_list (map (\<lambda>i. scan_one (req i)) ws) = int (length (filter (\<lambda>i. ar_scan (req i)) ws))"
    "sum_list (map (\<lambda>i. scan_bytes (req i)) ws) = sum_list (map (\<lambda>i. ar_encodedBytes (req i)) (filter (\<lambda>i. ar_scan (req i)) ws))"
    for ws and req :: "nat \<Rightarrow> admissionRequest"
    by (induction ws) (auto simp: scan_one_def scan_bytes_def)
  then show ?thesis
    using assms by (auto simp: scanWaitQueueFull_def limits_ok_def waiting_sum_def Let_def scan_one_def[of r] scan_bytes_def[of r])
qed

lemma direct_room:
  assumes "ar_direct r \<longrightarrow> \<not> directWaitQueueFull (as_pool s) r" "limits_ok s"
  shows "ap_queuedRequests (as_pool s) + direct_one r \<le> ap_maxQueuedRequests (as_pool s) \<and>
    ap_queuedBytes (as_pool s) + direct_bytes r \<le> ap_maxQueuedBytes (as_pool s)"
  using assms by (auto simp: directWaitQueueFull_def limits_ok_def Let_def direct_one_def direct_bytes_def)

lemma waits_inv:
  assumes inv: "admission_inv s" and i: "i < length (as_calls s)" "ac_phase (as_calls s ! i) = Trying"
    and t: "admit_try (sys_req s) i (i \<in> set (ap_waiters (as_pool s))) (as_pool s) = (AdmitWait, p, w)"
  shows "admission_inv (change i ((as_calls s ! i)\<lparr>ac_phase := Waiting\<rparr>) p None s)"
proof -
  let ?r = "sys_req s i" and ?c = "(as_calls s ! i)\<lparr>ac_phase := Waiting\<rparr>" and ?in = "i \<in> set (ap_waiters (as_pool s))"
  have q: "queue_ok s" and sm: "sums_ok s" and lm: "limits_ok s" and wk: "wake_ok s" using inv by (auto simp: admission_inv_def)
  note g = admit_try_wait[OF t]
  have p: "p = (if ?in then as_pool s else admission_enqueue (sys_req s) i (as_pool s))" using g(5) by (auto split: if_splits)
  have c: "ac_request ?c = ?r" by (simp add: sys_req_def)
  have ok: "call_ok (as_calls s ! i)" using call_at[OF q i(1)] .
  have d: "distinct (ap_waiters (as_pool s))" using q by (simp add: queue_ok_def)
  have ws: "ap_waiters p = (if ?in then ap_waiters (as_pool s) else ap_waiters (as_pool s) @ [i])" by (simp add: p)
  have "queue_ok (change i ?c p None s)"
    using d ok g(3,4) i(2) by (intro change_queue_ok[OF q i(1) c]) (auto simp: same_limits_def p call_ok_def)
  moreover have "sums_ok (change i ?c p None s)"
    using sm ok i(2) by (intro change_sums_ok[OF sm i(1) c])
      (auto simp: p sums_ok_def held_request_def held_bytes_def held_scan_def held_scan_bytes_def waiting_sum_def)
  moreover have "limits_ok (change i ?c p None s)"
  proof (cases ?in)
    case True
    then have "waiting_sum f (change i ?c p None s) = waiting_sum f s" for f
      by (simp only: change_waiting[OF c]) (simp add: p waiting_sum_def)
    then show ?thesis using lm True by (simp add: limits_ok_def Let_def p)
  next
    case False
    then have "waiting_sum f (change i ?c p None s) = waiting_sum f s + f ?r" for f
      by (simp only: change_waiting[OF c]) (simp add: p waiting_sum_def)
    then show ?thesis using lm scan_room[OF _ lm, of ?r] direct_room[OF _ lm, of ?r] g(5) False by (simp add: limits_ok_def Let_def p)
  qed
  moreover have "wake_ok (change i ?c p None s)"
  proof (intro change_wake_ok[OF q wk i(1) c])
    show "set (ap_waiters p) \<subseteq> {..<length (as_calls s)}" using ws queue_members[OF q] i(1) by auto
    have "j \<noteq> i \<and> wakeAdmissionWaiter (sys_req s) (as_pool s) = Some j" if j: "wakeAdmissionWaiter (sys_req s) p = Some j" for j
    proof (cases ?in)
      case True
      then have j': "wakeAdmissionWaiter (sys_req s) (as_pool s) = Some j" using j p by simp
      then have "j \<noteq> i" using wake_loop_Some[of "sys_req s" "as_pool s" "ap_waiters (as_pool s)" j] g(1)
        by (auto simp: wakeAdmissionWaiter_def earlier_eligible_def)
      then show ?thesis using j' by simp
    next
      case False
      have all: "takeWhile (\<lambda>e. e \<noteq> i) (ap_waiters (as_pool s)) = ap_waiters (as_pool s)" using False by (auto simp: takeWhile_eq_all_conv)
      have full: "admissionSlotsFull p r = admissionSlotsFull (as_pool s) r" "bytes_full p r = bytes_full (as_pool s) r" for r
        using False by (simp_all add: p admissionSlotsFull_def bytes_full_def)
      have "wake_loop (sys_req s) p (ap_waiters (as_pool s)) = Some j"
        using wake_loop_snoc[of "sys_req s" p "ap_waiters (as_pool s)" i j] j False g(1) all
        by (auto simp: wakeAdmissionWaiter_def ws earlier_eligible_def full)
      moreover have "wake_loop (sys_req s) p (ap_waiters (as_pool s)) = wake_loop (sys_req s) (as_pool s) (ap_waiters (as_pool s))"
        using False by (intro wake_loop_cong full) (simp_all add: p)
      ultimately have "wake_loop (sys_req s) (as_pool s) (ap_waiters (as_pool s)) = Some j" by simp
      then show ?thesis using wake_loop_Some[of "sys_req s" "as_pool s" "ap_waiters (as_pool s)" j] False
        by (auto simp: wakeAdmissionWaiter_def)
    qed
    then show "None = wakeAdmissionWaiter (sys_req s) p \<or> (\<forall>j. wakeAdmissionWaiter (sys_req s) p = Some j \<longrightarrow>
        j \<noteq> i \<and> wakeAdmissionWaiter (sys_req s) (as_pool s) = Some j \<or> j = i \<and> (ac_token ?c \<or> ac_phase ?c = Trying))"
      by blast
  qed
  ultimately show ?thesis by (simp add: admission_inv_def)
qed


text \<open>A call that leaves, waiting or not.\<close>

lemma leaves_inv:
  assumes inv: "admission_inv s" and i: "i < length (as_calls s)" "ac_phase (as_calls s ! i) \<in> {Trying, Waiting}"
    and t: "removeAdmissionWaiter (sys_req s) i (as_pool s) = (p, w)"
  shows "admission_inv (change i ((as_calls s ! i)\<lparr>ac_phase := Gone\<rparr>) p w s)"
proof -
  let ?r = "sys_req s i" and ?c = "(as_calls s ! i)\<lparr>ac_phase := Gone\<rparr>" and ?in = "i \<in> set (ap_waiters (as_pool s))"
  have q: "queue_ok s" and sm: "sums_ok s" and lm: "limits_ok s" and wk: "wake_ok s" using inv by (auto simp: admission_inv_def)
  have p: "p = (if ?in then dequeue (sys_req s) i (as_pool s) else as_pool s)"
    and w: "w = (if ?in then wakeAdmissionWaiter (sys_req s) p else None)"
    using t by (auto simp: remove_waiter split: if_splits)
  have c: "ac_request ?c = ?r" by (simp add: sys_req_def)
  have ok: "call_ok (as_calls s ! i)" using call_at[OF q i(1)] .
  have d: "distinct (ap_waiters (as_pool s))" using q by (simp add: queue_ok_def)
  have sub: "set (ap_waiters p) = set (ap_waiters (as_pool s)) - {i}" using d by (simp add: p)
  have "queue_ok (change i ?c p w s)"
    using d sub ok by (intro change_queue_ok[OF q i(1) c]) (auto simp: same_limits_def p call_ok_def)
  moreover have "sums_ok (change i ?c p w s)"
    using sm i(2) by (intro change_sums_ok[OF sm i(1) c])
      (auto simp: p sums_ok_def held_request_def held_bytes_def held_scan_def held_scan_bytes_def waiters_remove waiting_sum_def[symmetric])
  moreover have "limits_ok (change i ?c p w s)"
    using lm req_nonneg[OF q i(1)] weights_nonneg[of ?r]
    by (auto simp: limits_ok_def Let_def change_waiting[OF c] p waiters_remove waiting_sum_def[symmetric])
  moreover have "wake_ok (change i ?c p w s)"
  proof (intro change_wake_ok[OF q wk i(1) c])
    show "set (ap_waiters p) \<subseteq> {..<length (as_calls s)}" using sub queue_members[OF q] by auto
    show "w = wakeAdmissionWaiter (sys_req s) p \<or> (\<forall>j. wakeAdmissionWaiter (sys_req s) p = Some j \<longrightarrow>
        j \<noteq> i \<and> wakeAdmissionWaiter (sys_req s) (as_pool s) = Some j \<or> j = i \<and> (ac_token ?c \<or> ac_phase ?c = Trying))"
      using wake_loop_Some[of "sys_req s" "as_pool s" "ap_waiters (as_pool s)"]
      by (cases ?in) (auto simp: w p wakeAdmissionWaiter_def)
  qed
  ultimately show ?thesis by (simp add: admission_inv_def)
qed

text \<open>A call that gives back or regains bytes, or returns.\<close>

lemma held_change_inv:
  assumes inv: "admission_inv s" and i: "i < length (as_calls s)" and c: "ac_request c = sys_req s i"
    and phase: "ac_phase (as_calls s ! i) = Admitted" "ac_phase c \<in> {Admitted, Gone}" "0 \<le> rv_bytes (ac_reservation c)"
    and lim: "same_limits (as_pool s) p" "ap_waiters p = ap_waiters (as_pool s)"
    and held: "ap_inFlightRequests p = ap_inFlightRequests (as_pool s) - held_request (as_calls s ! i) + held_request c"
      "ap_inFlightBytes p = ap_inFlightBytes (as_pool s) - held_bytes (as_calls s ! i) + held_bytes c"
      "ap_scanRequests p = ap_scanRequests (as_pool s) - held_scan (as_calls s ! i) + held_scan c"
      "ap_scanBytes p = ap_scanBytes (as_pool s) - held_scan_bytes (as_calls s ! i) + held_scan_bytes c"
      "ap_queuedRequests p = ap_queuedRequests (as_pool s)" "ap_queuedBytes p = ap_queuedBytes (as_pool s)"
    and fits: "ap_inFlightBytes p \<le> ap_maxInFlightBytes p"
    and wake: "w = wakeAdmissionWaiter (sys_req s) p \<or> wakeAdmissionWaiter (sys_req s) p = None \<or> p = as_pool s"
  shows "admission_inv (change i c p w s)"
proof -
  have q: "queue_ok s" and sm: "sums_ok s" and lm: "limits_ok s" and wk: "wake_ok s" using inv by (auto simp: admission_inv_def)
  have ok: "call_ok (as_calls s ! i)" using call_at[OF q i(1)] .
  have ni: "i \<notin> set (ap_waiters (as_pool s))" using q phase(1) by (auto simp: queue_ok_def)
  have same: "sys_req s i = ac_request (as_calls s ! i)" by (simp add: sys_req_def)
  have "queue_ok (change i c p w s)"
    using q ok ni phase(2,3) lim c same by (intro change_queue_ok[OF q i(1) c]) (auto simp: call_ok_def queue_ok_def)
  moreover have "sums_ok (change i c p w s)"
    using sm held lim(2) by (intro change_sums_ok[OF sm i(1) c]) (auto simp: sums_ok_def waiting_sum_def)
  moreover have "limits_ok (change i c p w s)"
  proof -
    have "held_request c \<le> held_request (as_calls s ! i)" "held_scan c \<le> held_scan (as_calls s ! i)"
      "held_scan_bytes c \<le> held_scan_bytes (as_calls s ! i)"
      using phase c same ok by (auto simp: held_request_def held_scan_def held_scan_bytes_def call_ok_def)
    then show ?thesis using lm held fits lim
      by (auto simp: limits_ok_def Let_def change_waiting[OF c] waiting_sum_def[symmetric] same_limits_def)
  qed
  moreover have "wake_ok (change i c p w s)"
  proof (intro change_wake_ok[OF q wk i(1) c])
    show "set (ap_waiters p) \<subseteq> {..<length (as_calls s)}" using lim(2) queue_members[OF q] by auto
    show "w = wakeAdmissionWaiter (sys_req s) p \<or> (\<forall>j. wakeAdmissionWaiter (sys_req s) p = Some j \<longrightarrow>
        j \<noteq> i \<and> wakeAdmissionWaiter (sys_req s) (as_pool s) = Some j \<or> j = i \<and> (ac_token c \<or> ac_phase c = Trying))"
      using wake ni wake_loop_Some[of "sys_req s" "as_pool s" "ap_waiters (as_pool s)"] by (auto simp: wakeAdmissionWaiter_def)
  qed
  ultimately show ?thesis by (simp add: admission_inv_def)
qed

lemma resized_inv:
  assumes inv: "admission_inv s" and i: "i < length (as_calls s)" "ac_phase (as_calls s ! i) = Admitted" "ar_reserved (sys_req s i)"
    and t: "resize (sys_req s) bytes (ac_reservation (as_calls s ! i)) (as_pool s) = (e, v, p, w)"
  shows "admission_inv (change i ((as_calls s ! i)\<lparr>ac_reservation := v\<rparr>) p w s)"
proof -
  let ?v = "ac_reservation (as_calls s ! i)" and ?c = "(as_calls s ! i)\<lparr>ac_reservation := v\<rparr>"
  have q: "queue_ok s" and lm: "limits_ok s" using inv by (auto simp: admission_inv_def)
  have ok: "call_ok (as_calls s ! i)" using call_at[OF q i(1)] .
  have same: "sys_req s i = ac_request (as_calls s ! i)" by (simp add: sys_req_def)
  show ?thesis
  proof (cases "p = as_pool s \<and> v = ?v")
    case True
    then show ?thesis using i ok lm same
      by (intro held_change_inv[OF inv]) (auto simp: call_ok_def same_limits_def limits_ok_def Let_def held_request_def held_bytes_def held_scan_def held_scan_bytes_def)
  next
    case False
    let ?d = "bytes - rv_bytes ?v" and ?p = "as_pool s"
    have p: "p = ?p\<lparr>ap_inFlightBytes := ap_inFlightBytes ?p + ?d\<rparr>" and v: "v = ?v\<lparr>rv_bytes := bytes\<rparr>" and nn: "0 \<le> bytes" "?d \<noteq> 0"
      and w: "w = (if ?d < 0 then wakeAdmissionWaiter (sys_req s) p else None)"
      and grow: "?d > 0 \<Longrightarrow> ?d \<le> ap_maxInFlightBytes ?p - ap_inFlightBytes ?p \<and> \<not> list_ex (\<lambda>i. \<not> admissionSlotsFull ?p (sys_req s i)) (ap_waiters ?p)"
      using t False by (auto simp: resize_def Let_def split: if_splits)
    have slots: "admissionSlotsFull p = admissionSlotsFull ?p" by (rule ext) (simp add: p admissionSlotsFull_def)
    have ws: "ap_waiters p = ap_waiters ?p" by (simp add: p)
    have "wakeAdmissionWaiter (sys_req s) p = None" if "?d > 0"
      unfolding wakeAdmissionWaiter_def ws by (rule wake_loop_none) (use grow that in \<open>simp add: slots\<close>)
    then have wake: "w = wakeAdmissionWaiter (sys_req s) p \<or> wakeAdmissionWaiter (sys_req s) p = None \<or> p = ?p"
      using w nn(2) by (cases "?d < 0") auto
    have "ap_inFlightBytes p \<le> ap_maxInFlightBytes p"
      using lm grow nn by (cases "?d > 0") (auto simp: p limits_ok_def Let_def)
    then show ?thesis using i nn same wake
      by (intro held_change_inv[OF inv i(1)]) (auto simp: p v same_limits_def held_request_def held_bytes_def held_scan_def held_scan_bytes_def)
  qed
qed

lemma released_inv:
  assumes inv: "admission_inv s" and i: "i < length (as_calls s)" "ac_phase (as_calls s ! i) = Admitted"
    and t: "admission_release (sys_req s) (sys_req s i) (ac_reservation (as_calls s ! i)) (as_pool s) = (v, p, w)"
  shows "admission_inv (change i ((as_calls s ! i)\<lparr>ac_reservation := v, ac_phase := Gone\<rparr>) p w s)"
proof -
  have q: "queue_ok s" and lm: "limits_ok s" using inv by (auto simp: admission_inv_def)
  have ok: "call_ok (as_calls s ! i)" using call_at[OF q i(1)] .
  have same: "sys_req s i = ac_request (as_calls s ! i)" by (simp add: sys_req_def)
  show ?thesis
    using i ok lm same t
    by (intro held_change_inv[OF inv i(1)])
      (auto simp: admission_release_def Let_def call_ok_def same_limits_def limits_ok_def held_request_def held_bytes_def held_scan_def held_scan_bytes_def
        split: if_splits)
qed


section \<open>Reachable states\<close>

lemma arrive_inv:
  assumes inv: "admission_inv s" and r: "0 \<le> ar_encodedBytes r" "0 \<le> ar_inputBytes r"
  shows "admission_inv (s\<lparr>as_calls := as_calls s @ [\<lparr>ac_request = r, ac_phase = Trying, ac_token = False, ac_reservation = granted_reservation r\<rparr>]\<rparr>)"
proof -
  let ?s = "s\<lparr>as_calls := as_calls s @ [\<lparr>ac_request = r, ac_phase = Trying, ac_token = False, ac_reservation = granted_reservation r\<rparr>]\<rparr>"
  have q: "queue_ok s" and sm: "sums_ok s" and lm: "limits_ok s" and wk: "wake_ok s" using inv by (auto simp: admission_inv_def)
  have req: "i < length (as_calls s) \<Longrightarrow> sys_req ?s i = sys_req s i" for i by (simp add: sys_req_def nth_append)
  have ws: "\<And>f. waiting_sum f ?s = waiting_sum f s"
    using q req by (auto simp: waiting_sum_def queue_ok_def intro!: arg_cong[where f = sum_list] map_cong)
  have "queue_ok ?s" using q r req by (auto simp: queue_ok_def call_ok_def granted_reservation_def nth_append less_Suc_eq)
  moreover have "sums_ok ?s" using sm ws by (simp add: sums_ok_def held_sum_def held_request_def held_bytes_def held_scan_def held_scan_bytes_def)
  moreover have "limits_ok ?s" using lm ws by (simp add: limits_ok_def Let_def)
  moreover have "wake_ok ?s"
  proof -
    have "wakeAdmissionWaiter (sys_req ?s) (as_pool s) = wakeAdmissionWaiter (sys_req s) (as_pool s)"
      unfolding wakeAdmissionWaiter_def using q req by (intro wake_loop_cong) (auto simp: queue_ok_def)
    then show ?thesis using wk q wake_loop_Some[of "sys_req s" "as_pool s" "ap_waiters (as_pool s)"]
      by (auto simp: wake_ok_def nth_append wakeAdmissionWaiter_def queue_ok_def)
  qed
  ultimately show ?thesis by (simp add: admission_inv_def)
qed

lemma woken_inv:
  assumes inv: "admission_inv s" and i: "i < length (as_calls s)" "ac_phase (as_calls s ! i) = Waiting"
  shows "admission_inv (change i ((as_calls s ! i)\<lparr>ac_phase := Trying, ac_token := False\<rparr>) (as_pool s) None s)"
proof -
  let ?c = "(as_calls s ! i)\<lparr>ac_phase := Trying, ac_token := False\<rparr>" and ?s = "change i ((as_calls s ! i)\<lparr>ac_phase := Trying, ac_token := False\<rparr>) (as_pool s) None s"
  have q: "queue_ok s" and sm: "sums_ok s" and lm: "limits_ok s" and wk: "wake_ok s" using inv by (auto simp: admission_inv_def)
  have c: "ac_request ?c = sys_req s i" by (simp add: sys_req_def)
  have ok: "call_ok (as_calls s ! i)" using call_at[OF q i(1)] .
  have "queue_ok ?s" using q ok i by (intro change_queue_ok[OF q i(1) c]) (auto simp: same_limits_def call_ok_def queue_ok_def)
  moreover have "sums_ok ?s"
    using sm i by (intro change_sums_ok[OF sm i(1) c]) (auto simp: sums_ok_def waiting_sum_def held_request_def held_bytes_def held_scan_def held_scan_bytes_def)
  moreover have "limits_ok ?s" using lm by (simp add: limits_ok_def Let_def change_waiting[OF c] waiting_sum_def[symmetric])
  moreover have "wake_ok ?s"
    using queue_members[OF q] by (intro change_wake_ok[OF q wk i(1) c]) (auto simp: wakeAdmissionWaiter_def)
  ultimately show ?thesis by (simp add: admission_inv_def)
qed

lemma change_phase: "s\<lparr>as_pool := p, as_calls := send_token w (set_phase i ph (as_calls s))\<rparr> = change i ((as_calls s ! i)\<lparr>ac_phase := ph\<rparr>) p w s"
  "s\<lparr>as_pool := p, as_calls := set_phase i ph (as_calls s)\<rparr> = change i ((as_calls s ! i)\<lparr>ac_phase := ph\<rparr>) p None s"
  "s\<lparr>as_calls := (as_calls s)[i := c]\<rparr> = change i c (as_pool s) None s"
  "s\<lparr>as_pool := p, as_calls := send_token w ((as_calls s)[i := c])\<rparr> = change i c p w s"
  by (simp_all add: change_def set_phase_def send_token_def)

lemma rejected_outside:
  assumes "admission_inv s" "admit_try (sys_req s) i (i \<in> set (ap_waiters (as_pool s))) (as_pool s) = (AdmitReject e, p, w)"
  shows "removeAdmissionWaiter (sys_req s) i (as_pool s) = (p, None)"
  using admit_try_reject[OF assms(2)] assms(1) by (auto simp: remove_waiter admission_inv_def queue_ok_def)

lemma admission_inv_step:
  assumes "admission_step s s'" "admission_inv s"
  shows "admission_inv s'"
  using assms(1)
proof (cases rule: admission_step.cases)
  case (arrive r)
  then show ?thesis using arrive_inv[OF assms(2)] by simp
next
  case (granted i p w)
  then show ?thesis using granted_inv[OF assms(2)] by (simp add: change_phase)
next
  case (waits i p w)
  then show ?thesis using waits_inv[OF assms(2)] by (simp add: change_phase)
next
  case (rejected i e p w)
  then show ?thesis using leaves_inv[OF assms(2) _ _ rejected_outside[OF assms(2)]] by (simp add: change_phase)
next
  case (woken i)
  then show ?thesis using woken_inv[OF assms(2)] by (simp add: change_phase)
next
  case (leaves i p w)
  then show ?thesis using leaves_inv[OF assms(2), of i p w] by (auto simp: change_phase)
next
  case (resized i bytes e v p w)
  then show ?thesis using resized_inv[OF assms(2)] by (simp add: change_phase)
next
  case (released i v p w)
  then show ?thesis using released_inv[OF assms(2)] by (simp add: change_phase set_phase_def)
qed


definition idle_pool :: "admissionPool \<Rightarrow> bool" where
  "idle_pool p \<longleftrightarrow> ap_waiters p = [] \<and> ap_inFlightRequests p = 0 \<and> ap_inFlightBytes p = 0 \<and> ap_scanRequests p = 0 \<and> ap_scanBytes p = 0 \<and>
     ap_queuedRequests p = 0 \<and> ap_queuedBytes p = 0 \<and> 0 < ap_maxInFlightRequests p \<and> 0 < ap_maxInFlightBytes p \<and> 0 \<le> ap_maxScanRequests p \<and>
     0 \<le> ap_maxScanBytes p \<and> 0 \<le> ap_maxQueuedRequests p \<and> 0 \<le> ap_maxQueuedBytes p"

lemma or_default_pos: "0 \<le> x \<Longrightarrow> 0 < d \<Longrightarrow> 0 < or_default x d"
  by (simp add: or_default_def)

lemma defaults_positive:
  assumes "0 \<le> so_maxInFlightRequests opts" "0 \<le> so_maxInFlightBytes opts" "0 \<le> so_maxAdmissionRequests opts" "0 \<le> so_maxAdmissionBytes opts"
    "0 \<le> so_maxPublishRequests opts" "0 \<le> so_maxPublishBytes opts" "0 \<le> so_maxScanRequests opts" "0 \<le> so_maxScanBytes opts"
  shows "0 < so_maxInFlightRequests (service_defaults opts)" "0 < so_maxInFlightBytes (service_defaults opts)"
    "0 < so_maxAdmissionRequests (service_defaults opts)" "0 < so_maxAdmissionBytes (service_defaults opts)"
    "0 < so_maxPublishRequests (service_defaults opts)" "0 < so_maxPublishBytes (service_defaults opts)"
    "0 < so_maxScanRequests (service_defaults opts)" "0 < so_maxScanBytes (service_defaults opts)"
  using assms by (simp_all add: service_defaults_def Let_def or_default_pos)

lemma service_New_Inr:
  assumes "service_New opts = Inr sl"
  shows "sl_execution sl = empty_pool\<lparr>ap_name := ''execution'', ap_requestTimeout := so_requestTimeout (service_defaults opts),
      ap_maxInFlightRequests := so_maxInFlightRequests (service_defaults opts), ap_maxInFlightBytes := so_maxInFlightBytes (service_defaults opts),
      ap_maxScanRequests := so_maxScanRequests (service_defaults opts), ap_maxScanBytes := so_maxScanBytes (service_defaults opts),
      ap_scanAdmissionWait := so_scanAdmissionWait (service_defaults opts), ap_maxQueuedRequests := so_maxAdmissionRequests (service_defaults opts),
      ap_maxQueuedBytes := so_maxAdmissionBytes (service_defaults opts), ap_admissionWait := so_admissionWait (service_defaults opts)\<rparr>"
    "sl_publish sl = empty_pool\<lparr>ap_name := ''publish'', ap_requestTimeout := so_requestTimeout (service_defaults opts),
      ap_maxInFlightRequests := so_maxPublishRequests (service_defaults opts), ap_maxInFlightBytes := so_maxPublishBytes (service_defaults opts)\<rparr>"
    "0 \<le> so_maxInFlightRequests opts" "0 \<le> so_maxInFlightBytes opts" "0 \<le> so_maxAdmissionRequests opts" "0 \<le> so_maxAdmissionBytes opts"
    "0 \<le> so_maxPublishRequests opts" "0 \<le> so_maxPublishBytes opts" "0 \<le> so_maxScanRequests opts" "0 \<le> so_maxScanBytes opts"
  using assms unfolding service_New_def Let_def by (auto simp: not_less split: if_split_asm)

lemma start_idle: "service_New opts = Inr sl \<Longrightarrow> p = sl_execution sl \<or> p = sl_publish sl \<Longrightarrow> idle_pool p"
  using service_New_Inr[of opts sl] defaults_positive[of opts] by (elim disjE) (simp_all add: idle_pool_def empty_pool_def)

lemma idle_inv: "idle_pool p \<Longrightarrow> admission_inv \<lparr>as_pool = p, as_calls = []\<rparr>"
  by (simp add: idle_pool_def admission_inv_def queue_ok_def sums_ok_def limits_ok_def wake_ok_def waiting_sum_def held_sum_def wakeAdmissionWaiter_def)

lemma remove_keeps_limit: "removeAdmissionWaiter req i p = (p', w) \<Longrightarrow> ap_maxInFlightRequests p' = ap_maxInFlightRequests p"
  by (auto simp: removeAdmissionWaiter_def Let_def adjustDirectQueue_def split: if_splits)

lemma try_keeps_limit: "admit_try req i q p = (out, p', w) \<Longrightarrow> ap_maxInFlightRequests p' = ap_maxInFlightRequests p"
  by (auto simp: admit_try_def Let_def admission_enqueue_def adjustDirectQueue_def admission_charge_def
      split: if_splits prod.splits dest!: remove_keeps_limit)

lemma step_keeps_limit: "admission_step s s' \<Longrightarrow> ap_maxInFlightRequests (as_pool s') = ap_maxInFlightRequests (as_pool s)"
  by (induction rule: admission_step.induct)
    (auto simp: resize_def admission_release_def Let_def split: if_splits dest!: try_keeps_limit remove_keeps_limit)

lemma admission_reach_inv: "admission_reach opts s \<Longrightarrow> admission_inv s \<and> 0 < ap_maxInFlightRequests (as_pool s)"
  by (induction rule: admission_reach.induct) (auto simp: step_keeps_limit intro: admission_inv_step idle_inv start_idle dest: start_idle simp: idle_pool_def)

text \<open>
  C26: In every reachable state of an admission pool the counters are exactly the sums over the admitted
  and the waiting calls, and requests, bytes, scans and both waiting queues are within their limits.
\<close>

theorem admission_within_limits:
  assumes "admission_reach opts s"
  shows "sums_ok s \<and> limits_ok s"
  using admission_reach_inv[OF assms] by (simp add: admission_inv_def)

lemma idle_sums: "\<forall>c \<in> set (as_calls s). ac_phase c \<noteq> Admitted \<Longrightarrow>
    held_sum held_request s = 0 \<and> held_sum held_bytes s = 0 \<and> held_sum held_scan s = 0 \<and> held_sum held_scan_bytes s = 0"
  by (simp add: held_sum_def held_request_def held_bytes_def held_scan_def held_scan_bytes_def cong: map_cong)

definition demo_options :: service_options where
  "demo_options =
     \<lparr>so_boundStore = ''main'', so_hasStorage = True, so_hasLua = True, so_maxOperations = 0, so_maxMergeAttempts = 0,
      so_requestTimeout = 0, so_maxInFlightRequests = 1, so_maxInFlightBytes = 100,
      so_maxAdmissionRequests = 2, so_maxAdmissionBytes = 50, so_admissionWait = 0, so_maxPublishRequests = 0,
      so_maxPublishBytes = 0, so_maxReadBytes = 0, so_maxScanRequests = 0, so_maxScanBytes = 0, so_scanAdmissionWait = 0\<rparr>"

definition demo_call :: admitter where
  "demo_call = (let r = \<lparr>ar_encodedBytes = 60, ar_resultBytes = 0, ar_sharedInput = False, ar_stores = [], ar_wait = True, ar_scan = False,
      ar_publish = False, ar_reserved = True, ar_inputBytes = 20, ar_direct = True\<rparr>
    in \<lparr>ac_request = r, ac_phase = Trying, ac_token = False, ac_reservation = granted_reservation r\<rparr>)"

definition demo_pool :: admissionPool where
  "demo_pool = (case service_New demo_options of Inr sl \<Rightarrow> sl_execution sl | Inl _ \<Rightarrow> empty_pool)"

lemma demo_service: "service_New demo_options \<noteq> Inl e"
  by (simp add: demo_options_def service_New_def service_defaults_def or_default_def Let_def second_def)

lemma demo_start: "admission_reach demo_options \<lparr>as_pool = demo_pool, as_calls = []\<rparr>"
  using demo_service by (cases "service_New demo_options") (auto intro: admission_reach.start simp: demo_pool_def)

text \<open>
  C27: No wake-up is lost. When no call of a reachable pool is in flight, the first waiting call is at
  the head of its loop or has a token, and its next pass through the critical section admits it.
\<close>

theorem admission_no_lost_wakeup:
  assumes r: "admission_reach opts s" and idle: "\<forall>c \<in> set (as_calls s). ac_phase c \<noteq> Admitted"
    and first: "ap_waiters (as_pool s) = i # rest"
  shows "(ac_phase (as_calls s ! i) = Trying \<or> ac_token (as_calls s ! i)) \<and>
    (\<exists>p w. admit_try (sys_req s) i True (as_pool s) = (AdmitGranted, p, w))"
proof -
  let ?p = "as_pool s" and ?r = "sys_req s i"
  have q: "queue_ok s" and sm: "sums_ok s" and lm: "limits_ok s" and wk: "wake_ok s" and pos: "0 < ap_maxInFlightRequests ?p"
    using admission_reach_inv[OF r] by (auto simp: admission_inv_def)
  have fit: "admissionCanFit ?p ?r" and nn: "0 \<le> scan_one (sys_req s j)" for j using q first by (auto simp: queue_ok_def weights_nonneg)
  have "scan_one ?r \<le> waiting_sum scan_one s" using nn by (auto simp: waiting_sum_def first intro!: sum_list_nonneg)
  then have scan: "ar_scan ?r \<Longrightarrow> 0 < ap_maxScanRequests ?p" using lm by (simp add: limits_ok_def Let_def scan_one_def)
  have free: "\<not> admissionSlotsFull ?p ?r" "\<not> bytes_full ?p ?r"
    using sm idle_sums[OF idle] fit pos scan by (auto simp: admissionSlotsFull_def bytes_full_def sums_ok_def admissionCanFit_def)
  then have "wakeAdmissionWaiter (sys_req s) ?p = Some i" by (simp add: wakeAdmissionWaiter_def first bytes_full_def)
  then have "ac_phase (as_calls s ! i) = Trying \<or> ac_token (as_calls s ! i)" using wk by (auto simp: wake_ok_def)
  moreover have "\<exists>p w. admit_try (sys_req s) i True ?p = (AdmitGranted, p, w)"
    using free by (auto simp: admit_try_def Let_def earlier_eligible_def first split: prod.splits)
  ultimately show ?thesis by simp
qed


definition demo_sys :: "admissionPool \<Rightarrow> admit_phase \<Rightarrow> admit_phase \<Rightarrow> admission_sys" where
  "demo_sys p a b = \<lparr>as_pool = p, as_calls = [demo_call\<lparr>ac_phase := a\<rparr>, demo_call\<lparr>ac_phase := b\<rparr>]\<rparr>"

definition demo_charged :: admissionPool where
  "demo_charged = demo_pool\<lparr>ap_inFlightRequests := 1, ap_inFlightBytes := 60\<rparr>"

definition demo_queued :: admissionPool where
  "demo_queued = demo_charged\<lparr>ap_waiters := [1], ap_queuedRequests := 1, ap_queuedBytes := 20\<rparr>"

definition demo_freed :: admission_sys where
  "demo_freed =
     \<lparr>as_pool = demo_queued\<lparr>ap_inFlightRequests := 0, ap_inFlightBytes := 0\<rparr>,
      as_calls = [demo_call\<lparr>ac_phase := Gone, ac_reservation := (ac_reservation demo_call)\<lparr>rv_released := True\<rparr>\<rparr>,
                  demo_call\<lparr>ac_phase := Waiting, ac_token := True\<rparr>]\<rparr>"

lemmas demo_unfold = demo_options_def service_New_def service_defaults_def or_default_def Let_def second_def demo_pool_def demo_charged_def
  demo_queued_def demo_call_def demo_sys_def demo_freed_def empty_pool_def sys_req_def admit_try_def admissionSlotsFull_def bytes_full_def
  earlier_eligible_def admissionCanFit_def directWaitQueueFull_def admission_enqueue_def adjustDirectQueue_def admission_charge_def
  admission_release_def wakeAdmissionWaiter_def granted_reservation_def send_token_def set_phase_def

lemma demo_steps:
  "admission_step \<lparr>as_pool = demo_pool, as_calls = []\<rparr> \<lparr>as_pool = demo_pool, as_calls = [demo_call]\<rparr>"
  "admission_step \<lparr>as_pool = demo_pool, as_calls = [demo_call]\<rparr> (demo_sys demo_pool Trying Trying)"
  "admission_step (demo_sys demo_pool Trying Trying) (demo_sys demo_charged Admitted Trying)"
  "admission_step (demo_sys demo_charged Admitted Trying) (demo_sys demo_queued Admitted Waiting)"
  "admission_step (demo_sys demo_queued Admitted Waiting) demo_freed"
proof -
  show "admission_step \<lparr>as_pool = demo_pool, as_calls = []\<rparr> \<lparr>as_pool = demo_pool, as_calls = [demo_call]\<rparr>"
    using arrive[of "ac_request demo_call" "\<lparr>as_pool = demo_pool, as_calls = []\<rparr>"] by (simp add: demo_unfold)
  show "admission_step \<lparr>as_pool = demo_pool, as_calls = [demo_call]\<rparr> (demo_sys demo_pool Trying Trying)"
    using arrive[of "ac_request demo_call" "\<lparr>as_pool = demo_pool, as_calls = [demo_call]\<rparr>"] by (simp add: demo_unfold)
  show "admission_step (demo_sys demo_pool Trying Trying) (demo_sys demo_charged Admitted Trying)"
    using granted[of 0 "demo_sys demo_pool Trying Trying" demo_charged None] by (simp add: demo_unfold)
  show "admission_step (demo_sys demo_charged Admitted Trying) (demo_sys demo_queued Admitted Waiting)"
    using waits[of 1 "demo_sys demo_charged Admitted Trying" demo_queued None] by (simp add: demo_unfold)
  show "admission_step (demo_sys demo_queued Admitted Waiting) demo_freed"
    using released[of 0 "demo_sys demo_queued Admitted Waiting" "(ac_reservation demo_call)\<lparr>rv_released := True\<rparr>" "as_pool demo_freed" "Some 1"]
    by (simp add: demo_unfold)
qed

lemma demo_freed_reach: "admission_reach demo_options demo_freed"
  by (rule admission_reach.step[OF admission_reach.step[OF admission_reach.step[OF admission_reach.step[OF admission_reach.step[OF
    demo_start demo_steps(1)] demo_steps(2)] demo_steps(3)] demo_steps(4)] demo_steps(5)])

theorem admission_within_limits_witness: "sums_ok demo_freed \<and> limits_ok demo_freed"
  using admission_within_limits[OF demo_freed_reach] .

theorem admission_no_lost_wakeup_witness:
  "ap_waiters (as_pool demo_freed) = [1] \<and> (\<exists>p w. admit_try (sys_req demo_freed) 1 True (as_pool demo_freed) = (AdmitGranted, p, w))"
  using admission_no_lost_wakeup[OF demo_freed_reach, of 1 "[]"] by (simp add: demo_freed_def demo_queued_def)

end
