(* ===== verification/Read_Path.thy ===== *)
theory Read_Path
  imports Write_Path Admission
begin

text \<open>
  Reading records: \<open>src/internal/service/read.go\<close>, and the coalesced reads of
  \<open>src/internal/service/batching_server.go\<close>. The environment record holds what lies outside: the URI
  parser, the storage, admission and the callers' memory scopes, the last three as functions on a
  world \<open>'w\<close>. A request is the list of its operations; a nil request has none.
\<close>

section \<open>One request\<close>

record 'w read_env =
  re_maxOperations :: int
  re_maxReadBytes :: int
  re_uri :: uri_parser
  re_batchKey :: "Address \<Rightarrow> string + string"
  re_sizeVT :: "ReadOperation list \<Rightarrow> int"
  re_admit :: "admissionRequest \<Rightarrow> 'w \<Rightarrow> (status + Tracker option \<times> bool) \<times> 'w"
  re_release :: "'w \<Rightarrow> 'w"
  re_read :: "readBudget \<Rightarrow> (Address \<times> readBudget) list \<Rightarrow> cells \<Rightarrow> 'w \<Rightarrow> (err + readResult list) \<times> cells \<times> 'w"
  re_grow :: "int \<Rightarrow> 'w \<Rightarrow> err option \<times> 'w"
  re_output :: "nat \<Rightarrow> int \<Rightarrow> 'w \<Rightarrow> err option \<times> 'w"

definition validateOperationCount :: "int \<Rightarrow> nat \<Rightarrow> status option" where
  "validateOperationCount maximum number =
     (if int number \<le> maximum then None
      else Some (status_error ResourceExhausted
        (''request contains '' @ dec number @ '' operations; maximum is '' @ dec (nat maximum))))"

definition read_admission :: "'w read_env \<Rightarrow> requestBudgets option \<Rightarrow> ReadOperation list \<Rightarrow> admissionRequest" where
  "read_admission env b ops =
     (let failures = failureResponseBytes (int (length ops)) in
      \<lparr>ar_encodedBytes = re_sizeVT env ops + failures + 2 * re_maxReadBytes env, ar_resultBytes = failures,
       ar_sharedInput = ownsInput b, ar_stores = operationStores (re_uri env) (map ro_address ops), ar_wait = (b \<noteq> None),
       ar_scan = False, ar_publish = False, ar_reserved = False,
       ar_inputBytes = re_sizeVT env ops + 128 * int (length ops), ar_direct = False\<rparr>)"

text \<open>The first loop of \<open>read\<close>: distinct records in order of appearance, with the callers that ask for each.\<close>

record read_plan =
  rp_results :: "ReadResult list"
  rp_addresses :: "Address list"
  rp_owners :: "nat list list"
  rp_indexes :: "(nat \<times> nat) list"
  rp_positions :: "recordIdentity \<rightharpoonup> nat"

definition empty_plan :: read_plan where
  "empty_plan = \<lparr>rp_results = [], rp_addresses = [], rp_owners = [], rp_indexes = [], rp_positions = Map.empty\<rparr>"

definition read_result :: "nat \<Rightarrow> ReadResult" where
  "read_result index =
     \<lparr>rres_index = word_of_nat index, rres_status = RS_UNSPECIFIED, rres_document = None, rres_revision = None, rres_failure = None\<rparr>"

definition storage_address :: "uri_parser \<Rightarrow> (Address \<Rightarrow> string + string) \<Rightarrow> RecordAddress option \<Rightarrow> string + Address" where
  "storage_address uri batchKey a =
     (case ParseAddress uri a of
        Inl e \<Rightarrow> Inl e
      | Inr address \<Rightarrow> (case batchKey address of Inl e \<Rightarrow> Inl e | Inr _ \<Rightarrow> Inr address))"

definition plan_read :: "'w read_env \<Rightarrow> requestBudgets option \<Rightarrow> nat \<times> ReadOperation \<Rightarrow> read_plan \<Rightarrow> read_plan" where
  "plan_read env b x p =
     (let (index, operation) = x; result = read_result index in
      case storage_address (re_uri env) (re_batchKey env) (ro_address operation) of
        Inl e \<Rightarrow> p\<lparr>rp_results := rp_results p @ [setReadFailure result FC_INVALID_ARGUMENT (Some (ErrText e)) False]\<rparr>
      | Inr address \<Rightarrow>
          (let key = ad_string address;
               (position, p1) =
                 (case rp_positions p key of
                    Some position \<Rightarrow> (position, p)
                  | None \<Rightarrow>
                      (length (rp_addresses p),
                       p\<lparr>rp_positions := (rp_positions p)(key \<mapsto> length (rp_addresses p)),
                         rp_addresses := rp_addresses p @ [address], rp_owners := rp_owners p @ [[]]\<rparr>))
           in p1\<lparr>rp_results := rp_results p1 @ [result],
                 rp_owners := (rp_owners p1)[position := rp_owners p1 ! position @ [owner b index]],
                 rp_indexes := rp_indexes p1 @ [(index, position)]\<rparr>))"

definition plan_reads :: "'w read_env \<Rightarrow> requestBudgets option \<Rightarrow> ReadOperation list \<Rightarrow> read_plan" where
  "plan_reads env b ops = fold (plan_read env b) (List.enumerate 0 ops) empty_plan"

record readOutcome =
  ro_results :: "ReadResult list"
  ro_deferred :: "bool list"

text \<open>The budgets of the storage operations: the callers' snapshot budgets, and the shared working set of a batch.\<close>

definition read_budgets ::
  "'w read_env \<Rightarrow> requestBudgets option \<Rightarrow> bool \<Rightarrow> read_plan \<Rightarrow> cells \<Rightarrow> (Address \<times> readBudget) list \<times> readBudget \<times> cells" where
  "read_budgets env b managed p cs =
     (let (snapshots, cs1) = fresh b Snapshots (re_maxReadBytes env) cs;
          working = length cs1;
          (_, cs2) = NewReadBudget (re_maxReadBytes env) cs1;
          operations = map (\<lambda>(address, owners).
            let budget = sharedSnapshotBudget owners snapshots;
                budget = (if 1 < callerCount b then NewWorkingSetReadBudget budget working else budget)
            in (address, WithMemoryBudget managed budget)) (zip (rp_addresses p) (rp_owners p));
          (request, cs3) = NewReadBudget (re_maxReadBytes env) cs2
      in (operations, request, cs3))"

definition defer_full :: "requestBudgets option \<Rightarrow> readResult list \<Rightarrow> (nat \<times> nat) list \<Rightarrow> bool list \<Rightarrow> bool list" where
  "defer_full b stored indexes deferred =
     fold (\<lambda>(index, position) d. if working_set_full (stored ! position) then d[owner b index := True] else d) indexes deferred"

text \<open>Charging the output copies of every caller.\<close>

fun charge_outputs ::
  "'w read_env \<Rightarrow> requestBudgets option \<Rightarrow> readResult list \<Rightarrow> bool list \<Rightarrow> readBudget list \<Rightarrow> (nat \<times> nat) list
     \<Rightarrow> ReadResult list \<Rightarrow> int list \<Rightarrow> cells \<Rightarrow> 'w \<Rightarrow> ReadResult list \<times> int list \<times> cells \<times> 'w" where
  "charge_outputs env b stored deferred outputs [] results outputBytes cs w = (results, outputBytes, cs, w)"
| "charge_outputs env b stored deferred outputs ((index, position) # rest) results outputBytes cs w =
     (let o' = owner b index; x = stored ! position; n = int (length (sd_payload (rr_document x))) in
      if deferred ! o' \<or> rr_status x \<noteq> ReadStatusFound
      then charge_outputs env b stored deferred outputs rest results outputBytes cs w
      else case Reserve (re_grow env) (re_grow env) (outputs ! o') n cs w of
        (Some e, cs1, w1) \<Rightarrow>
          (let (code, retryable) = storageFailureDetails (Some e)
           in charge_outputs env b stored deferred outputs rest
                (results[index := setReadFailure (results ! index) code (Some e) retryable]) outputBytes cs1 w1)
      | (None, cs1, w1) \<Rightarrow>
          charge_outputs env b stored deferred outputs rest results (outputBytes[o' := outputBytes ! o' + (n + 128)]) cs1 w1)"

text \<open>Callers whose copies do not fit beside those of the earlier callers are deferred.\<close>

fun defer_outputs :: "int \<Rightarrow> nat \<Rightarrow> int list \<Rightarrow> bool list \<Rightarrow> bool list" where
  "defer_outputs remaining o' [] deferred = deferred"
| "defer_outputs remaining o' (n # ns) deferred =
     (if n > remaining then defer_outputs remaining (Suc o') ns (deferred[o' := True])
      else defer_outputs (remaining - n) (Suc o') ns deferred)"

fun apply_reads ::
  "'w read_env \<Rightarrow> requestBudgets option \<Rightarrow> readResult list \<Rightarrow> bool list \<Rightarrow> (nat \<times> nat) list \<Rightarrow> ReadResult list \<Rightarrow> 'w
     \<Rightarrow> ReadResult list \<times> 'w" where
  "apply_reads env b stored deferred [] results w = (results, w)"
| "apply_reads env b stored deferred ((index, position) # rest) results w =
     (let result = results ! index; x = stored ! position in
      if deferred ! owner b index \<or> rres_status result \<noteq> RS_UNSPECIFIED
      then apply_reads env b stored deferred rest results w
      else
        let (e, w1) = (if rr_status x = ReadStatusFound
                       then budgets_output (re_output env) b (owner b index) (int (length (sd_payload (rr_document x))) + 128) w
                       else (None, w))
        in apply_reads env b stored deferred rest
             (results[index := (case e of Some e' \<Rightarrow> setReadFailure result FC_RESOURCE_EXHAUSTED (Some e') True
                                | None \<Rightarrow> applyReadResult result x)]) w1)"

text \<open>\<open>read\<close> from the storage call on.\<close>

definition read_records ::
  "'w read_env \<Rightarrow> requestBudgets option \<Rightarrow> bool \<Rightarrow> read_plan \<Rightarrow> cells \<Rightarrow> 'w \<Rightarrow> (status + readOutcome) \<times> cells \<times> 'w" where
  "read_records env b managed p cs w =
     (let (operations, request, cs1) = read_budgets env b managed p cs;
          (response, cs2, w1) = re_read env request operations cs1 w
      in case response of
           Inl e \<Rightarrow> (Inl (status_error Unavailable (''read records: '' @ error_text e)), cs2, w1)
         | Inr stored \<Rightarrow>
             if length stored \<noteq> length operations
             then (Inl (status_error Internal ''storage returned an invalid read result count''), cs2, w1)
             else
               let deferred1 = defer_full b stored (rp_indexes p) (replicate (callerCount b) False);
                   (outputs, cs3) = fresh b Outputs (re_maxReadBytes env) cs2;
                   (results1, outputBytes, cs4, w2) =
                     charge_outputs env b stored deferred1 outputs (rp_indexes p) (rp_results p) (replicate (callerCount b) 0) cs3 w1;
                   deferred2 = defer_outputs (re_maxReadBytes env) 0 outputBytes deferred1;
                   (results2, w3) = apply_reads env b stored deferred2 (rp_indexes p) results1 w2
               in (Inr \<lparr>ro_results = results2, ro_deferred = deferred2\<rparr>, cs4, w3))"

definition bound_read_failures :: "requestBudgets option \<Rightarrow> int \<Rightarrow> ReadResult list \<Rightarrow> ReadResult list" where
  "bound_read_failures b maximum results =
     map (\<lambda>(r, f). r\<lparr>rres_failure := f\<rparr>) (zip results (boundResultFailures (owner b) maximum (map rres_failure results)))"

definition server_read ::
  "'w read_env \<Rightarrow> ReadOperation list \<Rightarrow> requestBudgets option \<Rightarrow> cells \<Rightarrow> 'w \<Rightarrow> (status + readOutcome) \<times> cells \<times> 'w" where
  "server_read env ops budgets cs w =
     (if ops = [] then (Inl (status_error InvalidArgument ''read request must contain operations''), cs, w)
      else case validateOperationCount (re_maxOperations env) (length ops) of Some e \<Rightarrow> (Inl e, cs, w)
      | None \<Rightarrow>
        (case re_admit env (read_admission env budgets ops) w of
           (Inl e, w1) \<Rightarrow> (Inl e, cs, w1)
         | (Inr ctx, w1) \<Rightarrow>
             (let b = (case budgets of None \<Rightarrow> contextBudgets ctx (length ops) | Some _ \<Rightarrow> budgets);
                  p = plan_reads env b ops;
                  (outcome, cs1, w2) =
                    (if rp_addresses p = []
                     then (Inr \<lparr>ro_results = rp_results p, ro_deferred = replicate (callerCount b) False\<rparr>, cs, w1)
                     else read_records env b (snd ctx) p cs w1)
              in (map_sum id (\<lambda>o'. o'\<lparr>ro_results := bound_read_failures b (re_maxReadBytes env) (ro_results o')\<rparr>) outcome,
                  cs1, re_release env w2))))"

text \<open>\<open>Read\<close>: a request on its own, in a context.\<close>

definition server_Read ::
  "'w read_env \<Rightarrow> string \<Rightarrow> Tracker option \<times> bool \<Rightarrow> ReadOperation list \<Rightarrow> cells \<Rightarrow> 'w
     \<Rightarrow> (status + ReadResult list) \<times> cells \<times> 'w" where
  "server_Read env boundStore ctx ops cs w =
     (case CheckStore (re_uri env) (RpcRead ops) boundStore of
        Some e \<Rightarrow> (Inl e, cs, w)
      | None \<Rightarrow>
          (let (outcome, cs1, w1) = server_read env ops (contextBudgets ctx (length ops)) cs w
           in (map_sum id ro_results outcome, cs1, w1)))"

section \<open>Coalesced reads\<close>

text \<open>
  A call of the read batcher: its number, its operations and its context (tracker, memory scope).
  Completing a call is an event. \<open>xr_ctx\<close> asks whether a call's context has ended.
\<close>

record read_call =
  rc_id :: nat
  rc_operations :: "ReadOperation list"
  rc_ctx :: "Tracker option \<times> bool"

type_synonym read_event = "nat \<times> (status + ReadResult list)"

record 'w reads_env =
  xr_server :: "'w read_env"
  xr_byteLimit :: int
  xr_managed :: bool
  xr_ctx :: "nat \<Rightarrow> 'w \<Rightarrow> ctx_err option \<times> 'w"

text \<open>\<open>liveMutationCalls\<close>: calls whose context has ended are completed with its error.\<close>

fun live_calls :: "('c \<Rightarrow> 'w \<Rightarrow> ctx_err option \<times> 'w) \<Rightarrow> 'c list \<Rightarrow> 'w \<Rightarrow> 'c list \<times> ('c \<times> status) list \<times> 'w" where
  "live_calls ctx [] w = ([], [], w)"
| "live_calls ctx (c # calls) w =
     (let (e, w1) = ctx c w; (live, ended, w2) = live_calls ctx calls w1
      in case e of Some e' \<Rightarrow> (live, (c, fromContextError e') # ended, w2) | None \<Rightarrow> (c # live, ended, w2))"

text \<open>How many calls, from the front, fit in one execution; the first always does.\<close>

fun fitting :: "('c \<Rightarrow> int) \<Rightarrow> int \<Rightarrow> nat \<Rightarrow> int \<Rightarrow> 'c list \<Rightarrow> nat \<Rightarrow> nat" where
  "fitting cost byteLimit limit bytes [] n = n"
| "fitting cost byteLimit limit bytes (c # calls) n =
     (if n < limit then
        if 0 < n \<and> cost c > byteLimit - bytes then n
        else fitting cost byteLimit limit (bytes + cost c) calls (Suc n)
      else n)"

definition read_cost :: "'w reads_env \<Rightarrow> read_call \<Rightarrow> int" where
  "read_cost env c = re_sizeVT (xr_server env) (rc_operations c) + failureResponseBytes (int (length (rc_operations c)))"

definition group_budgets :: "read_call list \<Rightarrow> requestBudgets" where
  "group_budgets chosen = fold (\<lambda>c b. addContext (rc_ctx c) (length (rc_operations c)) b) chosen no_budgets"

definition totalReadOperations :: "read_call list \<Rightarrow> nat" where
  "totalReadOperations calls = sum_list (map (\<lambda>c. length (rc_operations c)) calls)"

definition reindex_reads :: "ReadResult list \<Rightarrow> ReadResult list" where
  "reindex_reads results = map (\<lambda>(k, r). r\<lparr>rres_index := word_of_nat k\<rparr>) (List.enumerate 0 results)"

fun split_reads :: "bool list \<Rightarrow> nat \<Rightarrow> read_call list \<Rightarrow> ReadResult list \<Rightarrow> read_event list \<times> read_call list" where
  "split_reads deferred o' [] results = ([], [])"
| "split_reads deferred o' (c # calls) results =
     (let number = length (rc_operations c);
          (events, later) = split_reads deferred (Suc o') calls (drop number results)
      in if deferred \<noteq> [] \<and> deferred ! o' then (events, c # later)
         else ((rc_id c, Inr (reindex_reads (take number results))) # events, later))"

definition splitReadResponse :: "read_call list \<Rightarrow> status + readOutcome \<Rightarrow> read_event list \<times> read_call list" where
  "splitReadResponse calls outcome =
     (case outcome of
        Inl e \<Rightarrow> (map (\<lambda>c. (rc_id c, Inl e)) calls, [])
      | Inr o' \<Rightarrow>
          if length (ro_results o') \<noteq> totalReadOperations calls \<or>
             length (ro_deferred o') \<noteq> 0 \<and> length (ro_deferred o') \<noteq> length calls
          then (map (\<lambda>c. (rc_id c, Inl (status_error Internal ''batched read returned an invalid result count''))) calls, [])
          else split_reads (ro_deferred o') 0 calls (ro_results o'))"

definition ended_reads :: "(read_call \<times> status) list \<Rightarrow> read_event list" where
  "ended_reads ended = map (\<lambda>(c, e). (rc_id c, Inl e)) ended"

text \<open>One pass of the loop of \<open>executeReads\<close>: the events, the calls that are left, and the limit of the next group.\<close>

definition read_pass ::
  "'w reads_env \<Rightarrow> nat \<Rightarrow> read_call list \<Rightarrow> cells \<Rightarrow> 'w \<Rightarrow> read_event list \<times> nat \<times> read_call list \<times> cells \<times> 'w" where
  "read_pass env limit calls cs w =
     (let bytes = (if xr_managed env then 0 else 2 * re_maxReadBytes (xr_server env));
          number = fitting (read_cost env) (xr_byteLimit env) (min limit (length calls)) bytes calls 0;
          (chosen, ended, w1) = live_calls (\<lambda>c. xr_ctx env (rc_id c)) (take number calls) w;
          later = drop number calls
      in if chosen = [] then (ended_reads ended, limit, later, cs, w1)
         else
           let (outcome, cs1, w2) =
                 server_read (xr_server env) (concat (map rc_operations chosen)) (Some (group_budgets chosen)) cs w1;
               (events, deferred) = splitReadResponse chosen outcome
           in (ended_reads ended @ events,
               if deferred \<noteq> [] then max 1 (length chosen - length deferred) else limit,
               deferred @ later, cs1, w2))"

partial_function (option) read_loop ::
  "'w reads_env \<Rightarrow> nat \<Rightarrow> read_call list \<Rightarrow> read_event list \<Rightarrow> cells \<Rightarrow> 'w \<Rightarrow> (read_event list \<times> cells \<times> 'w) option" where
  "read_loop env limit calls events cs w =
     (if calls = [] then Some (events, cs, w)
      else let (events', limit', calls', cs', w') = read_pass env limit calls cs w
           in read_loop env limit' calls' (events @ events') cs' w')"

definition executeReads :: "'w reads_env \<Rightarrow> read_call list \<Rightarrow> cells \<Rightarrow> 'w \<Rightarrow> (read_event list \<times> cells \<times> 'w) option" where
  "executeReads env calls cs w =
     (let (live, ended, w1) = live_calls (\<lambda>c. xr_ctx env (rc_id c)) calls w
      in read_loop env (length live) live (ended_reads ended) cs w1)"

end
