(* ===== verification/Read_Answers.thy ===== *)
theory Read_Answers
  imports Read_Path
begin

text \<open>
  What the read path promises: every answer comes from one state of the storage, the documents of an
  answer fit in the read limit, and the loop over coalesced reads ends with every call answered once.
\<close>

section \<open>The plan of a read\<close>

definition op_address :: "'w read_env \<Rightarrow> ReadOperation \<Rightarrow> string + Address" where
  "op_address env operation = storage_address (re_uri env) (re_batchKey env) (ro_address operation)"

definition planned_result :: "'w read_env \<Rightarrow> nat \<Rightarrow> ReadOperation \<Rightarrow> ReadResult" where
  "planned_result env i operation =
     (case op_address env operation of
        Inl e \<Rightarrow> setReadFailure (read_result i) FC_INVALID_ARGUMENT (Some (ErrText e)) False
      | Inr _ \<Rightarrow> read_result i)"

definition valid_ops :: "'w read_env \<Rightarrow> ReadOperation list \<Rightarrow> nat list" where
  "valid_ops env ops = filter (\<lambda>i. \<not> isl (op_address env (ops ! i))) [0..<length ops]"

definition plan_inv :: "'w read_env \<Rightarrow> requestBudgets option \<Rightarrow> ReadOperation list \<Rightarrow> read_plan \<Rightarrow> bool" where
  "plan_inv env b ops p \<longleftrightarrow>
     rp_results p = map (\<lambda>i. planned_result env i (ops ! i)) [0..<length ops] \<and>
     map fst (rp_indexes p) = valid_ops env ops \<and>
     list_all (\<lambda>(i, pos). pos < length (rp_addresses p) \<and> ad_string (rp_addresses p ! pos) = ad_string (projr (op_address env (ops ! i)))) (rp_indexes p) \<and>
     (\<forall>k q. rp_positions p k = Some q \<longrightarrow> q < length (rp_addresses p) \<and> ad_string (rp_addresses p ! q) = k) \<and>
     list_all (\<lambda>a. \<exists>op \<in> set ops. op_address env op = Inr a) (rp_addresses p) \<and>
     list_all2 (\<lambda>a os. os \<noteq> [] \<and> (\<forall>o' \<in> set os. \<exists>i < length ops. o' = owner b i)) (rp_addresses p) (rp_owners p)"

lemma plan_reads_snoc: "plan_reads env b (ops @ [op]) = plan_read env b (length ops, op) (plan_reads env b ops)"
  by (simp add: plan_reads_def enumerate_append_eq)

lemma valid_snoc: "valid_ops env (ops @ [op]) = valid_ops env ops @ (if isl (op_address env op) then [] else [length ops])"
  by (auto simp: valid_ops_def nth_append intro!: filter_cong)

lemma planned_snoc:
  "map (\<lambda>i. planned_result env i ((ops @ [op]) ! i)) [0..<length (ops @ [op])] =
     map (\<lambda>i. planned_result env i (ops ! i)) [0..<length ops] @ [planned_result env (length ops) op]"
  by (auto simp: nth_append intro!: map_cong)

lemma valid_less: "i \<in> set (valid_ops env ops) \<Longrightarrow> i < length ops"
  by (simp add: valid_ops_def)

lemma indexes_snoc:
  assumes "map fst xs = valid_ops env ops" "list_all (\<lambda>(i, pos). P pos (ops ! i)) xs"
  shows "list_all (\<lambda>(i, pos). P pos ((ops @ [op]) ! i)) xs"
proof -
  have "i < length ops" if "(i, pos) \<in> set xs" for i pos using that assms(1) valid_less[of i env ops] by (metis image_eqI fst_conv set_map)
  then show ?thesis using assms(2) by (fastforce simp: list_all_iff nth_append)
qed

lemma owners_later: "list_all2 (\<lambda>a os. os \<noteq> [] \<and> (\<forall>o' \<in> set os. \<exists>i < n. o' = owner b i)) xs ys \<Longrightarrow>
    list_all2 (\<lambda>a os. os \<noteq> [] \<and> (\<forall>o' \<in> set os. \<exists>i < Suc n. o' = owner b i)) xs ys"
  by (erule list_all2_mono) (meson less_SucI)

lemma plan_snoc:
  assumes inv: "plan_inv env b ops p"
  shows "plan_inv env b (ops @ [op]) (plan_read env b (length ops, op) p)"
proof (cases "op_address env op")
  case (Inl e)
  then have *: "plan_read env b (length ops, op) p = p\<lparr>rp_results := rp_results p @ [planned_result env (length ops) op]\<rparr>"
    by (simp add: plan_read_def op_address_def Let_def planned_result_def)
  have "list_all (\<lambda>(i, pos). pos < length (rp_addresses p) \<and> ad_string (rp_addresses p ! pos) = ad_string (projr (op_address env (ops ! i)))) (rp_indexes p)"
    using inv by (simp add: plan_inv_def)
  note idx = indexes_snoc[OF _ this, of env op]
  show ?thesis using inv idx Inl unfolding * plan_inv_def planned_snoc valid_snoc
    by (auto simp: list_all_iff intro: owners_later)
next
  case (Inr a)
  then have r: "planned_result env (length ops) op = read_result (length ops)" by (simp add: planned_result_def)
  show ?thesis
  proof (cases "rp_positions p (ad_string a)")
    case None
    let ?n = "length (rp_addresses p)"
    have len: "length (rp_owners p) = ?n" using inv by (auto simp: plan_inv_def list_all2_conv_all_nth)
    have *: "plan_read env b (length ops, op) p =
        p\<lparr>rp_positions := (rp_positions p)(ad_string a \<mapsto> ?n), rp_addresses := rp_addresses p @ [a],
          rp_results := rp_results p @ [read_result (length ops)], rp_owners := rp_owners p @ [[owner b (length ops)]],
          rp_indexes := rp_indexes p @ [(length ops, ?n)]\<rparr>"
      using Inr None len by (simp add: plan_read_def op_address_def Let_def list_update_append nth_append)
    have "list_all (\<lambda>(i, pos). pos < Suc ?n \<and> ad_string ((rp_addresses p @ [a]) ! pos) = ad_string (projr (op_address env (ops ! i)))) (rp_indexes p)"
      using inv by (auto simp: plan_inv_def list_all_iff nth_append)
    note idx = indexes_snoc[OF _ this, of env op]
    have "list_all2 (\<lambda>a os. os \<noteq> [] \<and> (\<forall>o' \<in> set os. \<exists>i < Suc (length ops). o' = owner b i)) (rp_addresses p @ [a])
        (rp_owners p @ [[owner b (length ops)]])"
      using inv owners_later[of "length ops" b "rp_addresses p" "rp_owners p"] by (auto simp: plan_inv_def intro!: list_all2_appendI)
    moreover have "\<forall>k q. ((rp_positions p)(ad_string a \<mapsto> ?n)) k = Some q \<longrightarrow> q < Suc ?n \<and> ad_string ((rp_addresses p @ [a]) ! q) = k"
      using inv by (auto simp: plan_inv_def nth_append less_SucI)
    moreover have "list_all (\<lambda>a'. \<exists>op \<in> set (ops @ [op]). op_address env op = Inr a') (rp_addresses p @ [a])"
      using inv Inr by (auto simp: plan_inv_def list_all_iff)
    moreover have "list_all (\<lambda>(i, pos). pos < Suc ?n \<and> ad_string ((rp_addresses p @ [a]) ! pos) = ad_string (projr (op_address env ((ops @ [op]) ! i))))
        (rp_indexes p @ [(length ops, ?n)])"
      using idx inv Inr by (simp add: plan_inv_def)
    ultimately show ?thesis using inv Inr unfolding * plan_inv_def planned_snoc valid_snoc r by simp
  next
    case (Some q)
    have len: "length (rp_owners p) = length (rp_addresses p)" and q: "q < length (rp_addresses p)" "ad_string (rp_addresses p ! q) = ad_string a"
      using inv Some by (auto simp: plan_inv_def list_all2_conv_all_nth)
    have *: "plan_read env b (length ops, op) p = p\<lparr>rp_results := rp_results p @ [read_result (length ops)],
        rp_owners := (rp_owners p)[q := rp_owners p ! q @ [owner b (length ops)]], rp_indexes := rp_indexes p @ [(length ops, q)]\<rparr>"
      using Inr Some by (simp add: plan_read_def op_address_def Let_def)
    have own: "list_all2 (\<lambda>a os. os \<noteq> [] \<and> (\<forall>o' \<in> set os. \<exists>i < Suc (length ops). o' = owner b i)) (rp_addresses p)
        ((rp_owners p)[q := rp_owners p ! q @ [owner b (length ops)]])"
      using inv owners_later[of "length ops" b "rp_addresses p" "rp_owners p"] q(1) len
      by (auto simp: plan_inv_def list_all2_conv_all_nth nth_list_update less_Suc_eq)
    have "list_all (\<lambda>(i, pos). pos < length (rp_addresses p) \<and> ad_string (rp_addresses p ! pos) = ad_string (projr (op_address env (ops ! i)))) (rp_indexes p)"
      using inv by (simp add: plan_inv_def)
    note idx = indexes_snoc[OF _ this, of env op]
    show ?thesis using inv idx own Inr q unfolding * plan_inv_def planned_snoc valid_snoc r by (auto simp: list_all_iff)
  qed
qed


lemma plan_reads_inv: "plan_inv env b ops (plan_reads env b ops)"
proof (induction ops rule: rev_induct)
  case Nil
  then show ?case by (simp add: plan_inv_def plan_reads_def empty_plan_def valid_ops_def)
qed (simp add: plan_reads_snoc plan_snoc)

section \<open>The answers of a read\<close>

definition read_bytes :: "readResult \<Rightarrow> int" where
  "read_bytes x = int (length (sd_payload (rr_document x))) + 128"

definition is_failed_from :: "ReadResult \<Rightarrow> ReadResult \<Rightarrow> bool" where
  "is_failed_from r r' \<longleftrightarrow> (\<exists>code e retryable. r' = setReadFailure r code (Some e) retryable)"

definition charged_bytes :: "requestBudgets option \<Rightarrow> readResult list \<Rightarrow> bool list \<Rightarrow> ReadResult list \<Rightarrow> nat \<Rightarrow> nat \<times> nat \<Rightarrow> int" where
  "charged_bytes b stored deferred results o' x =
     (if owner b (fst x) = o' \<and> \<not> deferred ! o' \<and> rr_status (stored ! snd x) = ReadStatusFound \<and> rres_status (results ! fst x) = RS_UNSPECIFIED
      then read_bytes (stored ! snd x) else 0)"

lemma charge_outputs_frame:
  "charge_outputs env b stored deferred outputs idx results ob cs w = (results', ob', cs', w') \<Longrightarrow>
     length results' = length results \<and> length ob' = length ob \<and> (\<forall>i. i \<notin> fst ` set idx \<longrightarrow> results' ! i = results ! i)"
  by (induction env b stored deferred outputs idx results ob cs w rule: charge_outputs.induct)
    (auto simp: Let_def split: if_splits prod.splits option.splits)

lemma charge_step:
  assumes "charge_outputs env b stored deferred outputs ((i, pos) # rest) results ob cs w = out"
  obtains
    (skip) "charge_outputs env b stored deferred outputs rest results ob cs w = out" "deferred ! owner b i \<or> rr_status (stored ! pos) \<noteq> ReadStatusFound"
  | (fail) code e retryable cs1 w1 where
      "charge_outputs env b stored deferred outputs rest (results[i := setReadFailure (results ! i) code (Some e) retryable]) ob cs1 w1 = out"
      "Reserve (re_grow env) (re_grow env) (outputs ! owner b i) (int (length (sd_payload (rr_document (stored ! pos))))) cs w = (Some e, cs1, w1)"
  | (charged) cs1 w1 where
      "charge_outputs env b stored deferred outputs rest results (ob[owner b i := ob ! owner b i + read_bytes (stored ! pos)]) cs1 w1 = out"
      "\<not> deferred ! owner b i" "rr_status (stored ! pos) = ReadStatusFound"
      "Reserve (re_grow env) (re_grow env) (outputs ! owner b i) (int (length (sd_payload (rr_document (stored ! pos))))) cs w = (None, cs1, w1)"
  using assms by (auto simp: Let_def read_bytes_def split: if_splits prod.splits option.splits)

lemma setReadFailure_status [simp]: "rres_status (setReadFailure r code e retryable) = RS_FAILED"
  by (simp add: setReadFailure_def)

lemma charge_outputs_results:
  "charge_outputs env b stored deferred outputs idx results ob cs w = (results', ob', cs', w') \<Longrightarrow> distinct (map fst idx) \<Longrightarrow>
     \<forall>i \<in> fst ` set idx. i < length results \<Longrightarrow> i \<in> fst ` set idx \<Longrightarrow> results' ! i = results ! i \<or> is_failed_from (results ! i) (results' ! i)"
proof (induction idx arbitrary: results ob cs w)
  case (Cons x rest)
  obtain j pos where x: "x = (j, pos)" by (cases x)
  have d: "j \<notin> fst ` set rest" "distinct (map fst rest)" "j < length results" "\<forall>i \<in> fst ` set rest. i < length results"
    and i: "i = j \<or> i \<noteq> j \<and> i \<in> fst ` set rest" using Cons.prems(2-4) x by auto
  from Cons.prems(1)[unfolded x] show ?case
  proof (cases rule: charge_step)
    case skip
    then show ?thesis using i d Cons.IH[OF skip(1) d(2)] charge_outputs_frame[OF skip(1)] by auto
  next
    case (fail code e retryable cs1 w1)
    have "is_failed_from (results ! j) (results' ! j)" using charge_outputs_frame[OF fail(1)] d(1,3) by (auto simp: is_failed_from_def)
    moreover have "i \<noteq> j \<Longrightarrow> i \<in> fst ` set rest \<Longrightarrow> results' ! i = results ! i \<or> is_failed_from (results ! i) (results' ! i)"
      using Cons.IH[OF fail(1) d(2)] d(4) by simp
    ultimately show ?thesis using i by blast
  next
    case (charged cs1 w1)
    then show ?thesis using i d Cons.IH[OF charged(1) d(2)] charge_outputs_frame[OF charged(1)] by auto
  qed
qed simp

lemma charged_cong:
  "fst x < length results \<Longrightarrow> results' ! fst x = results'' ! fst x \<Longrightarrow> charged_bytes b stored deferred results' o' x = charged_bytes b stored deferred results'' o' x"
  by (simp add: charged_bytes_def)

lemma charge_outputs_bytes:
  "charge_outputs env b stored deferred outputs idx results ob cs w = (results', ob', cs', w') \<Longrightarrow> distinct (map fst idx) \<Longrightarrow>
     \<forall>i \<in> fst ` set idx. i < length results \<and> rres_status (results ! i) = RS_UNSPECIFIED \<Longrightarrow> o' < length ob \<Longrightarrow>
     ob' ! o' = ob ! o' + sum_list (map (charged_bytes b stored deferred results' o') idx)"
proof (induction idx arbitrary: results ob cs w)
  case (Cons x rest)
  obtain j pos where x: "x = (j, pos)" by (cases x)
  have d: "j \<notin> fst ` set rest" "distinct (map fst rest)" "j < length results" "rres_status (results ! j) = RS_UNSPECIFIED"
      "\<forall>i \<in> fst ` set rest. i < length results \<and> rres_status (results ! i) = RS_UNSPECIFIED"
    using Cons.prems(2,3) x by auto
  from Cons.prems(1)[unfolded x] show ?case
  proof (cases rule: charge_step)
    case skip
    then show ?thesis using Cons.IH[OF skip(1) d(2,5) Cons.prems(4)] by (auto simp: x charged_bytes_def)
  next
    case (fail code e retryable cs1 w1)
    have "\<forall>i \<in> fst ` set rest. i < length (results[j := setReadFailure (results ! j) code (Some e) retryable]) \<and>
        rres_status (results[j := setReadFailure (results ! j) code (Some e) retryable] ! i) = RS_UNSPECIFIED"
    proof
      fix i assume i: "i \<in> fst ` set rest"
      then have "i \<noteq> j" using d(1) by blast
      then show "i < length (results[j := setReadFailure (results ! j) code (Some e) retryable]) \<and>
          rres_status (results[j := setReadFailure (results ! j) code (Some e) retryable] ! i) = RS_UNSPECIFIED" using bspec[OF d(5) i] by simp
    qed
    moreover have "results' ! j = setReadFailure (results ! j) code (Some e) retryable" using charge_outputs_frame[OF fail(1)] d(1,3) by simp
    ultimately show ?thesis using Cons.IH[OF fail(1) d(2)] Cons.prems(4) by (simp add: x charged_bytes_def)
  next
    case (charged cs1 w1)
    have "results' ! j = results ! j" using charge_outputs_frame[OF charged(1)] d(1) by simp
    then show ?thesis using Cons.IH[OF charged(1) d(2,5)] charged(2,3) d(4) Cons.prems(4)
      by (cases "owner b j = o'") (auto simp: x charged_bytes_def)
  qed
qed simp


text \<open>The only caller of a request never exceeds the output limit.\<close>

lemma charge_outputs_single:
  "charge_outputs env b stored deferred [Plain k] idx results [n] cs w = (results', ob', cs', w') \<Longrightarrow> \<forall>i \<in> fst ` set idx. owner b i = 0 \<Longrightarrow>
     k < length cs \<Longrightarrow> 0 \<le> rb_remaining (cs ! k) \<Longrightarrow> rb_remaining (cs ! k) + n \<le> m \<Longrightarrow> ob' ! 0 \<le> m"
proof (induction idx arbitrary: results n cs w)
  case (Cons x rest)
  obtain j pos where x: "x = (j, pos)" by (cases x)
  have o: "owner b j = 0" "\<forall>i \<in> fst ` set rest. owner b i = 0" using Cons.prems(2) x by auto
  from Cons.prems(1)[unfolded x] show ?case
  proof (cases rule: charge_step)
    case skip
    show ?thesis by (rule Cons.IH[OF skip(1) o(2) Cons.prems(3-5)])
  next
    case (fail code e retryable cs1 w1)
    then have "cs1 = cs" using o by (auto simp: reserve_cell_def Let_def split: if_splits)
    then show ?thesis using Cons.IH[OF fail(1) o(2)] Cons.prems(3-5) by simp
  next
    case (charged cs1 w1)
    let ?d = "int (length (sd_payload (rr_document (stored ! pos))))"
    have "rb_remaining (cs1 ! k) = rb_remaining (cs ! k) - (?d + 128)" "0 \<le> rb_remaining (cs1 ! k)" "length cs1 = length cs"
      using charged(4) o(1) Cons.prems(3) by (auto simp: reserve_cell_def Let_def overhead_def split: if_splits)
    then show ?thesis using Cons.IH[of results "n + read_bytes (stored ! pos)" cs1 w1] charged(1) o Cons.prems(3-5)
      by (simp add: read_bytes_def)
  qed
qed auto

lemma defer_outputs_frame:
  "length (defer_outputs remaining o' ns deferred) = length deferred \<and> (deferred ! i \<longrightarrow> i < length deferred \<longrightarrow> defer_outputs remaining o' ns deferred ! i) \<and>
     (i < o' \<longrightarrow> defer_outputs remaining o' ns deferred ! i = deferred ! i)"
  by (induction remaining o' ns deferred rule: defer_outputs.induct) (auto simp: nth_update_if)

lemma defer_outputs_sum:
  "0 \<le> remaining \<Longrightarrow> o' + length ns \<le> length deferred \<Longrightarrow> \<forall>n \<in> set ns. 0 \<le> n \<Longrightarrow>
     (\<Sum>i < length ns. if defer_outputs remaining o' ns deferred ! (o' + i) then 0 else ns ! i) \<le> remaining"
proof (induction remaining o' ns deferred rule: defer_outputs.induct)
  case (2 remaining o' n ns deferred)
  let ?d = "defer_outputs remaining o' (n # ns) deferred"
  have split: "(\<Sum>i < length (n # ns). if ?d ! (o' + i) then 0 else (n # ns) ! i) =
      (if ?d ! o' then 0 else n) + (\<Sum>i < length ns. if ?d ! (Suc o' + i) then 0 else ns ! i)"
    unfolding length_Cons sum.lessThan_Suc_shift by (simp del: defer_outputs.simps cong: if_cong)
  show ?case
  proof (cases "n > remaining")
    case True
    have "?d ! o'" using True 2(4) defer_outputs_frame[of remaining "Suc o'" ns "deferred[o' := True]" o'] by simp
    then show ?thesis unfolding split using 2(1)[OF True] 2(3-5) True by simp
  next
    case False
    then have "(\<Sum>i < length ns. if ?d ! (Suc o' + i) then 0 else ns ! i) \<le> remaining - n" using 2(2)[OF False] 2(3-5) by simp
    then show ?thesis unfolding split using 2(5) by simp
  qed
qed simp

lemma apply_step:
  assumes "apply_reads env b stored deferred ((i, pos) # rest) results w = out"
  obtains
    (skip) "apply_reads env b stored deferred rest results w = out" "deferred ! owner b i \<or> rres_status (results ! i) \<noteq> RS_UNSPECIFIED"
  | (set) r w1 where "apply_reads env b stored deferred rest (results[i := r]) w1 = out"
      "\<not> deferred ! owner b i" "rres_status (results ! i) = RS_UNSPECIFIED"
      "is_failed_from (results ! i) r \<or> r = applyReadResult (results ! i) (stored ! pos)"
proof (cases "deferred ! owner b i \<or> rres_status (results ! i) \<noteq> RS_UNSPECIFIED")
  case True
  then show thesis using assms by (intro skip) (auto simp: Let_def)
next
  case False
  obtain e w1 where e: "(if rr_status (stored ! pos) = ReadStatusFound
      then budgets_output (re_output env) b (owner b i) (int (length (sd_payload (rr_document (stored ! pos)))) + 128) w else (None, w)) = (e, w1)"
    by fastforce
  let ?r = "case e of Some e' \<Rightarrow> setReadFailure (results ! i) FC_RESOURCE_EXHAUSTED (Some e') True | None \<Rightarrow> applyReadResult (results ! i) (stored ! pos)"
  show thesis
  proof (rule set)
    show "apply_reads env b stored deferred rest (results[i := ?r]) w1 = out" using assms False e by (simp add: Let_def)
    show "is_failed_from (results ! i) ?r \<or> ?r = applyReadResult (results ! i) (stored ! pos)"
      by (cases e) (auto simp: is_failed_from_def)
  qed (use False in auto)
qed

lemma apply_reads_frame:
  "apply_reads env b stored deferred idx results w = (results', w') \<Longrightarrow>
     length results' = length results \<and> (\<forall>i. i \<notin> fst ` set idx \<longrightarrow> results' ! i = results ! i)"
proof (induction idx arbitrary: results w)
  case (Cons x rest)
  obtain j pos where x: "x = (j, pos)" by (cases x)
  from Cons.prems(1)[unfolded x] show ?case by (cases rule: apply_step) (use Cons.IH in \<open>fastforce simp: x\<close>)+
qed simp

definition answered_from :: "ReadResult \<Rightarrow> readResult \<Rightarrow> ReadResult \<Rightarrow> bool" where
  "answered_from r x r' \<longleftrightarrow> is_failed_from r r' \<or> r' = applyReadResult r x"

lemma apply_reads_results:
  "apply_reads env b stored deferred idx results w = (results', w') \<Longrightarrow> distinct (map fst idx) \<Longrightarrow> \<forall>i \<in> fst ` set idx. i < length results \<Longrightarrow>
     (i, pos) \<in> set idx \<Longrightarrow>
     (if deferred ! owner b i \<or> rres_status (results ! i) \<noteq> RS_UNSPECIFIED then results' ! i = results ! i
      else answered_from (results ! i) (stored ! pos) (results' ! i))"
proof (induction idx arbitrary: results w)
  case (Cons x rest)
  obtain j q where x: "x = (j, q)" by (cases x)
  have d: "j \<notin> fst ` set rest" "distinct (map fst rest)" "j < length results" "\<forall>i \<in> fst ` set rest. i < length results"
    and i: "i = j \<and> pos = q \<or> i \<noteq> j \<and> (i, pos) \<in> set rest" using Cons.prems(2-4) x by force+
  from Cons.prems(1)[unfolded x] show ?case
  proof (cases rule: apply_step)
    case skip
    then show ?thesis using i d Cons.IH[OF skip(1) d(2,4)] apply_reads_frame[OF skip(1)] by auto
  next
    case (set r w1)
    have "results' ! j = r" using apply_reads_frame[OF set(1)] d(1,3) by simp
    moreover have "\<forall>i \<in> fst ` set rest. i < length (results[j := r])" using d(4) by simp
    ultimately show ?thesis using i set(2-4) Cons.IH[OF set(1) d(2)] by (auto simp: answered_from_def)
  qed
qed simp


section \<open>One request\<close>

definition owners_fit :: "requestBudgets option \<Rightarrow> nat \<Rightarrow> bool" where
  "owners_fit b n \<longleftrightarrow> (\<forall>i < n. owner b i < callerCount b)"

text \<open>The parts of a successful \<open>read_records\<close>.\<close>

lemma read_records_parts:
  assumes "read_records env b managed p cs w = (Inr out, cs', w')"
  obtains operations request cs1 stored cs2 w1 outputs cs3 results1 ob cs4 w2 d1 where
    "read_budgets env b managed p cs = (operations, request, cs1)" "re_read env request operations cs1 w = (Inr stored, cs2, w1)"
    "length stored = length operations" "d1 = defer_full b stored (rp_indexes p) (replicate (callerCount b) False)"
    "fresh b Outputs (re_maxReadBytes env) cs2 = (outputs, cs3)"
    "charge_outputs env b stored d1 outputs (rp_indexes p) (rp_results p) (replicate (callerCount b) 0) cs3 w1 = (results1, ob, cs4, w2)"
    "ro_deferred out = defer_outputs (re_maxReadBytes env) 0 ob d1"
    "\<exists>w3. apply_reads env b stored (ro_deferred out) (rp_indexes p) results1 w2 = (ro_results out, w3)"
  using assms unfolding read_records_def Let_def
  by (auto split: prod.splits sum.splits if_splits)

lemma defer_full_length: "length (defer_full b stored idx d) = length d"
proof -
  have "length (fold (\<lambda>(index, position) d. if working_set_full (stored ! position) then d[owner b index := True] else d) idx d) = length d"
    by (induction idx arbitrary: d) (auto simp: split_def)
  then show ?thesis by (simp add: defer_full_def)
qed

lemma defer_full_none:
  assumes "\<forall>(i, pos) \<in> set idx. \<not> working_set_full (stored ! pos)"
  shows "defer_full b stored idx d = d"
  using assms unfolding defer_full_def by (induction idx arbitrary: d) (auto simp: split_def)

lemma read_budgets_parts:
  assumes "read_budgets env b managed p cs = (operations, request, cs1)" "length (rp_owners p) = length (rp_addresses p)"
  shows "map fst operations = rp_addresses p"
    "callerCount b = 1 \<Longrightarrow> \<forall>os \<in> set (rp_owners p). \<forall>o' \<in> set os. o' < callerCount b \<Longrightarrow> op \<in> set operations \<Longrightarrow> no_working (snd op)"
proof -
  obtain snapshots cs2 where f: "fresh b Snapshots (re_maxReadBytes env) cs = (snapshots, cs2)" by fastforce
  have pl: "length snapshots = callerCount b" "\<forall>x \<in> set snapshots. no_working x"
    using fresh_loop_plain[OF f[unfolded fresh_def]] by auto
  show "map fst operations = rp_addresses p"
    using assms by (auto simp: read_budgets_def f Let_def split_def o_def split: prod.splits)
  assume one: "callerCount b = 1" and own: "\<forall>os \<in> set (rp_owners p). \<forall>o' \<in> set os. o' < callerCount b" and op: "op \<in> set operations"
  from op assms one obtain a os where "op = (a, WithMemoryBudget managed (sharedSnapshotBudget os snapshots))" "(a, os) \<in> set (zip (rp_addresses p) (rp_owners p))"
    by (auto simp: read_budgets_def f Let_def split_def split: prod.splits)
  moreover from this(2) have "os \<in> set (rp_owners p)" by (rule set_zip_rightD)
  ultimately show "no_working (snd op)" using own pl shared_plain[of os snapshots] by (auto simp: WithMemoryBudget_def)
qed


text \<open>What a plan says of one operation with a valid address.\<close>

lemma plan_index:
  assumes "plan_inv env b ops p"
  shows "distinct (map fst (rp_indexes p))" "i \<in> fst ` set (rp_indexes p) \<longleftrightarrow> i < length ops \<and> \<not> isl (op_address env (ops ! i))"
    "length (rp_results p) = length ops" "i < length ops \<Longrightarrow> rp_results p ! i = planned_result env i (ops ! i)"
    "(i, pos) \<in> set (rp_indexes p) \<Longrightarrow> pos < length (rp_addresses p) \<and> ad_string (rp_addresses p ! pos) = ad_string (projr (op_address env (ops ! i)))"
    "i \<in> fst ` set (rp_indexes p) \<Longrightarrow> rp_results p ! i = read_result i"
proof -
  have m: "map fst (rp_indexes p) = valid_ops env ops" and res: "rp_results p = map (\<lambda>i. planned_result env i (ops ! i)) [0..<length ops]"
    using assms by (simp_all add: plan_inv_def)
  show "distinct (map fst (rp_indexes p))" unfolding m valid_ops_def by simp
  have "fst ` set (rp_indexes p) = set (valid_ops env ops)" unfolding m[symmetric] by simp
  then show v: "i \<in> fst ` set (rp_indexes p) \<longleftrightarrow> i < length ops \<and> \<not> isl (op_address env (ops ! i))" for i by (auto simp: valid_ops_def)
  show "length (rp_results p) = length ops" "i < length ops \<Longrightarrow> rp_results p ! i = planned_result env i (ops ! i)" by (simp_all add: res)
  show "(i, pos) \<in> set (rp_indexes p) \<Longrightarrow> pos < length (rp_addresses p) \<and> ad_string (rp_addresses p ! pos) = ad_string (projr (op_address env (ops ! i)))"
    using assms by (auto simp: plan_inv_def list_all_iff)
  show "i \<in> fst ` set (rp_indexes p) \<Longrightarrow> rp_results p ! i = read_result i"
    by (auto simp: v res planned_result_def split: sum.splits)
qed

lemma plan_empty: "plan_inv env b ops p \<Longrightarrow> rp_addresses p = [] \<Longrightarrow> rp_indexes p = []"
  by (cases "rp_indexes p") (auto simp: plan_inv_def)

lemma read_result_fields [simp]: "rres_status (read_result i) = RS_UNSPECIFIED" "rres_document (read_result i) = None" "rres_failure (read_result i) = None"
  by (simp_all add: read_result_def)

definition result_bytes :: "ReadResult \<Rightarrow> int" where
  "result_bytes r = (case rres_document r of None \<Rightarrow> 0 | Some d \<Rightarrow> int (length (d_payload d)) + 128)"

lemma failed_status: "is_failed_from r r' \<Longrightarrow> rres_status r' = RS_FAILED"
  by (auto simp: is_failed_from_def)

lemma failed_bytes: "is_failed_from r r' \<Longrightarrow> result_bytes r' = result_bytes r"
  by (auto simp: is_failed_from_def setReadFailure_def result_bytes_def)

lemma answered_bytes:
  assumes "answered_from r x r'" "rres_document r = None"
  shows "result_bytes r' \<le> (if rr_status x = ReadStatusFound then read_bytes x else 0)"
  using assms failed_bytes[of r r']
  by (auto simp: answered_from_def applyReadResult_def setReadFailure_def result_bytes_def read_bytes_def Let_def
      split: readStatus.splits storageEncoding.splits prod.splits)

text \<open>One operation of a read: a deferred one has no document, another one is answered from the storage's result.\<close>

lemma read_records_result:
  assumes inv: "plan_inv env b ops p" and ob: "length ob0 = callerCount b"
    and c: "charge_outputs env b stored d1 outputs (rp_indexes p) (rp_results p) ob0 cs3 w1 = (results1, ob, cs4, w2)"
    and a: "apply_reads env b stored d2 (rp_indexes p) results1 w2 = (results2, w3)" and i: "(i, pos) \<in> set (rp_indexes p)"
  shows "d2 ! owner b i \<Longrightarrow> rres_document (results2 ! i) = None"
    "\<not> d2 ! owner b i \<Longrightarrow> answered_from (read_result i) (stored ! pos) (results2 ! i)"
    "\<not> d2 ! owner b i \<Longrightarrow> result_bytes (results2 ! i) \<le> (if rr_status (stored ! pos) = ReadStatusFound \<and> rres_status (results1 ! i) = RS_UNSPECIFIED then read_bytes (stored ! pos) else 0)"
proof -
  have mem: "i \<in> fst ` set (rp_indexes p)" using i by force
  have lt: "\<forall>j \<in> fst ` set (rp_indexes p). j < length (rp_results p)" using plan_index(2,3)[OF inv] by simp
  have r1: "results1 ! i = read_result i \<or> is_failed_from (read_result i) (results1 ! i)"
    using charge_outputs_results[OF c plan_index(1)[OF inv] lt mem] plan_index(6)[OF inv mem] by simp
  have len: "length results1 = length (rp_results p)" using charge_outputs_frame[OF c] by simp
  have r2: "if d2 ! owner b i \<or> rres_status (results1 ! i) \<noteq> RS_UNSPECIFIED then results2 ! i = results1 ! i
      else answered_from (results1 ! i) (stored ! pos) (results2 ! i)"
    using apply_reads_results[OF a plan_index(1)[OF inv] _ i] lt len by simp
  show "d2 ! owner b i \<Longrightarrow> rres_document (results2 ! i) = None" using r1 r2 by (auto simp: is_failed_from_def setReadFailure_def)
  show "answered_from (read_result i) (stored ! pos) (results2 ! i)" if "\<not> d2 ! owner b i"
    using r1 r2 that failed_status[of "read_result i" "results1 ! i"] by (auto simp: answered_from_def split: if_splits)
  show "result_bytes (results2 ! i) \<le> (if rr_status (stored ! pos) = ReadStatusFound \<and> rres_status (results1 ! i) = RS_UNSPECIFIED then read_bytes (stored ! pos) else 0)"
    if "\<not> d2 ! owner b i"
  proof (cases "rres_status (results1 ! i) = RS_UNSPECIFIED")
    case True
    then have "results1 ! i = read_result i" using r1 by (auto simp: is_failed_from_def)
    then show ?thesis using True r2 that answered_bytes[of "read_result i" "stored ! pos" "results2 ! i"] by simp
  next
    case False
    then have "result_bytes (results2 ! i) = 0" using r1 r2 failed_bytes[of "read_result i" "results1 ! i"] by (auto simp: result_bytes_def)
    then show ?thesis using False by simp
  qed
qed


lemma fst_sum:
  fixes f :: "nat \<Rightarrow> int"
  assumes "distinct (map fst xs)" "fst ` set xs \<subseteq> {..<n}" "\<And>i. i < n \<Longrightarrow> i \<notin> fst ` set xs \<Longrightarrow> f i = 0"
  shows "(\<Sum>i < n. f i) = (\<Sum>x \<leftarrow> xs. f (fst x))"
proof -
  have "(\<Sum>i < n. f i) = sum f (fst ` set xs)" using assms(2,3) by (intro sum.mono_neutral_right) auto
  also have "\<dots> = sum_list (map f (map fst xs))" using assms(1) by (simp flip: sum_list_distinct_conv_sum_set set_map del: map_map)
  finally show ?thesis by (simp add: o_def)
qed

lemma sum_list_swap:
  fixes f :: "nat \<Rightarrow> 'a \<Rightarrow> int"
  shows "(\<Sum>x \<leftarrow> xs. \<Sum>o' < n. f o' x) = (\<Sum>o' < n. \<Sum>x \<leftarrow> xs. f o' x)"
  by (induction xs) (simp_all add: sum.distrib)

lemma charged_nonneg: "0 \<le> charged_bytes b stored d r o' x"
  by (simp add: charged_bytes_def read_bytes_def)

lemma read_records_bytes:
  assumes inv: "plan_inv env b ops p" and fit: "owners_fit b (length ops)" and m: "0 \<le> re_maxReadBytes env"
    and out: "read_records env b managed p cs w = (Inr out, cs', w')"
  shows "(\<Sum>i < length ops. result_bytes (ro_results out ! i)) \<le> re_maxReadBytes env"
  using out
proof (cases rule: read_records_parts)
  case (1 operations request cs1 stored cs2 w1 outputs cs3 results1 ob cs4 w2 d1)
  let ?idx = "rp_indexes p" and ?n = "callerCount b" and ?d2 = "ro_deferred out"
  obtain w3 where a: "apply_reads env b stored ?d2 ?idx results1 w2 = (ro_results out, w3)" using 1(8) by blast
  have len: "length ob = ?n" "length d1 = ?n" using charge_outputs_frame[OF 1(6)] by (simp_all add: 1(4) defer_full_length)
  have idx: "fst x < length ops \<and> owner b (fst x) < ?n" if "x \<in> set ?idx" for x
    using plan_index(2)[OF inv, of "fst x"] that fit by (auto simp: owners_fit_def)
  have ob: "ob ! o' = sum_list (map (charged_bytes b stored d1 results1 o') ?idx)" if "o' < ?n" for o'
    using charge_outputs_bytes[OF 1(6) plan_index(1)[OF inv], of o'] that plan_index(2,3,6)[OF inv] by simp
  have zero: "result_bytes (ro_results out ! i) = 0" if "i < length ops" "i \<notin> fst ` set ?idx" for i
  proof -
    have "ro_results out ! i = planned_result env i (ops ! i)"
      using apply_reads_frame[OF a] charge_outputs_frame[OF 1(6)] plan_index(4)[OF inv that(1)] that(2) by simp
    then show ?thesis by (auto simp: result_bytes_def planned_result_def setReadFailure_def split: sum.splits)
  qed
  have one: "result_bytes (ro_results out ! fst x) \<le> (\<Sum>o' < ?n. if ?d2 ! o' then 0 else charged_bytes b stored d1 results1 o' x)" if x: "x \<in> set ?idx" for x
  proof -
    let ?g = "\<lambda>o'. if ?d2 ! o' then 0 else charged_bytes b stored d1 results1 o' x"
    note r = read_records_result[OF inv length_replicate 1(6) a, of "fst x" "snd x"]
    have o: "owner b (fst x) < ?n" using idx[OF x] by simp
    have "result_bytes (ro_results out ! fst x) \<le> ?g (owner b (fst x))"
    proof (cases "?d2 ! owner b (fst x)")
      case True
      then show ?thesis using r(1) x by (simp add: result_bytes_def)
    next
      case False
      then have "\<not> d1 ! owner b (fst x)" using defer_outputs_frame[of "re_maxReadBytes env" 0 ob d1 "owner b (fst x)"] o len 1(7) by auto
      then show ?thesis using r(3) False x by (auto simp: charged_bytes_def)
    qed
    also have "\<dots> \<le> sum ?g {..<?n}" using o by (intro member_le_sum) (auto simp: charged_nonneg)
    finally show ?thesis .
  qed
  have "(\<Sum>i < length ops. result_bytes (ro_results out ! i)) = (\<Sum>x \<leftarrow> ?idx. result_bytes (ro_results out ! fst x))"
    using idx zero by (intro fst_sum plan_index(1)[OF inv]) auto
  also have "\<dots> \<le> (\<Sum>x \<leftarrow> ?idx. \<Sum>o' < ?n. if ?d2 ! o' then 0 else charged_bytes b stored d1 results1 o' x)"
    using one by (intro sum_list_mono) auto
  also have "\<dots> = (\<Sum>o' < ?n. \<Sum>x \<leftarrow> ?idx. if ?d2 ! o' then 0 else charged_bytes b stored d1 results1 o' x)"
    by (rule sum_list_swap)
  also have "\<dots> = (\<Sum>o' < ?n. if ?d2 ! (0 + o') then 0 else ob ! o')" using ob by (intro sum.cong) auto
  also have "\<dots> \<le> re_maxReadBytes env"
  proof -
    have "0 \<le> ob ! o'" if "o' < ?n" for o' unfolding ob[OF that] by (intro sum_list_nonneg) (auto simp: charged_nonneg)
    then have "\<forall>n \<in> set ob. 0 \<le> n" using len by (auto simp: in_set_conv_nth)
    then show ?thesis using defer_outputs_sum[OF m, of 0 ob d1] len 1(7) by simp
  qed
  finally show ?thesis .
qed


text \<open>The answers of a request that runs alone are never deferred.\<close>

lemma fresh_single:
  assumes "fresh b kind m cs = (outputs, cs')" "callerCount b = 1" "0 < m"
  shows "\<exists>k. outputs = [Plain k] \<and> k < length cs' \<and> 0 \<le> rb_remaining (cs' ! k) \<and> rb_remaining (cs' ! k) \<le> m"
proof -
  have "fresh b kind m cs = ([fst (Fresh (tracker b 0) kind m cs)], snd (Fresh (tracker b 0) kind m cs))"
    unfolding fresh_def assms(2) by (simp add: split_def Let_def)
  then have o: "outputs = [fst (Fresh (tracker b 0) kind m cs)]" "cs' = snd (Fresh (tracker b 0) kind m cs)" using assms(1) by simp_all
  show ?thesis unfolding o using assms(3)
    by (cases "tracker b 0") (auto simp: Fresh_def NewReadBudget_def NewTrackedReadBudget_def tracker_Limit_def Let_def nth_append)
qed

lemma plan_owners:
  assumes "plan_inv env b ops p"
  shows "os \<in> set (rp_owners p) \<Longrightarrow> o' \<in> set os \<Longrightarrow> \<exists>i < length ops. o' = owner b i" "length (rp_owners p) = length (rp_addresses p)"
proof -
  have l: "list_all2 (\<lambda>a os. os \<noteq> [] \<and> (\<forall>o' \<in> set os. \<exists>i < length ops. o' = owner b i)) (rp_addresses p) (rp_owners p)"
    using assms by (simp add: plan_inv_def)
  show len: "length (rp_owners p) = length (rp_addresses p)" using list_all2_lengthD[OF l] by simp
  assume os: "os \<in> set (rp_owners p)" "o' \<in> set os"
  then obtain q where "q < length (rp_owners p)" "os = rp_owners p ! q" by (metis in_set_conv_nth)
  then show "\<exists>i < length ops. o' = owner b i" using list_all2_nthD[OF l, of q] len os(2) by simp
qed

lemma read_records_single:
  assumes inv: "plan_inv env b ops p" and fit: "owners_fit b (length ops)" and m: "0 < re_maxReadBytes env" and one: "callerCount b = 1"
    and full: "\<And>request operations cs1 stored cs2 w1 r. re_read env request operations cs1 w = (Inr stored, cs2, w1) \<Longrightarrow>
      \<forall>op \<in> set operations. no_working (snd op) \<Longrightarrow> r \<in> set stored \<Longrightarrow> \<not> working_set_full r"
    and out: "read_records env b managed p cs w = (Inr out, cs', w')"
  shows "ro_deferred out = [False]"
  using out
proof (cases rule: read_records_parts)
  case (1 operations request cs1 stored cs2 w1 outputs cs3 results1 ob cs4 w2 d1)
  have own: "\<forall>os \<in> set (rp_owners p). \<forall>o' \<in> set os. o' < callerCount b" "length (rp_owners p) = length (rp_addresses p)"
    using plan_owners[OF inv] fit unfolding owners_fit_def by blast+
  have nw: "\<forall>op \<in> set operations. no_working (snd op)" using read_budgets_parts(2)[OF 1(1) own(2) one own(1)] by blast
  have "length operations = length (rp_addresses p)" using arg_cong[OF read_budgets_parts(1)[OF 1(1) own(2)], of length] by simp
  then have "\<not> working_set_full (stored ! pos)" if "(i, pos) \<in> set (rp_indexes p)" for i pos
    using full[OF 1(2) nw, of "stored ! pos"] plan_index(5)[OF inv that] 1(3) by simp
  then have "\<forall>(i, pos) \<in> set (rp_indexes p). \<not> working_set_full (stored ! pos)" by blast
  then have d1: "d1 = [False]" using 1(4) one defer_full_none by simp
  obtain k where k: "outputs = [Plain k]" "k < length cs3" "0 \<le> rb_remaining (cs3 ! k)" "rb_remaining (cs3 ! k) \<le> re_maxReadBytes env"
    using fresh_single[OF 1(5) one m] by blast
  have zero: "\<forall>i \<in> fst ` set (rp_indexes p). owner b i = 0" using plan_index(2)[OF inv] fit one by (auto simp: owners_fit_def)
  have "charge_outputs env b stored d1 [Plain k] (rp_indexes p) (rp_results p) [0] cs3 w1 = (results1, ob, cs4, w2)" using 1(6) k(1) one by simp
  then have "ob ! 0 \<le> re_maxReadBytes env" using charge_outputs_single zero k(2,3) k(4) by fastforce
  moreover have "length ob = 1" using charge_outputs_frame[OF 1(6)] one by simp
  ultimately show ?thesis using 1(7) d1 by (cases ob) auto
qed

lemma read_records_deferred:
  assumes "read_records env b managed p cs w = (Inr out, cs', w')"
  shows "length (ro_deferred out) = callerCount b \<and> length (ro_results out) = length (rp_results p)"
  using assms
proof (cases rule: read_records_parts)
  case (1 operations request cs1 stored cs2 w1 outputs cs3 results1 ob cs4 w2 d1)
  obtain w3 where a: "apply_reads env b stored (ro_deferred out) (rp_indexes p) results1 w2 = (ro_results out, w3)" using 1(8) by blast
  have "length (ro_results out) = length results1" using apply_reads_frame[OF a] by simp
  moreover have "length (ro_deferred out) = length d1" using 1(7) defer_outputs_frame by simp
  ultimately show ?thesis using charge_outputs_frame[OF 1(6)] by (simp add: 1(4) defer_full_length)
qed


section \<open>What a storage promises to reads\<close>

text \<open>
  \<open>truth w a x\<close>: in the world \<open>w\<close>, \<open>x\<close> is a right answer for the record at \<open>a\<close>. A storage whose budgets hold no
  working set never reports a full one.
\<close>

locale read_storage =
  fixes read :: "readBudget \<Rightarrow> (Address \<times> readBudget) list \<Rightarrow> cells \<Rightarrow> 'w \<Rightarrow> (err + readResult list) \<times> cells \<times> 'w"
    and truth :: "'w \<Rightarrow> Address \<Rightarrow> readResult \<Rightarrow> bool"
  assumes no_full: "read request ops cs w = (Inr stored, cs', w') \<Longrightarrow> \<forall>op \<in> set ops. no_working (snd op) \<Longrightarrow> r \<in> set stored \<Longrightarrow>
      \<not> working_set_full r"
    and truthful: "read request ops cs w = (Inr stored, cs', w') \<Longrightarrow> length stored = length ops \<Longrightarrow> i < length ops \<Longrightarrow>
      truth w (fst (ops ! i)) (stored ! i)"

definition mem_truth :: "('w \<Rightarrow> mem_store) \<Rightarrow> 'w \<Rightarrow> Address \<Rightarrow> readResult \<Rightarrow> bool" where
  "mem_truth store w a x \<longleftrightarrow>
     (case rr_status x of
        ReadStatusFound \<Rightarrow> ms_records (store w) (ad_routingKey a) = Some \<lparr>mr_document = rr_document x, mr_revision = rr_revision x\<rparr>
      | ReadStatusNotFound \<Rightarrow> ms_records (store w) (ad_routingKey a) = None
      | _ \<Rightarrow> True)"

lemma mem_read_loop_no_full:
  "mem_read_loop (lease_grow g) (lease_grow g) s request ops cs w = (rs, cs', w') \<Longrightarrow> \<forall>op \<in> set ops. \<exists>bu. snd op = Some bu \<and> no_working bu \<Longrightarrow>
     r \<in> set rs \<Longrightarrow> \<not> working_set_full r"
proof (induction ops arbitrary: cs w rs)
  case (Cons op ops)
  from Cons.prems(2) obtain a bu where op: "op = (a, Some bu)" "no_working bu" by (cases op) auto
  have rest: "\<forall>op \<in> set ops. \<exists>bu. snd op = Some bu \<and> no_working bu" using Cons.prems(2) by simp
  show ?case
  proof (cases "ms_records s (ad_routingKey a)")
    case None
    then obtain rs1 where "mem_read_loop (lease_grow g) (lease_grow g) s request ops cs w = (rs1, cs', w')"
        "rs = empty_readResult\<lparr>rr_status := ReadStatusNotFound\<rparr> # rs1"
      using Cons.prems(1) op by (auto split: prod.splits)
    then show ?thesis using Cons.IH[OF _ rest] Cons.prems(3) by (auto simp: working_set_full_def empty_readResult_def)
  next
    case (Some stored)
    obtain e cs1 w1 where R: "Reserve (lease_grow g) (lease_grow g) bu (int (length (sd_payload (mr_document stored)))) cs w = (e, cs1, w1)"
      by (cases "Reserve (lease_grow g) (lease_grow g) bu (int (length (sd_payload (mr_document stored)))) cs w") auto
    obtain x rs1 where rs: "mem_read_loop (lease_grow g) (lease_grow g) s request ops cs1 w1 = (rs1, cs', w')" "rs = x # rs1" "rr_err x = e"
      using Cons.prems(1) op Some R by (auto simp: Let_def empty_readResult_def split: prod.splits option.splits)
    have "\<not> working_set_full x"
    proof (cases e)
      case (Some e')
      then show ?thesis using Reserve_no_working(1)[OF op(2) R[unfolded Some]] rs(3) by (simp add: working_set_full_def)
    qed (simp add: rs(3) working_set_full_def)
    then show ?thesis using Cons.IH[OF rs(1) rest] Cons.prems(3) rs(2) by auto
  qed
qed auto

lemma mem_read_loop_truth:
  "mem_read_loop out grow s request ops cs w = (rs, cs', w') \<Longrightarrow>
     length rs = length ops \<and> (\<forall>i < length ops. mem_truth (\<lambda>_. s) () (fst (ops ! i)) (rs ! i))"
proof (induction ops arbitrary: cs w rs)
  case (Cons op ops)
  obtain a own where op: "op = (a, own)" by (cases op)
  obtain x rs1 cs1 w1 where rs: "mem_read_loop out grow s request ops cs1 w1 = (rs1, cs', w')" "rs = x # rs1" and x: "mem_truth (\<lambda>_. s) () a x"
    using Cons.prems op
    by (cases "ms_records s (ad_routingKey a)") (auto simp: Let_def mem_truth_def empty_readResult_def split: prod.splits option.splits)
  show ?case using Cons.IH[OF rs(1)] x by (auto simp: rs(2) op nth_Cons split: nat.splits)
qed simp

interpretation memory_reads: read_storage "memory_read store grow" "mem_truth store" for store grow
proof
  fix request ops cs and w :: 'a and stored cs' w' r
  assume r: "memory_read store grow request ops cs w = (Inr stored, cs', w')"
  show "\<not> working_set_full r" if "\<forall>op \<in> set ops. no_working (snd op)" "r \<in> set stored"
    using r that mem_read_loop_no_full[of grow "store w" request "map (map_prod id Some) ops" cs w stored cs' w' r]
    by (auto simp: memory_read_def mem_Read_def split: prod.splits)
  show "mem_truth store w (fst (ops ! i)) (stored ! i)" if "length stored = length ops" "i < length ops" for i
    using r that mem_read_loop_truth[of "lease_grow grow" "lease_grow grow" "store w" request "map (map_prod id Some) ops" cs w stored cs' w']
    by (auto simp: memory_read_def mem_Read_def mem_truth_def split: prod.splits)
qed


section \<open>A request and its answer\<close>

definition answers :: "'w read_env \<Rightarrow> (Address \<Rightarrow> readResult \<Rightarrow> bool) \<Rightarrow> ReadOperation \<Rightarrow> ReadResult \<Rightarrow> bool" where
  "answers env holds operation r \<longleftrightarrow>
     (case op_address env operation of
        Inl _ \<Rightarrow> rres_status r = RS_FAILED \<and> rres_document r = None
      | Inr a \<Rightarrow>
          (case rres_status r of
             RS_UNSPECIFIED \<Rightarrow> False
           | RS_FAILED \<Rightarrow> rres_document r = None \<and> rres_failure r \<noteq> None
           | RS_FOUND \<Rightarrow> \<exists>x. holds a x \<and> rr_status x = ReadStatusFound \<and> rres_revision r = Some (rr_revision x) \<and>
               rres_document r = Some \<lparr>d_encoding = api_encoding (sd_encoding (rr_document x)), d_payload = sd_payload (rr_document x)\<rparr>
           | RS_NOT_FOUND \<Rightarrow> \<exists>x. holds a x \<and> rr_status x = ReadStatusNotFound \<and> rres_document r = None))"

definition canonical :: "uri_parser \<Rightarrow> bool" where
  "canonical uri \<longleftrightarrow> (\<forall>u v a b. uri u = Inr a \<longrightarrow> uri v = Inr b \<longrightarrow> ad_string a = ad_string b \<longrightarrow> a = b)"

lemma op_address_uri: "op_address env op = Inr a \<Longrightarrow> re_uri env (getUri (ro_address op)) = Inr a"
  by (auto simp: op_address_def storage_address_def ParseAddress_def split: sum.splits if_splits)

lemma answered_answers:
  assumes "answered_from (read_result i) x r" "op_address env op = Inr a" "holds a x"
  shows "answers env holds op r"
  using assms
  by (auto simp: answers_def answered_from_def is_failed_from_def applyReadResult_def setReadFailure_def read_result_def Let_def
      split: readStatus.splits storageEncoding.splits prod.splits intro!: exI[of _ x])

definition same_answer :: "ReadResult \<Rightarrow> ReadResult \<Rightarrow> bool" where
  "same_answer r r' \<longleftrightarrow> rres_status r = rres_status r' \<and> rres_document r = rres_document r' \<and> rres_revision r = rres_revision r' \<and>
     (rres_failure r = None) = (rres_failure r' = None)"

lemma same_answers: "same_answer r r' \<Longrightarrow> answers env holds op r \<Longrightarrow> answers env holds op r'"
  by (auto simp: same_answer_def answers_def split: sum.splits ReadStatus.splits)

lemma bound_read_failures_nth:
  "length (bound_read_failures b m rs) = length rs \<and>
   (i < length rs \<longrightarrow> same_answer (rs ! i) (bound_read_failures b m rs ! i) \<and> result_bytes (bound_read_failures b m rs ! i) = result_bytes (rs ! i))"
  by (auto simp: bound_read_failures_def boundResultFailures_def Let_def same_answer_def result_bytes_def split: option.splits)

lemma effective_budgets:
  assumes "b = (case budgets of None \<Rightarrow> contextBudgets ctx n | Some _ \<Rightarrow> budgets)" "owners_fit budgets n"
  shows "owners_fit b n" "callerCount b = callerCount budgets" "i < n \<Longrightarrow> owner b i = owner budgets i"
  using assms
  by (auto simp: contextBudgets_def addContext_def budgets_add_def no_budgets_def owners_fit_def owner_def callerCount_def Let_def
      split: option.splits if_splits)

lemma server_read_parts:
  assumes "server_read env ops budgets cs w = (Inr out, cs', w')"
  obtains ctx w1 b out1 w2 where
    "re_admit env (read_admission env budgets ops) w = (Inr ctx, w1)" "ops \<noteq> []"
    "b = (case budgets of None \<Rightarrow> contextBudgets ctx (length ops) | Some _ \<Rightarrow> budgets)"
    "rp_addresses (plan_reads env b ops) = [] \<and> out1 = \<lparr>ro_results = rp_results (plan_reads env b ops), ro_deferred = replicate (callerCount b) False\<rparr> \<or>
     rp_addresses (plan_reads env b ops) \<noteq> [] \<and> read_records env b (snd ctx) (plan_reads env b ops) cs w1 = (Inr out1, cs', w2)"
    "out = out1\<lparr>ro_results := bound_read_failures b (re_maxReadBytes env) (ro_results out1)\<rparr>"
proof -
  have ne: "ops \<noteq> []" and v: "validateOperationCount (re_maxOperations env) (length ops) = None"
    using assms by (auto simp: server_read_def split: if_splits option.splits)
  obtain ctx w1 where ad: "re_admit env (read_admission env budgets ops) w = (Inr ctx, w1)"
    using assms ne v by (auto simp: server_read_def split: prod.splits sum.splits)
  define b where b: "b = (case budgets of None \<Rightarrow> contextBudgets ctx (length ops) | Some _ \<Rightarrow> budgets)"
  let ?p = "plan_reads env b ops"
  obtain outcome cs1 w2 where o: "(if rp_addresses ?p = [] then (Inr \<lparr>ro_results = rp_results ?p, ro_deferred = replicate (callerCount b) False\<rparr>, cs, w1)
      else read_records env b (snd ctx) ?p cs w1) = (outcome, cs1, w2)"
    by (cases "if rp_addresses ?p = [] then (Inr \<lparr>ro_results = rp_results ?p, ro_deferred = replicate (callerCount b) False\<rparr>, cs, w1)
      else read_records env b (snd ctx) ?p cs w1") auto
  have e: "map_sum id (\<lambda>o'. o'\<lparr>ro_results := bound_read_failures b (re_maxReadBytes env) (ro_results o')\<rparr>) outcome = Inr out" "cs1 = cs'"
    using assms by (simp_all only: server_read_def if_not_P[OF ne] v ad option.case prod.case sum.case b[symmetric] Let_def o prod.inject)
  then obtain out1 where o1: "outcome = Inr out1" "out = out1\<lparr>ro_results := bound_read_failures b (re_maxReadBytes env) (ro_results out1)\<rparr>"
    by (cases outcome) auto
  show thesis using that[OF ad ne b _ o1(2), of w2] o o1(1) e(2) by (auto split: if_splits)
qed

text \<open>A read that answers sends at most the limit in documents, over all of its callers.\<close>

lemma server_read_bytes:
  assumes "server_read env ops budgets cs w = (Inr out, cs', w')" "owners_fit budgets (length ops)" "0 \<le> re_maxReadBytes env"
  shows "(\<Sum>i < length ops. result_bytes (ro_results out ! i)) \<le> re_maxReadBytes env"
  using assms(1)
proof (cases rule: server_read_parts)
  case (1 ctx w1 b out1 w2)
  let ?p = "plan_reads env b ops"
  note inv = plan_reads_inv[of env b ops]
  have len: "length (ro_results out1) = length ops" using 1(4) plan_index(3)[OF inv] by (auto dest: read_records_deferred)
  have "(\<Sum>i < length ops. result_bytes (ro_results out ! i)) = (\<Sum>i < length ops. result_bytes (ro_results out1 ! i))"
    using bound_read_failures_nth[of b _ "ro_results out1"] len 1(5) by (intro sum.cong) auto
  also have "\<dots> \<le> re_maxReadBytes env"
  proof (cases "rp_addresses ?p = []")
    case True
    then have "rp_indexes ?p = []" by (rule plan_empty[OF inv])
    then have isl: "isl (op_address env (ops ! i))" if "i < length ops" for i using plan_index(2)[OF inv, of i] that by simp
    have "ro_results out1 = rp_results ?p" using True 1(4) by simp
    then have "result_bytes (ro_results out1 ! i) = 0" if "i < length ops" for i
      using plan_index(4)[OF inv that] isl[OF that] by (auto simp: result_bytes_def planned_result_def setReadFailure_def isl_def)
    then show ?thesis using assms(3) by simp
  next
    case False
    then have "read_records env b (snd ctx) ?p cs w1 = (Inr out1, cs', w2)" using 1(4) by simp
    then show ?thesis by (rule read_records_bytes[OF inv effective_budgets(1)[OF 1(3) assms(2)] assms(3)])
  qed
  finally show ?thesis .
qed


context read_storage
begin

lemma read_records_answers:
  assumes env: "re_read env = read" "canonical (re_uri env)" and inv: "plan_inv env b ops p"
    and out: "read_records env b managed p cs w = (Inr out, cs', w')" and i: "i < length ops" "\<not> ro_deferred out ! owner b i"
  shows "answers env (truth w) (ops ! i) (ro_results out ! i)"
  using out
proof (cases rule: read_records_parts)
  case (1 operations request cs1 stored cs2 w1 outputs cs3 results1 ob cs4 w2 d1)
  obtain w3 where a: "apply_reads env b stored (ro_deferred out) (rp_indexes p) results1 w2 = (ro_results out, w3)" using 1(8) by blast
  show ?thesis
  proof (cases "op_address env (ops ! i)")
    case (Inl e)
    then have "i \<notin> fst ` set (rp_indexes p)" using plan_index(2)[OF inv, of i] by simp
    then have "ro_results out ! i = planned_result env i (ops ! i)"
      using apply_reads_frame[OF a] charge_outputs_frame[OF 1(6)] plan_index(4)[OF inv i(1)] by simp
    then show ?thesis using Inl by (simp add: planned_result_def answers_def setReadFailure_def)
  next
    case (Inr ad)
    then have "i \<in> fst ` set (rp_indexes p)" using plan_index(2)[OF inv, of i] i(1) by simp
    then obtain pos where pos: "(i, pos) \<in> set (rp_indexes p)" by auto
    let ?b = "rp_addresses p ! pos"
    have lt: "pos < length (rp_addresses p)" "ad_string ?b = ad_string ad" using plan_index(5)[OF inv pos] Inr by simp_all
    have "?b \<in> set (rp_addresses p)" using lt(1) by simp
    then obtain op where "op_address env op = Inr ?b" using inv unfolding plan_inv_def list_all_iff by blast
    then have b: "?b = ad" using env(2) lt(2) op_address_uri[of env op] op_address_uri[OF Inr] unfolding canonical_def by blast
    have ops: "map fst operations = rp_addresses p" using read_budgets_parts(1)[OF 1(1) plan_owners(2)[OF inv]] .
    then have l: "length operations = length (rp_addresses p)" by (metis length_map)
    have "fst (operations ! pos) = ad" using ops lt(1) l b by (metis nth_map)
    then have "truth w ad (stored ! pos)" using truthful[of request operations cs1 w stored cs2 w1 pos] 1(2,3) lt(1) l env(1) by simp
    then show ?thesis using answered_answers[OF read_records_result(2)[OF inv length_replicate 1(6) a pos i(2)] Inr] by simp
  qed
qed

lemma server_read_answers:
  assumes env: "re_read env = read" "canonical (re_uri env)" and fit: "owners_fit budgets (length ops)"
    and out: "server_read env ops budgets cs w = (Inr out, cs', w')"
  shows "length (ro_results out) = length ops \<and> length (ro_deferred out) = callerCount budgets \<and>
    (\<exists>v. \<forall>i < length ops. \<not> ro_deferred out ! owner budgets i \<longrightarrow> answers env (truth v) (ops ! i) (ro_results out ! i))"
  using out
proof (cases rule: server_read_parts)
  case (1 ctx w1 b out1 w2)
  let ?p = "plan_reads env b ops"
  note inv = plan_reads_inv[of env b ops]
  note b = effective_budgets[OF 1(3) fit]
  have len: "length (ro_results out1) = length ops" "length (ro_deferred out1) = callerCount b"
    using 1(4) plan_index(3)[OF inv] by (auto dest: read_records_deferred)
  have "answers env (truth w1) (ops ! i) (ro_results out1 ! i)" if i: "i < length ops" "\<not> ro_deferred out1 ! owner b i" for i
  proof (cases "rp_addresses ?p = []")
    case True
    then have "rp_indexes ?p = []" by (rule plan_empty[OF inv])
    then have "isl (op_address env (ops ! i))" using plan_index(2)[OF inv, of i] i(1) by simp
    then show ?thesis using True 1(4) plan_index(4)[OF inv i(1)] by (auto simp: planned_result_def answers_def setReadFailure_def isl_def)
  next
    case False
    then show ?thesis using 1(4) read_records_answers[OF env inv _ i] by auto
  qed
  then have "answers env (truth w1) (ops ! i) (ro_results out ! i)" if "i < length ops" "\<not> ro_deferred out ! owner budgets i" for i
    using that 1(5) b(3)[OF that(1)] bound_read_failures_nth[of b "re_maxReadBytes env" "ro_results out1" i] len(1) by (auto intro: same_answers)
  then show ?thesis using 1(5) len b(2) bound_read_failures_nth[of b "re_maxReadBytes env" "ro_results out1"] by auto
qed

lemma server_read_single:
  assumes env: "re_read env = read" "0 < re_maxReadBytes env" and fit: "owners_fit budgets (length ops)" "callerCount budgets = 1"
    and out: "server_read env ops budgets cs w = (Inr out, cs', w')"
  shows "ro_deferred out = [False]"
  using out
proof (cases rule: server_read_parts)
  case (1 ctx w1 b out1 w2)
  note b = effective_budgets[OF 1(3) fit(1)]
  have "ro_deferred out1 = [False]"
  proof (cases "rp_addresses (plan_reads env b ops) = []")
    case True
    then show ?thesis using 1(4) b(2) fit(2) by simp
  next
    case False
    then have r: "read_records env b (snd ctx) (plan_reads env b ops) cs w1 = (Inr out1, cs', w2)" using 1(4) by simp
    show ?thesis using no_full by (intro read_records_single[OF plan_reads_inv b(1) env(2) _ _ r]) (auto simp: b(2) fit(2) env(1))
  qed
  then show ?thesis using 1(5) by simp
qed

end

section \<open>Splitting a batch\<close>

definition offset :: "('a \<Rightarrow> 'b list) \<Rightarrow> 'a list \<Rightarrow> nat \<Rightarrow> nat" where
  "offset f xs j = sum_list (map (\<lambda>x. length (f x)) (take j xs))"

lemma concat_offset:
  "j < length xs \<Longrightarrow> k < length (f (xs ! j)) \<Longrightarrow>
     offset f xs j + k < length (concat (map f xs)) \<and> concat (map f xs) ! (offset f xs j + k) = f (xs ! j) ! k"
proof (induction xs arbitrary: j)
  case (Cons x xs)
  then show ?case by (cases j) (auto simp: offset_def nth_append add.assoc)
qed simp

lemma length_total: "length (concat (map rc_operations calls)) = totalReadOperations calls"
  by (simp add: totalReadOperations_def length_concat o_def)

lemma group_budgets_snoc: "group_budgets (calls @ [c]) = addContext (rc_ctx c) (length (rc_operations c)) (group_budgets calls)"
  by (simp add: group_budgets_def)

lemma group_budgets_fields:
  "q_count (group_budgets calls) = length calls \<and>
   q_owners (group_budgets calls) = concat (map (\<lambda>j. replicate (length (rc_operations (calls ! j))) j) [0..<length calls])"
proof (induction calls rule: rev_induct)
  case (snoc c calls)
  have "map (\<lambda>j. replicate (length (rc_operations ((calls @ [c]) ! j))) j) [0..<length calls] =
      map (\<lambda>j. replicate (length (rc_operations (calls ! j))) j) [0..<length calls]" (is "?l = ?r") by (rule map_cong) (auto simp: nth_append)
  then have "concat ?l = concat ?r" by (rule arg_cong)
  then show ?case using snoc by (simp add: group_budgets_snoc addContext_def budgets_add_def Let_def)
qed (simp add: group_budgets_def no_budgets_def)

lemma group_owner:
  assumes "j < length calls" "k < length (rc_operations (calls ! j))"
  shows "owner (Some (group_budgets calls)) (offset rc_operations calls j + k) = j"
proof -
  let ?f = "\<lambda>j. replicate (length (rc_operations (calls ! j))) j"
  have "map rc_operations (take j calls) = map (\<lambda>j. rc_operations (calls ! j)) [0..<j]"
    using assms(1) by (intro nth_equalityI) auto
  then have "offset rc_operations calls j = offset ?f [0..<length calls] j"
    using assms(1) by (auto simp: offset_def o_def dest: arg_cong[where f = "map length"])
  then show ?thesis using concat_offset[of j "[0..<length calls]" k ?f] assms group_budgets_fields[of calls] by (simp add: owner_def)
qed

lemma group_fit: "owners_fit (Some (group_budgets calls)) (length (concat (map rc_operations calls)))"
proof -
  have "\<forall>o' \<in> set (q_owners (group_budgets calls)). o' < length calls" by (auto simp: group_budgets_fields)
  moreover have "length (q_owners (group_budgets calls)) = length (concat (map rc_operations calls))"
    using arg_cong[OF map_nth[of calls], of "\<lambda>xs. sum_list (map (\<lambda>c. length (rc_operations c)) xs)"]
    by (simp add: group_budgets_fields length_concat o_def)
  ultimately show ?thesis by (auto simp: owners_fit_def owner_def callerCount_def group_budgets_fields[THEN conjunct1])
qed

lemma split_reads_spec:
  "split_reads deferred o' calls results = (events, later) \<Longrightarrow>
     mset (map rc_id calls) = mset (map fst events) + mset (map rc_id later) \<and> set later \<subseteq> set calls \<and>
     length events + length later = length calls \<and>
     ((\<exists>j < length calls. \<not> deferred ! (o' + j)) \<or> deferred = [] \<and> calls \<noteq> [] \<longrightarrow> events \<noteq> [])"
proof (induction calls arbitrary: o' results events later)
  case (Cons c calls)
  obtain ev la where s: "split_reads deferred (Suc o') calls (drop (length (rc_operations c)) results) = (ev, la)" by fastforce
  note IH = Cons.IH[OF s]
  show ?case
  proof (cases "deferred \<noteq> [] \<and> deferred ! o'")
    case True
    then have "events = ev" "later = c # la" using Cons.prems s by auto
    then show ?thesis using IH True by (auto simp: less_Suc_eq_0_disj)
  next
    case False
    then have "events = (rc_id c, Inr (reindex_reads (take (length (rc_operations c)) results))) # ev" "later = la" using Cons.prems s by auto
    then show ?thesis using IH by auto
  qed
qed simp

lemma split_reads_event:
  "split_reads deferred o' calls results = (events, later) \<Longrightarrow> (cid, r) \<in> set events \<Longrightarrow>
     \<exists>j < length calls. cid = rc_id (calls ! j) \<and> (deferred = [] \<or> \<not> deferred ! (o' + j)) \<and>
       r = Inr (reindex_reads (take (length (rc_operations (calls ! j))) (drop (offset rc_operations calls j) results)))"
proof (induction calls arbitrary: o' results events later)
  case (Cons c calls)
  obtain ev la where s: "split_reads deferred (Suc o') calls (drop (length (rc_operations c)) results) = (ev, la)" by fastforce
  show ?case
  proof (cases "(cid, r) \<in> set ev")
    case True
    then obtain j where j: "j < length calls" "cid = rc_id (calls ! j)" "deferred = [] \<or> \<not> deferred ! (Suc o' + j)"
        "r = Inr (reindex_reads (take (length (rc_operations (calls ! j))) (drop (offset rc_operations calls j) (drop (length (rc_operations c)) results))))"
      using Cons.IH[OF s] by blast
    show ?thesis using j by (intro exI[of _ "Suc j"]) (auto simp: offset_def add.commute)
  next
    case False
    then show ?thesis using Cons.prems s by (intro exI[of _ 0]) (auto simp: offset_def split: if_splits)
  qed
qed simp


section \<open>The loop over coalesced reads\<close>

lemma fitting_bounds: "n \<le> fitting cost byteLimit limit bytes calls n \<and> fitting cost byteLimit limit bytes calls n \<le> max n limit \<and>
    (n = 0 \<and> calls \<noteq> [] \<and> 0 < limit \<longrightarrow> 0 < fitting cost byteLimit limit bytes calls n)"
proof (induction cost byteLimit limit bytes calls n rule: fitting.induct)
  case (2 cost byteLimit limit bytes c calls n)
  then show ?case by (cases "n < limit"; cases "0 < n \<and> byteLimit - bytes < cost c") auto
qed simp

lemma live_calls_spec:
  "live_calls ctx calls w = (live, ended, w') \<Longrightarrow>
     mset (map f calls) = mset (map f live) + mset (map (f \<circ> fst) ended) \<and> set live \<subseteq> set calls \<and> length live + length ended = length calls"
proof (induction calls arbitrary: w live ended)
  case (Cons c calls)
  obtain e w1 where e: "ctx c w = (e, w1)" by fastforce
  obtain l en w2 where l: "live_calls ctx calls w1 = (l, en, w2)" by (metis prod_cases3)
  have "w' = w2" "if e = None then live = c # l \<and> ended = en else live = l \<and> (\<exists>s. ended = (c, s) # en)"
    using Cons.prems e l by (auto split: option.splits)
  then show ?case using Cons.IH l by (auto split: if_splits)
qed simp

definition read_event_ok :: "'w read_env \<Rightarrow> ('w \<Rightarrow> Address \<Rightarrow> readResult \<Rightarrow> bool) \<Rightarrow> read_call list \<Rightarrow> read_event \<Rightarrow> bool" where
  "read_event_ok env truth calls ev \<longleftrightarrow>
     (case snd ev of Inl _ \<Rightarrow> True
      | Inr results \<Rightarrow>
          \<exists>c \<in> set calls. rc_id c = fst ev \<and> length results = length (rc_operations c) \<and>
            (\<exists>v. \<forall>k < length results. rres_index (results ! k) = word_of_nat k \<and> answers env (truth v) (rc_operations c ! k) (results ! k)))"

lemma reindex_nth: "length (reindex_reads rs) = length rs \<and> (k < length rs \<longrightarrow> rres_index (reindex_reads rs ! k) = word_of_nat k \<and> same_answer (rs ! k) (reindex_reads rs ! k))"
  by (auto simp: reindex_reads_def same_answer_def nth_enumerate_eq)

lemma event_ok_mono: "read_event_ok env truth calls ev \<Longrightarrow> set calls \<subseteq> set calls' \<Longrightarrow> read_event_ok env truth calls' ev"
  by (auto simp: read_event_ok_def split: sum.splits)

lemma ended_ok: "ev \<in> set (ended_reads ended) \<Longrightarrow> read_event_ok env truth calls ev" "map fst (ended_reads ended) = map (rc_id \<circ> fst) ended"
  by (auto simp: ended_reads_def read_event_ok_def split_def)

context read_storage
begin

lemma split_ok:
  assumes env: "re_read env = read" "canonical (re_uri env)" "0 < re_maxReadBytes env"
    and out: "server_read env (concat (map rc_operations calls)) (Some (group_budgets calls)) cs w = (outcome, cs', w')"
    and split: "splitReadResponse calls outcome = (events, later)" and ne: "calls \<noteq> []"
  shows "mset (map rc_id calls) = mset (map fst events) + mset (map rc_id later) \<and> set later \<subseteq> set calls \<and> length later \<le> length calls \<and>
    (length calls = 1 \<longrightarrow> later = []) \<and> (\<forall>ev \<in> set events. read_event_ok env truth calls ev)"
proof (cases outcome)
  case (Inl e)
  then have ev: "events = map (\<lambda>c. (rc_id c, Inl e)) calls" "later = []" using split by (auto simp: splitReadResponse_def)
  have "map fst events = map rc_id calls" by (simp add: ev(1))
  then have "mset (map rc_id calls) = mset (map fst events)" by (rule arg_cong[OF sym])
  then show ?thesis using ev by (auto simp: read_event_ok_def)
next
  case (Inr out)
  let ?ops = "concat (map rc_operations calls)" and ?b = "Some (group_budgets calls)"
  have r: "server_read env ?ops ?b cs w = (Inr out, cs', w')" using assms(4) Inr by simp
  have cc: "callerCount ?b = length calls" by (simp add: callerCount_def group_budgets_fields[THEN conjunct1])
  note a = server_read_answers[OF env(1,2) group_fit r]
  then have len: "length (ro_results out) = length ?ops" "length (ro_deferred out) = length calls" by (simp_all add: cc)
  obtain v where v: "\<And>i. i < length ?ops \<Longrightarrow> \<not> ro_deferred out ! owner ?b i \<Longrightarrow> answers env (truth v) (?ops ! i) (ro_results out ! i)"
    using a by blast
  have s: "split_reads (ro_deferred out) 0 calls (ro_results out) = (events, later)"
    using split Inr len ne by (simp add: splitReadResponse_def length_total)
  have "read_event_ok env truth calls ev" if ev: "ev \<in> set events" for ev
  proof -
    obtain cid r where e: "ev = (cid, r)" by (cases ev)
    obtain j where j: "j < length calls" "cid = rc_id (calls ! j)" "ro_deferred out = [] \<or> \<not> ro_deferred out ! (0 + j)"
        "r = Inr (reindex_reads (take (length (rc_operations (calls ! j))) (drop (offset rc_operations calls j) (ro_results out))))"
      using split_reads_event[OF s] ev e by blast
    let ?n = "length (rc_operations (calls ! j))" and ?o = "offset rc_operations calls j"
    let ?rs = "take ?n (drop ?o (ro_results out))"
    have at: "?o + k < length ?ops \<and> ?ops ! (?o + k) = rc_operations (calls ! j) ! k" if "k < ?n" for k
      using concat_offset[of j calls k rc_operations] j(1) that by simp
    have n: "length ?rs = ?n"
    proof (cases ?n)
      case (Suc m)
      then have "?o + m < length (ro_results out)" using at[of m] len(1) by simp
      then show ?thesis using Suc by simp
    qed simp
    have "answers env (truth v) (rc_operations (calls ! j) ! k) (?rs ! k)" if k: "k < ?n" for k
      using v[of "?o + k"] at[OF k] group_owner[OF j(1) k] j(1,3) len k n by auto
    then have "answers env (truth v) (rc_operations (calls ! j) ! k) (reindex_reads ?rs ! k)" if "k < ?n" for k
      using that reindex_nth[of ?rs k] n by (auto intro: same_answers)
    then show ?thesis using e j(1,2,4) n reindex_nth[of ?rs] unfolding read_event_ok_def by (auto intro!: bexI[of _ "calls ! j"])
  qed
  moreover have "later = []" if "length calls = 1"
  proof -
    have "ro_deferred out = [False]" using server_read_single[OF env(1,3) group_fit _ r] that cc by simp
    then show ?thesis using s that by (cases calls) auto
  qed
  ultimately show ?thesis using split_reads_spec[OF s] by auto
qed

lemma read_pass_ok:
  assumes env: "re_read (xr_server env) = read" "canonical (re_uri (xr_server env))" "0 < re_maxReadBytes (xr_server env)"
    and ne: "calls \<noteq> []" "0 < limit" and pass: "read_pass env limit calls cs w = (events, limit', calls', cs', w')"
  shows "mset (map rc_id calls) = mset (map fst events) + mset (map rc_id calls') \<and> set calls' \<subseteq> set calls \<and> 0 < limit' \<and>
    (length calls' < length calls \<or> length calls' = length calls \<and> limit' < limit) \<and>
    (\<forall>ev \<in> set events. read_event_ok (xr_server env) truth calls ev)"
proof -
  define bytes where "bytes = (if xr_managed env then 0 else 2 * re_maxReadBytes (xr_server env))"
  define n where "n = fitting (read_cost env) (xr_byteLimit env) (min limit (length calls)) bytes calls 0"
  obtain chosen ended w1 where l: "live_calls (\<lambda>c. xr_ctx env (rc_id c)) (take n calls) w = (chosen, ended, w1)" by (metis prod_cases3)
  have n: "0 < n" "n \<le> limit" "n \<le> length calls"
    using fitting_bounds[of 0 "read_cost env" "xr_byteLimit env" "min limit (length calls)" bytes calls] ne by (auto simp: n_def)
  note live = live_calls_spec[OF l, where f = rc_id]
  have parts: "mset (map rc_id calls) = mset (map rc_id (take n calls)) + mset (map rc_id (drop n calls))"
    by (metis append_take_drop_id map_append mset_append)
  have len: "length (take n calls) = n" using n by simp
  have sub: "set chosen \<subseteq> set calls" using live set_take_subset by fastforce
  show ?thesis
  proof (cases "chosen = []")
    case True
    then have "events = ended_reads ended" "limit' = limit" "calls' = drop n calls"
      using pass l by (auto simp: read_pass_def Let_def bytes_def[symmetric] n_def[symmetric])
    then show ?thesis using True parts live ended_ok n ne set_drop_subset[of n calls] by (auto simp del: mset_map)
  next
    case False
    obtain outcome cs1 w2 where o: "server_read (xr_server env) (concat (map rc_operations chosen)) (Some (group_budgets chosen)) cs w1 = (outcome, cs1, w2)"
      by (metis prod_cases3)
    obtain ev deferred where sp: "splitReadResponse chosen outcome = (ev, deferred)" by fastforce
    note ok = split_ok[OF env o sp False]
    have e: "events = ended_reads ended @ ev" "limit' = (if deferred \<noteq> [] then max 1 (length chosen - length deferred) else limit)"
        "calls' = deferred @ drop n calls"
      using pass l False o sp by (auto simp: read_pass_def Let_def bytes_def[symmetric] n_def[symmetric])
    have ch: "length chosen \<le> n" using live len by simp
    have c': "length calls' = length deferred + (length calls - n)" by (simp add: e)
    have "mset (map rc_id calls) = mset (map fst events) + mset (map rc_id calls')"
      using parts live ok ended_ok(2)[of ended] by (simp add: e del: mset_map)
    moreover have "length calls' < length calls \<or> length calls' = length calls \<and> limit' < limit"
    proof (cases "length deferred < n")
      case True
      then show ?thesis using n c' by auto
    next
      case all: False
      then have d: "length deferred = n" "length chosen = n" using ok ch by auto
      then have "n \<noteq> 1" using ok n by auto
      then show ?thesis using d n c' by (auto simp: e(2))
    qed
    moreover have "read_event_ok (xr_server env) truth calls x" if "x \<in> set ev" for x
      using ok that sub event_ok_mono by blast
    ultimately show ?thesis using ok sub ended_ok(1) ne set_drop_subset[of n calls] by (auto simp: e)
  qed
qed

lemma read_loop_ends:
  assumes env: "re_read (xr_server env) = read" "canonical (re_uri (xr_server env))" "0 < re_maxReadBytes (xr_server env)"
  shows "0 < limit \<or> calls = [] \<Longrightarrow> \<exists>ev cs' w'. read_loop env limit calls events cs w = Some (events @ ev, cs', w') \<and>
    mset (map rc_id calls) = mset (map fst ev) \<and> (\<forall>e \<in> set ev. read_event_ok (xr_server env) truth calls e)"
proof (induction "(length calls, limit)" arbitrary: calls limit events cs w rule: wf_induct_rule[OF wf_lex_prod[OF wf_less_than wf_less_than]])
  case 1
  show ?case
  proof (cases "calls = []")
    case True
    then show ?thesis by (simp add: read_loop.simps)
  next
    case False
    obtain ev1 limit' calls' cs1 w1 where p: "read_pass env limit calls cs w = (ev1, limit', calls', cs1, w1)" by (metis prod_cases5)
    have "0 < limit" using 1(2) False by simp
    note ok = read_pass_ok[OF env False this p]
    obtain ev cs' w' where r: "read_loop env limit' calls' (events @ ev1) cs1 w1 = Some ((events @ ev1) @ ev, cs', w')"
        "mset (map rc_id calls') = mset (map fst ev)" "\<forall>e \<in> set ev. read_event_ok (xr_server env) truth calls' e"
      using 1(1)[of calls' limit' "events @ ev1" cs1 w1] ok by auto
    have "read_loop env limit calls events cs w = Some (events @ (ev1 @ ev), cs', w')" using False p r(1) by (simp add: read_loop.simps)
    moreover have "\<forall>e \<in> set (ev1 @ ev). read_event_ok (xr_server env) truth calls e"
      using ok r(3) event_ok_mono[of _ _ calls' _ calls] unfolding set_append by blast
    moreover have "mset (map rc_id calls) = mset (map fst (ev1 @ ev))" using ok r(2) by (simp del: mset_map)
    ultimately show ?thesis by blast
  qed
qed

lemma executeReads_ends:
  assumes "re_read (xr_server env) = read" "canonical (re_uri (xr_server env))" "0 < re_maxReadBytes (xr_server env)"
  shows "\<exists>ev cs' w'. executeReads env calls cs w = Some (ev, cs', w') \<and> mset (map fst ev) = mset (map rc_id calls) \<and>
    (\<forall>e \<in> set ev. read_event_ok (xr_server env) truth calls e)"
proof -
  obtain live ended w1 where l: "live_calls (\<lambda>c. xr_ctx env (rc_id c)) calls w = (live, ended, w1)" by (metis prod_cases3)
  note s = live_calls_spec[OF l, where f = rc_id]
  obtain ev cs' w' where r: "read_loop env (length live) live (ended_reads ended) cs w1 = Some (ended_reads ended @ ev, cs', w')"
      "mset (map rc_id live) = mset (map fst ev)" "\<forall>e \<in> set ev. read_event_ok (xr_server env) truth live e"
    using read_loop_ends[OF assms, of "length live" live "ended_reads ended" cs w1] by auto
  have "executeReads env calls cs w = Some (ended_reads ended @ ev, cs', w')" by (simp add: executeReads_def l r(1))
  moreover have "mset (map fst (ended_reads ended @ ev)) = mset (map rc_id calls)" using s r(2) ended_ok(2)[of ended] by (simp del: mset_map)
  moreover have "\<forall>e \<in> set (ended_reads ended @ ev). read_event_ok (xr_server env) truth calls e"
    using r(3) ended_ok(1) s event_ok_mono[of _ _ live _ calls] unfolding set_append by blast
  ultimately show ?thesis by blast
qed

end


section \<open>Reads against the memory store\<close>

text \<open>\<open>reads_store\<close>: a result is right for an operation in a state of the memory store.\<close>

definition reads_store :: "'w read_env \<Rightarrow> mem_store \<Rightarrow> ReadOperation \<Rightarrow> ReadResult \<Rightarrow> bool" where
  "reads_store env s operation r \<longleftrightarrow>
     (case op_address env operation of
        Inl _ \<Rightarrow> rres_status r = RS_FAILED
      | Inr a \<Rightarrow>
          (case rres_status r of
             RS_UNSPECIFIED \<Rightarrow> False
           | RS_FAILED \<Rightarrow> rres_document r = None \<and> rres_failure r \<noteq> None
           | RS_FOUND \<Rightarrow> \<exists>x. ms_records s (ad_routingKey a) = Some x \<and> rres_revision r = Some (mr_revision x) \<and>
               rres_document r = Some \<lparr>d_encoding = api_encoding (sd_encoding (mr_document x)), d_payload = sd_payload (mr_document x)\<rparr>
           | RS_NOT_FOUND \<Rightarrow> ms_records s (ad_routingKey a) = None))"

lemma answers_store: "answers env (mem_truth store v) op r \<Longrightarrow> reads_store env (store v) op r"
  by (auto simp: answers_def reads_store_def mem_truth_def split: sum.splits ReadStatus.splits)

text \<open>
  C29: Whatever calls are coalesced, \<open>executeReads\<close> over the memory store returns, and it completes every
  call exactly once. Retrying the callers that were put off in smaller groups makes progress, because a
  caller that runs alone is never put off.
\<close>

theorem coalesced_reads_end:
  assumes "re_read (xr_server env) = memory_read store grow" "canonical (re_uri (xr_server env))" "0 < re_maxReadBytes (xr_server env)"
  shows "\<exists>events cs' w'. executeReads env calls cs w = Some (events, cs', w') \<and> mset (map fst events) = mset (map rc_id calls)"
  using memory_reads.executeReads_ends[OF assms, of calls cs w] by blast

text \<open>
  C28: A coalesced read hands every caller its own answers: one result for each of its operations, numbered
  from zero, all of them right in one and the same state of the store.
\<close>

theorem coalesced_reads_answers:
  assumes "re_read (xr_server env) = memory_read store grow" "canonical (re_uri (xr_server env))" "0 < re_maxReadBytes (xr_server env)"
    and "executeReads env calls cs w = Some (events, cs', w')" "(n, Inr results) \<in> set events"
  shows "\<exists>c \<in> set calls. rc_id c = n \<and> length results = length (rc_operations c) \<and>
    (\<exists>v. \<forall>k < length results. rres_index (results ! k) = word_of_nat k \<and> reads_store (xr_server env) (store v) (rc_operations c ! k) (results ! k))"
proof -
  have "read_event_ok (xr_server env) (mem_truth store) calls (n, Inr results)"
    using memory_reads.executeReads_ends[OF assms(1-3), of calls cs w] assms(4,5) by auto
  then obtain c v where c: "c \<in> set calls" "rc_id c = n" "length results = length (rc_operations c)"
      "\<forall>k < length results. rres_index (results ! k) = word_of_nat k \<and> answers (xr_server env) (mem_truth store v) (rc_operations c ! k) (results ! k)"
    unfolding read_event_ok_def snd_conv fst_conv sum.case by blast
  then show ?thesis by (intro bexI[OF _ c(1)] conjI exI[of _ v]) (simp_all add: answers_store)
qed

text \<open>
  C30: The documents of one answered read, over all the callers that were coalesced into it, fit in the read
  limit, each counted with its overhead.
\<close>

theorem read_response_bounded:
  assumes "server_read env ops budgets cs w = (Inr out, cs', w')" "owners_fit budgets (length ops)" "0 \<le> re_maxReadBytes env"
  shows "(\<Sum>i < length ops. result_bytes (ro_results out ! i)) \<le> re_maxReadBytes env"
  using server_read_bytes[OF assms] .


definition demo_read_uri :: uri_parser where
  "demo_read_uri u =
     (if u = ''a'' then Inr \<lparr>ad_store = ''s'', ad_segments = [''t'', ''a''], ad_string = ''a'', ad_routingKey = ''a''\<rparr> else Inl ''bad'')"

definition demo_read_store :: mem_store where
  "demo_read_store =
     \<lparr>ms_records = [''a'' \<mapsto> \<lparr>mr_document = \<lparr>sd_encoding = EncodingJSON, sd_payload = [123, 125]\<rparr>, mr_revision = [7]\<rparr>], ms_nextRevision = 8\<rparr>"

definition demo_reads :: "unit reads_env" where
  "demo_reads =
     \<lparr>xr_server =
        \<lparr>re_maxOperations = 10, re_maxReadBytes = 300, re_uri = demo_read_uri, re_batchKey = (\<lambda>_. Inr []), re_sizeVT = (\<lambda>_. 10),
         re_admit = (\<lambda>_ w. (Inr (None, False), w)), re_release = (\<lambda>w. w),
         re_read = memory_read (\<lambda>_. demo_read_store) (\<lambda>_ w. (None, w)), re_grow = (\<lambda>_ w. (None, w)), re_output = (\<lambda>_ _ w. (None, w))\<rparr>,
      xr_byteLimit = 1000000, xr_managed = False, xr_ctx = (\<lambda>_ w. (None, w))\<rparr>"

definition demo_read_op :: "string \<Rightarrow> ReadOperation" where
  "demo_read_op u = \<lparr>ro_address = Some \<lparr>a_uri = u\<rparr>\<rparr>"

definition demo_read_calls :: "read_call list" where
  "demo_read_calls =
     [\<lparr>rc_id = 1, rc_operations = [demo_read_op ''a''], rc_ctx = (None, False)\<rparr>,
      \<lparr>rc_id = 2, rc_operations = [demo_read_op ''b'', demo_read_op ''a'', demo_read_op ''a''], rc_ctx = (None, False)\<rparr>]"

definition demo_read_events :: "read_event list" where
  "demo_read_events = (case executeReads demo_reads demo_read_calls [] () of None \<Rightarrow> [] | Some (ev, _) \<Rightarrow> ev)"

declare read_loop.simps [code]

lemma demo_read_events_value: "map (\<lambda>(n, r). (n, map_sum (\<lambda>_. ()) (map rres_status) r)) demo_read_events = [(1, Inr [RS_FOUND]), (2, Inr [RS_FAILED, RS_FOUND, RS_FOUND])]"
  by code_simp


lemma demo_reads_env: "re_read (xr_server demo_reads) = memory_read (\<lambda>_. demo_read_store) (\<lambda>_ w. (None, w))"
  "canonical (re_uri (xr_server demo_reads))" "0 < re_maxReadBytes (xr_server demo_reads)"
  by (auto simp: demo_reads_def canonical_def demo_read_uri_def split: if_splits)

theorem coalesced_reads_end_witness:
  "\<exists>events cs' w'. executeReads demo_reads demo_read_calls [] () = Some (events, cs', w') \<and> mset (map fst events) = {#1, 2#}"
  using coalesced_reads_end[OF demo_reads_env, of demo_read_calls "[]" "()"] by (simp add: demo_read_calls_def)

theorem coalesced_reads_answers_witness:
  "\<exists>results. (1, Inr results) \<in> set demo_read_events \<and>
     (\<exists>c \<in> set demo_read_calls. rc_id c = 1 \<and> length results = length (rc_operations c) \<and>
       (\<forall>k < length results. rres_index (results ! k) = word_of_nat k \<and>
         reads_store (xr_server demo_reads) demo_read_store (rc_operations c ! k) (results ! k)))"
proof -
  obtain r rest where ev: "demo_read_events = (1, r) # rest" and r: "map_sum (\<lambda>_. ()) (map rres_status) r = Inr [RS_FOUND]"
    using demo_read_events_value by (cases demo_read_events) auto
  obtain results where res: "r = Inr results" using r by (cases r) auto
  obtain cs' w' where run: "executeReads demo_reads demo_read_calls [] () = Some (demo_read_events, cs', w')"
    using ev by (auto simp: demo_read_events_def split: option.splits)
  have mem: "(1, Inr results) \<in> set demo_read_events" unfolding ev res by simp
  show ?thesis by (intro exI[of _ results] conjI[OF mem]) (use coalesced_reads_answers[OF demo_reads_env run mem] in simp)
qed

definition demo_read_out :: readOutcome where
  "demo_read_out = (case server_read (xr_server demo_reads) [demo_read_op ''a'', demo_read_op ''a''] None [] () of (Inr o', _) \<Rightarrow> o' | _ \<Rightarrow> \<lparr>ro_results = [], ro_deferred = []\<rparr>)"

lemma demo_read_out_value: "(case server_read (xr_server demo_reads) [demo_read_op ''a'', demo_read_op ''a''] None [] () of (Inr o', _) \<Rightarrow> True | _ \<Rightarrow> False)"
  "map result_bytes (ro_results demo_read_out) = [130, 130]"
  by code_simp+

theorem read_response_bounded_witness:
  "map result_bytes (ro_results demo_read_out) = [130, 130] \<and> (\<Sum>i < 2. result_bytes (ro_results demo_read_out ! i)) \<le> 300"
proof -
  obtain cs' w' where "server_read (xr_server demo_reads) [demo_read_op ''a'', demo_read_op ''a''] None [] () = (Inr demo_read_out, cs', w')"
    using demo_read_out_value(1) by (auto simp: demo_read_out_def split: sum.splits prod.splits)
  then show ?thesis using read_response_bounded[of "xr_server demo_reads" "[demo_read_op ''a'', demo_read_op ''a'']" None "[]" "()" demo_read_out cs' w']
      demo_read_out_value(2)
    by (simp add: owners_fit_def owner_def callerCount_def demo_reads_def numeral_2_eq_2)
qed

end
