(* ===== verification/Queue_Codec.thy ===== *)
theory Queue_Codec
  imports Storage
begin

text \<open>
  Queued mutations and their envelope, \<open>src/internal/queue/queue.go\<close> and \<open>codec.go\<close>. The
  generated encoders \<open>SizeVT\<close>, \<open>MarshalToSizedBufferVT\<close> and \<open>UnmarshalVT\<close> of the two operation
  messages are the fields of a codec record, and the URI library is a parameter.
\<close>

section \<open>Mutations\<close>

record mutation =
  mu_Write :: "WriteOperation option"
  mu_Delete :: "DeleteOperation option"

datatype queue_message = WriteMessage WriteOperation | DeleteMessage DeleteOperation

record message_codec =
  mc_size :: "queue_message \<Rightarrow> nat"
  mc_marshal :: "queue_message \<Rightarrow> string + bytes"
  mc_unmarshalWrite :: "bytes \<Rightarrow> string + WriteOperation"
  mc_unmarshalDelete :: "bytes \<Rightarrow> string + DeleteOperation"

definition envelopeMagic :: bytes where
  "envelopeMagic = [83, 78, 75, 81]"

definition envelopeVersion :: byte where
  "envelopeVersion = 2"

definition mutationWrite :: byte where
  "mutationWrite = 1"

definition mutationDelete :: byte where
  "mutationDelete = 2"

lemmas envelope_defs = envelopeMagic_def envelopeVersion_def mutationWrite_def mutationDelete_def

definition mutationMessage :: "mutation \<Rightarrow> string + byte \<times> queue_message" where
  "mutationMessage m =
     (case (mu_Write m, mu_Delete m) of
        (Some _, Some _) \<Rightarrow> Inl ''queue mutation contains both write and delete operations''
      | (Some w, None) \<Rightarrow> Inr (mutationWrite, WriteMessage w)
      | (None, Some d) \<Rightarrow> Inr (mutationDelete, DeleteMessage d)
      | (None, None) \<Rightarrow> Inl ''queue mutation has no operation'')"

definition mutationAddress :: "uri_parser \<Rightarrow> mutation \<Rightarrow> string + RecordAddress option" where
  "mutationAddress uri m =
     (case mutationMessage m of
        Inl e \<Rightarrow> Inl e
      | Inr (_, message) \<Rightarrow>
          (let address = (case message of WriteMessage w \<Rightarrow> wo_address w | DeleteMessage d \<Rightarrow> do_address d)
           in case ParseAddress uri address of Inl e \<Rightarrow> Inl e | Inr _ \<Rightarrow> Inr address))"

definition MutationKey :: "uri_parser \<Rightarrow> mutation \<Rightarrow> string + string" where
  "MutationKey uri m =
     (case mutationAddress uri m of Inl e \<Rightarrow> Inl e | Inr address \<Rightarrow> Inr (getUri address))"

definition MutationStore :: "uri_parser \<Rightarrow> mutation \<Rightarrow> string + string" where
  "MutationStore uri m =
     (case mutationAddress uri m of Inl e \<Rightarrow> Inl e | Inr address \<Rightarrow> Inr (RecordStore uri address))"

section \<open>The envelope\<close>

definition MutationSize :: "message_codec \<Rightarrow> mutation \<Rightarrow> nat" where
  "MutationSize codec m =
     (case mutationMessage m of
        Inl _ \<Rightarrow> 0
      | Inr (_, message) \<Rightarrow> length envelopeMagic + 2 + mc_size codec message)"

definition MarshalMutation :: "message_codec \<Rightarrow> mutation \<Rightarrow> string + bytes" where
  "MarshalMutation codec m =
     (case mutationMessage m of
        Inl e \<Rightarrow> Inl e
      | Inr (kind, message) \<Rightarrow>
          (case mc_marshal codec message of
             Inl e \<Rightarrow> Inl (''marshal queue mutation: '' @ e)
           | Inr payload \<Rightarrow> Inr (envelopeMagic @ [envelopeVersion, kind] @ payload)))"

definition UnmarshalMutation :: "message_codec \<Rightarrow> bytes \<Rightarrow> string + mutation" where
  "UnmarshalMutation codec envelope =
     (if length envelope < length envelopeMagic + 2 then Inl ''queue mutation envelope is truncated''
      else if take (length envelopeMagic) envelope \<noteq> envelopeMagic then
        Inl ''queue mutation envelope has invalid magic''
      else if envelope ! length envelopeMagic \<noteq> envelopeVersion then
        Inl (''unsupported queue mutation envelope version '' @ dec (unat (envelope ! length envelopeMagic)))
      else
        let kind = envelope ! (length envelopeMagic + 1);
            payload = drop (length envelopeMagic + 2) envelope
        in if kind = mutationWrite then
             (case mc_unmarshalWrite codec payload of
                Inl e \<Rightarrow> Inl (''unmarshal queued write: '' @ e)
              | Inr operation \<Rightarrow> Inr \<lparr>mu_Write = Some operation, mu_Delete = None\<rparr>)
           else if kind = mutationDelete then
             (case mc_unmarshalDelete codec payload of
                Inl e \<Rightarrow> Inl (''unmarshal queued delete: '' @ e)
              | Inr operation \<Rightarrow> Inr \<lparr>mu_Write = None, mu_Delete = Some operation\<rparr>)
           else Inl (''unsupported queue mutation kind '' @ dec (unat kind)))"

section \<open>Round trip\<close>

lemma mutationMessage_cases:
  assumes "mutationMessage m = Inr (kind, message)"
  obtains (Write) w where "m = \<lparr>mu_Write = Some w, mu_Delete = None\<rparr>" "kind = mutationWrite" "message = WriteMessage w"
  | (Delete) d where "m = \<lparr>mu_Write = None, mu_Delete = Some d\<rparr>" "kind = mutationDelete" "message = DeleteMessage d"
  using assms by (cases m) (auto simp: mutationMessage_def split: option.splits)

lemma MutationKey_message: "MutationKey uri m = Inr k \<Longrightarrow> \<exists>kind message. mutationMessage m = Inr (kind, message)"
  by (auto simp: MutationKey_def mutationAddress_def split: sum.splits)

text \<open>What protobuf promises of a message's three generated functions.\<close>

definition codec_laws :: "message_codec \<Rightarrow> bool" where
  "codec_laws codec \<longleftrightarrow>
     (\<forall>w payload. mc_marshal codec (WriteMessage w) = Inr payload \<longrightarrow> mc_unmarshalWrite codec payload = Inr w) \<and>
     (\<forall>d payload. mc_marshal codec (DeleteMessage d) = Inr payload \<longrightarrow> mc_unmarshalDelete codec payload = Inr d) \<and>
     (\<forall>message payload. mc_marshal codec message = Inr payload \<longrightarrow> length payload = mc_size codec message)"

lemma codec_write: "codec_laws codec \<Longrightarrow> mc_marshal codec (WriteMessage w) = Inr p \<Longrightarrow> mc_unmarshalWrite codec p = Inr w"
  and codec_delete: "codec_laws codec \<Longrightarrow> mc_marshal codec (DeleteMessage d) = Inr p \<Longrightarrow> mc_unmarshalDelete codec p = Inr d"
  and codec_size: "codec_laws codec \<Longrightarrow> mc_marshal codec msg = Inr p \<Longrightarrow> length p = mc_size codec msg"
  by (auto simp: codec_laws_def)

lemma envelope_payload:
  assumes "MarshalMutation codec m = Inr envelope"
  obtains kind message payload where "mutationMessage m = Inr (kind, message)"
    "mc_marshal codec message = Inr payload" "envelope = 83 # 78 # 75 # 81 # 2 # kind # payload"
  using assms by (auto simp: MarshalMutation_def envelope_defs split: sum.splits prod.splits)

text \<open>
  C36: the queue envelope. What \<open>MarshalMutation\<close> produces for a mutation has the size that
  \<open>MutationSize\<close> announced and is read back by \<open>UnmarshalMutation\<close> as the same mutation; conversely
  an envelope that is read back carries exactly one operation. The generated protobuf functions
  are assumed to invert each other and to report their encoded size.
\<close>

theorem mutation_envelope_roundtrip:
  assumes "codec_laws codec" "MarshalMutation codec m = Inr envelope"
  shows "UnmarshalMutation codec envelope = Inr m \<and> length envelope = MutationSize codec m \<and>
    (\<forall>other m'. UnmarshalMutation codec other = Inr m' \<longrightarrow> (\<exists>kind message. mutationMessage m' = Inr (kind, message)))"
proof (intro conjI)
  obtain kind message payload where m: "mutationMessage m = Inr (kind, message)"
    "mc_marshal codec message = Inr payload" "envelope = 83 # 78 # 75 # 81 # 2 # kind # payload"
    using envelope_payload[OF assms(2)] .
  show "length envelope = MutationSize codec m"
    using m codec_size[OF assms(1) m(2)] by (simp add: MutationSize_def envelope_defs)
  show "UnmarshalMutation codec envelope = Inr m"
    using m(1)
  proof (cases rule: mutationMessage_cases)
    case (Write w)
    then show ?thesis using m codec_write[OF assms(1)] by (simp add: UnmarshalMutation_def envelope_defs)
  next
    case (Delete d)
    then show ?thesis using m codec_delete[OF assms(1)] by (simp add: UnmarshalMutation_def envelope_defs)
  qed
  show "\<forall>other m'. UnmarshalMutation codec other = Inr m' \<longrightarrow> (\<exists>kind message. mutationMessage m' = Inr (kind, message))"
    by (auto simp: UnmarshalMutation_def Let_def mutationMessage_def split: if_splits sum.splits)
qed

text \<open>A codec of address-only messages: the bytes of the URI, refusing every other operation.\<close>

definition uri_bytes :: "RecordAddress option \<Rightarrow> bytes" where
  "uri_bytes a = map (of_nat \<circ> of_char) (getUri a)"

definition demo_message :: "queue_message \<Rightarrow> string + bytes" where
  "demo_message message =
     (case message of
        WriteMessage w \<Rightarrow>
          (case wo_address w of
             Some a \<Rightarrow> if w = \<lparr>wo_address = Some a, wo_returnDocument = False, wo_action = NoAction\<rparr>
                       then Inr (uri_bytes (Some a)) else Inl ''unsupported''
           | None \<Rightarrow> Inl ''unsupported'')
      | DeleteMessage d \<Rightarrow> (case do_address d of Some a \<Rightarrow> Inr (uri_bytes (Some a)) | None \<Rightarrow> Inl ''unsupported''))"

definition demo_codec :: message_codec where
  "demo_codec =
     \<lparr>mc_size = (\<lambda>message. case message of WriteMessage w \<Rightarrow> length (getUri (wo_address w))
                                      | DeleteMessage d \<Rightarrow> length (getUri (do_address d))),
      mc_marshal = demo_message,
      mc_unmarshalWrite = (\<lambda>p. Inr \<lparr>wo_address = Some \<lparr>a_uri = map (char_of \<circ> unat) p\<rparr>, wo_returnDocument = False, wo_action = NoAction\<rparr>),
      mc_unmarshalDelete = (\<lambda>p. Inr \<lparr>do_address = Some \<lparr>a_uri = map (char_of \<circ> unat) p\<rparr>\<rparr>)\<rparr>"

lemma of_char_byte: "char_of (unat (of_nat (of_char c) :: byte)) = c"
  by (simp add: unat_of_nat)

lemma demo_codec_laws: "codec_laws demo_codec"
  by (auto simp: codec_laws_def demo_codec_def demo_message_def uri_bytes_def getUri_def comp_def of_char_byte
      split: option.splits if_splits queue_message.splits)

definition demo_delete :: "string \<Rightarrow> mutation" where
  "demo_delete u = \<lparr>mu_Write = None, mu_Delete = Some \<lparr>do_address = Some \<lparr>a_uri = u\<rparr>\<rparr>\<rparr>"

theorem mutation_envelope_roundtrip_witness:
  "MarshalMutation demo_codec (demo_delete ''ab'') = Inr [83, 78, 75, 81, 2, 2, 97, 98] \<and>
   UnmarshalMutation demo_codec [83, 78, 75, 81, 2, 2, 97, 98] = Inr (demo_delete ''ab'') \<and>
   MutationSize demo_codec (demo_delete ''ab'') = 8"
proof -
  have e: "MarshalMutation demo_codec (demo_delete ''ab'') = Inr [83, 78, 75, 81, 2, 2, 97, 98]" by code_simp
  from mutation_envelope_roundtrip[OF demo_codec_laws e] e show ?thesis by simp
qed

end
