(* ===== verification/Mutation_Worker.thy ===== *)
theory Mutation_Worker
  imports Queue_Codec
begin

text \<open>
  Application of queued mutations, \<open>src/internal/worker/processor.go\<close>: \<open>HandleBatch\<close> splits a batch
  into waves with at most one mutation of each record, sends the writes and the deletes of a wave to
  the applier, halves a request that admission rejected, and holds back later mutations of a record
  after a retryable failure. The applier, its context and \<open>status.Code\<close> are fields of a record; what
  the applier does is a change of a world \<^typ>\<open>'w\<close>.
\<close>

section \<open>Errors of the worker\<close>

record ApplyError =
  ae_operation :: string
  ae_retryable :: bool
  ae_cause :: err

definition NewApplyError :: "string \<Rightarrow> bool \<Rightarrow> err \<Rightarrow> ApplyError" where
  "NewApplyError operation retryable cause = \<lparr>ae_operation = operation, ae_retryable = retryable, ae_cause = cause\<rparr>"

definition apply_error_text :: "ApplyError \<Rightarrow> string" where
  "apply_error_text e = ae_operation e @ '': '' @ error_text (ae_cause e)"

definition resultApplyError :: "string \<Rightarrow> Failure option \<Rightarrow> ApplyError" where
  "resultApplyError operation failure =
     (case failure of
        None \<Rightarrow> NewApplyError operation True (ErrText ''sink returned a mutation failure without details'')
      | Some f \<Rightarrow>
          NewApplyError operation
            (if f_code f \<in> {FC_INVALID_ARGUMENT, FC_PRECONDITION_FAILED, FC_NOT_FOUND, FC_RESOURCE_EXHAUSTED}
             then f_retryable f else True)
            (ErrText (f_message f)))"

section \<open>Sending one group of mutations\<close>

record 'w applier =
  ap_write :: "WriteRequest \<Rightarrow> 'w \<Rightarrow> (err + WriteResult list) \<times> 'w"
  ap_delete :: "DeleteRequest \<Rightarrow> 'w \<Rightarrow> (err + DeleteResult list) \<times> 'w"
  ap_ctxErr :: "'w \<Rightarrow> ctx_err option \<times> 'w"
  ap_code :: "err \<Rightarrow> code"

record mutationWork =
  wk_index :: nat
  wk_routing :: string
  wk_mutation :: mutation

text \<open>The answer of an applier as both senders read it: per operation, whether it was applied, or its failure.\<close>

type_synonym 'w sender = "mutationWork list \<Rightarrow> 'w \<Rightarrow> (err + (bool \<times> Failure option) list) \<times> 'w"

fun fail_all :: "ApplyError \<Rightarrow> mutationWork list \<Rightarrow> ApplyError option list \<Rightarrow> ApplyError option list" where
  "fail_all e [] results = results"
| "fail_all e (operation # operations) results = fail_all e operations (results[wk_index operation := Some e])"

fun settle_results ::
    "'w applier \<Rightarrow> string \<Rightarrow> mutationWork list \<Rightarrow> (bool \<times> Failure option) list \<Rightarrow> ApplyError option list \<Rightarrow> 'w \<Rightarrow>
     ApplyError option list \<times> 'w" where
  "settle_results ap label (operation # operations) ((applied, failure) # answers) results w =
     (if applied then settle_results ap label operations answers results w
      else
        let (ctxErr, w1) = ap_ctxErr ap w;
            e = (case ctxErr of
                   Some c \<Rightarrow> NewApplyError label True (ErrContext c)
                 | None \<Rightarrow> resultApplyError label failure)
        in settle_results ap label operations answers (results[wk_index operation := Some e]) w1)"
| "settle_results ap label _ _ results w = (results, w)"

definition may_split :: "'w applier \<Rightarrow> err \<Rightarrow> mutationWork list \<Rightarrow> 'w \<Rightarrow> bool \<times> 'w" where
  "may_split ap e operations w =
     (if ap_code ap e = ResourceExhausted \<and> 1 < length operations
      then (case ap_ctxErr ap w of (ctxErr, w1) \<Rightarrow> (ctxErr = None, w1))
      else (False, w))"

lemma may_split_length: "may_split ap e operations w = (True, w1) \<Longrightarrow> 1 < length operations"
  by (auto simp: may_split_def split: if_splits)

text \<open>The common body of \<open>applyWrites\<close> and \<open>applyDeletes\<close>; \<open>noun\<close> is \<open>write\<close> or \<open>delete\<close> in the messages.\<close>

function apply_operations ::
    "'w applier \<Rightarrow> 'w sender \<Rightarrow> string \<Rightarrow> mutationWork list \<Rightarrow> ApplyError option list \<Rightarrow> 'w \<Rightarrow> ApplyError option list \<times> 'w" where
  "apply_operations ap send noun operations results w =
     (if operations = [] then (results, w)
      else
        case send operations w of
          (Inl e, w1) \<Rightarrow>
            (case may_split ap e operations w1 of
               (True, w2) \<Rightarrow>
                 let middle = length operations div 2;
                     (results1, w3) = apply_operations ap send noun (take middle operations) results w2
                 in apply_operations ap send noun (drop middle operations) results1 w3
             | (False, w2) \<Rightarrow>
                 (fail_all (NewApplyError (''apply queued '' @ noun @ ''s'') True e) operations results, w2))
        | (Inr answers, w1) \<Rightarrow>
            if length answers \<noteq> length operations then
              (fail_all (NewApplyError (''apply queued '' @ noun @ ''s'') True
                 (ErrText (''sink returned an invalid queued '' @ noun @ '' result count''))) operations results, w1)
            else settle_results ap (''apply queued '' @ noun) operations answers results w1)"
  by pat_completeness auto
termination
  by (relation "measure (\<lambda>(ap, send, noun, operations, results, w). length operations)")
    (auto dest!: may_split_length sym[of _ "may_split _ _ _ _"])

declare apply_operations.simps [simp del]

definition send_writes :: "'w applier \<Rightarrow> 'w sender" where
  "send_writes ap operations w =
     (case ap_write ap \<lparr>wr_mode = WAIT_UNTIL_APPLIED, wr_operations = map (\<lambda>op. the (mu_Write (wk_mutation op))) operations,
          wr_programs = []\<rparr> w of
        (Inl e, w1) \<Rightarrow> (Inl e, w1)
      | (Inr results, w1) \<Rightarrow> (Inr (map (\<lambda>r. (wres_status r = WS_APPLIED, wres_failure r)) results), w1))"

definition send_deletes :: "'w applier \<Rightarrow> 'w sender" where
  "send_deletes ap operations w =
     (case ap_delete ap \<lparr>dr_mode = WAIT_UNTIL_APPLIED, dr_operations = map (\<lambda>op. the (mu_Delete (wk_mutation op))) operations\<rparr> w of
        (Inl e, w1) \<Rightarrow> (Inl e, w1)
      | (Inr results, w1) \<Rightarrow> (Inr (map (\<lambda>r. (dres_status r = DS_APPLIED, dres_failure r)) results), w1))"

definition applyWrites ::
    "'w applier \<Rightarrow> mutationWork list \<Rightarrow> ApplyError option list \<Rightarrow> 'w \<Rightarrow> ApplyError option list \<times> 'w" where
  "applyWrites ap = apply_operations ap (send_writes ap) ''write''"

definition applyDeletes ::
    "'w applier \<Rightarrow> mutationWork list \<Rightarrow> ApplyError option list \<Rightarrow> 'w \<Rightarrow> ApplyError option list \<times> 'w" where
  "applyDeletes ap = apply_operations ap (send_deletes ap) ''delete''"

section \<open>Batches\<close>

fun prepare :: "uri_parser \<Rightarrow> nat \<Rightarrow> mutation list \<Rightarrow> ApplyError option list \<times> mutationWork list" where
  "prepare uri index [] = ([], [])"
| "prepare uri index (m # ms) =
     (let (results, prepared) = prepare uri (Suc index) ms
      in case MutationKey uri m of
           Inl e \<Rightarrow> (Some (NewApplyError ''apply queued mutation'' False (ErrText e)) # results, prepared)
         | Inr key \<Rightarrow> (None # results, \<lparr>wk_index = index, wk_routing = key, wk_mutation = m\<rparr> # prepared))"

fun waves_loop :: "mutationWork list \<Rightarrow> mutationWork list list \<Rightarrow> (string \<Rightarrow> nat) \<Rightarrow> mutationWork list list" where
  "waves_loop [] waves occurrences = waves"
| "waves_loop (operation # operations) waves occurrences =
     (let waveIndex = occurrences (wk_routing operation);
          waves1 = waves @ replicate (Suc waveIndex - length waves) []
      in waves_loop operations (waves1[waveIndex := waves1 ! waveIndex @ [operation]])
           (occurrences(wk_routing operation := Suc waveIndex)))"

definition buildMutationWaves :: "mutationWork list \<Rightarrow> mutationWork list list" where
  "buildMutationWaves operations = waves_loop operations [] (\<lambda>_. 0)"

text \<open>The first inner loop over a wave: blocked mutations get the blocking error, the others are grouped.\<close>

fun split_wave ::
    "(string \<rightharpoonup> ApplyError) \<Rightarrow> mutationWork list \<Rightarrow> ApplyError option list \<Rightarrow>
     ApplyError option list \<times> mutationWork list \<times> mutationWork list" where
  "split_wave blocked [] results = (results, [], [])"
| "split_wave blocked (work # wave) results =
     (case blocked (wk_routing work) of
        Some e \<Rightarrow> split_wave blocked wave (results[wk_index work := Some e])
      | None \<Rightarrow>
          (let (results1, writes, deletes) = split_wave blocked wave results
           in if mu_Write (wk_mutation work) \<noteq> None then (results1, work # writes, deletes)
              else (results1, writes, work # deletes)))"

text \<open>The second one: a retryable failure blocks its record.\<close>

fun block_wave ::
    "mutationWork list \<Rightarrow> ApplyError option list \<Rightarrow> (string \<rightharpoonup> ApplyError) \<Rightarrow> (string \<rightharpoonup> ApplyError)" where
  "block_wave [] results blocked = blocked"
| "block_wave (work # wave) results blocked =
     block_wave wave results
       (case results ! wk_index work of
          Some failure \<Rightarrow> if ae_retryable failure then blocked(wk_routing work \<mapsto> failure) else blocked
        | None \<Rightarrow> blocked)"

fun run_waves ::
    "'w applier \<Rightarrow> mutationWork list list \<Rightarrow> (string \<rightharpoonup> ApplyError) \<Rightarrow> ApplyError option list \<Rightarrow> 'w \<Rightarrow>
     ApplyError option list \<times> 'w" where
  "run_waves ap [] blocked results w = (results, w)"
| "run_waves ap (wave # waves) blocked results w =
     (let (results1, writes, deletes) = split_wave blocked wave results;
          (results2, w1) = applyWrites ap writes results1 w;
          (results3, w2) = applyDeletes ap deletes results2 w1
      in run_waves ap waves (block_wave wave results3 blocked) results3 w2)"

definition HandleBatch ::
    "uri_parser \<Rightarrow> 'w applier \<Rightarrow> mutation list \<Rightarrow> 'w \<Rightarrow> ApplyError option list \<times> 'w" where
  "HandleBatch uri ap ms w =
     (let (results, prepared) = prepare uri 0 ms
      in run_waves ap (buildMutationWaves prepared) Map.empty results w)"

definition Handle :: "uri_parser \<Rightarrow> 'w applier \<Rightarrow> mutation \<Rightarrow> 'w \<Rightarrow> ApplyError option \<times> 'w" where
  "Handle uri ap m w = (let (results, w1) = HandleBatch uri ap [m] w in (results ! 0, w1))"

section \<open>What the applier promises\<close>

text \<open>
  \<open>hist w k\<close> is the sequence of mutations of record \<open>k\<close> applied so far. A request whose
  operations are on distinct records applies each of them at most once; an operation reported
  as applied was applied; a request rejected with \<open>ResourceExhausted\<close> applied nothing. Reading
  the context applies nothing.
\<close>

definition request_effect ::
    "uri_parser \<Rightarrow> ('w \<Rightarrow> string \<Rightarrow> mutation list) \<Rightarrow> 'w \<Rightarrow> 'w \<Rightarrow> mutation list \<Rightarrow> (nat \<Rightarrow> bool) \<Rightarrow> bool" where
  "request_effect uri hist w w' ms reported \<longleftrightarrow>
     (\<forall>k. (\<exists>i < length ms. MutationKey uri (ms ! i) = Inr k \<and> hist w' k = hist w k @ [ms ! i]) \<or>
          hist w' k = hist w k \<and> (\<forall>i < length ms. MutationKey uri (ms ! i) = Inr k \<longrightarrow> \<not> reported i))"

definition write_mutation :: "WriteOperation \<Rightarrow> mutation" where
  "write_mutation op = \<lparr>mu_Write = Some op, mu_Delete = None\<rparr>"

definition delete_mutation :: "DeleteOperation \<Rightarrow> mutation" where
  "delete_mutation op = \<lparr>mu_Write = None, mu_Delete = Some op\<rparr>"

definition applier_contract :: "uri_parser \<Rightarrow> 'w applier \<Rightarrow> ('w \<Rightarrow> string \<Rightarrow> mutation list) \<Rightarrow> bool" where
  "applier_contract uri ap hist \<longleftrightarrow>
     (\<forall>req w r w'. ap_write ap req w = (r, w') \<longrightarrow>
        distinct (map (MutationKey uri \<circ> write_mutation) (wr_operations req)) \<longrightarrow>
        request_effect uri hist w w' (map write_mutation (wr_operations req))
          (\<lambda>i. case r of Inl _ \<Rightarrow> False | Inr rs \<Rightarrow> i < length rs \<and> wres_status (rs ! i) = WS_APPLIED) \<and>
        (case r of Inl e \<Rightarrow> ap_code ap e = ResourceExhausted \<longrightarrow> hist w' = hist w | Inr _ \<Rightarrow> True)) \<and>
     (\<forall>req w r w'. ap_delete ap req w = (r, w') \<longrightarrow>
        distinct (map (MutationKey uri \<circ> delete_mutation) (dr_operations req)) \<longrightarrow>
        request_effect uri hist w w' (map delete_mutation (dr_operations req))
          (\<lambda>i. case r of Inl _ \<Rightarrow> False | Inr rs \<Rightarrow> i < length rs \<and> dres_status (rs ! i) = DS_APPLIED) \<and>
        (case r of Inl e \<Rightarrow> ap_code ap e = ResourceExhausted \<longrightarrow> hist w' = hist w | Inr _ \<Rightarrow> True)) \<and>
     (\<forall>w c w'. ap_ctxErr ap w = (c, w') \<longrightarrow> hist w' = hist w)"

text \<open>The same for a sender of works whose routing is their mutation's key.\<close>

definition routed :: "uri_parser \<Rightarrow> mutationWork \<Rightarrow> bool" where
  "routed uri op \<longleftrightarrow> MutationKey uri (wk_mutation op) = Inr (wk_routing op)"

definition sender_contract ::
    "uri_parser \<Rightarrow> 'w applier \<Rightarrow> ('w \<Rightarrow> string \<Rightarrow> mutation list) \<Rightarrow> (mutationWork \<Rightarrow> bool) \<Rightarrow> 'w sender \<Rightarrow> bool" where
  "sender_contract uri ap hist kind send \<longleftrightarrow>
     (\<forall>operations w r w'. send operations w = (r, w') \<longrightarrow>
        (\<forall>op \<in> set operations. routed uri op \<and> kind op) \<longrightarrow> distinct (map wk_routing operations) \<longrightarrow>
        request_effect uri hist w w' (map wk_mutation operations)
          (\<lambda>i. case r of Inl _ \<Rightarrow> False | Inr rs \<Rightarrow> i < length rs \<and> fst (rs ! i)) \<and>
        (case r of Inl e \<Rightarrow> ap_code ap e = ResourceExhausted \<longrightarrow> hist w' = hist w | Inr _ \<Rightarrow> True))"

definition is_write :: "mutationWork \<Rightarrow> bool" where
  "is_write op \<longleftrightarrow> mu_Write (wk_mutation op) \<noteq> None"

lemma routed_write:
  assumes "routed uri op" "is_write op"
  shows "write_mutation (the (mu_Write (wk_mutation op))) = wk_mutation op"
proof -
  obtain kind message where "mutationMessage (wk_mutation op) = Inr (kind, message)"
    using assms(1) MutationKey_message unfolding routed_def by blast
  then show ?thesis
    using assms(2) by (cases rule: mutationMessage_cases) (auto simp: is_write_def write_mutation_def)
qed

lemma routed_delete:
  assumes "routed uri op" "\<not> is_write op"
  shows "delete_mutation (the (mu_Delete (wk_mutation op))) = wk_mutation op"
proof -
  obtain kind message where "mutationMessage (wk_mutation op) = Inr (kind, message)"
    using assms(1) MutationKey_message unfolding routed_def by blast
  then show ?thesis
    using assms(2) by (cases rule: mutationMessage_cases) (auto simp: is_write_def delete_mutation_def)
qed

lemma routed_keys:
  assumes "\<forall>op \<in> set operations. routed uri op" "distinct (map wk_routing operations)"
  shows "distinct (map (MutationKey uri) (map wk_mutation operations))"
proof -
  have "map (MutationKey uri) (map wk_mutation operations) = map Inr (map wk_routing operations)"
    using assms(1) by (simp add: routed_def)
  moreover have "distinct (map (Inr :: string \<Rightarrow> string + string) (map wk_routing operations))"
    using assms(2) by (subst distinct_map) simp
  ultimately show ?thesis by (simp only:)
qed

lemma writes_sender:
  assumes "applier_contract uri ap hist"
  shows "sender_contract uri ap hist is_write (send_writes ap)"
  unfolding sender_contract_def
proof (intro allI impI, goal_cases)
  case (1 operations w r w')
  let ?req = "\<lparr>wr_mode = WAIT_UNTIL_APPLIED, wr_operations = map (\<lambda>op. the (mu_Write (wk_mutation op))) operations, wr_programs = []\<rparr>"
  obtain a where a: "ap_write ap ?req w = (a, w')"
      "r = map_sum (\<lambda>e. e) (map (\<lambda>r. (wres_status r = WS_APPLIED, wres_failure r))) a"
    using 1(1) by (auto simp: send_writes_def split: prod.splits sum.splits)
  have ms: "map write_mutation (wr_operations ?req) = map wk_mutation operations"
    using 1(2) by (auto simp: routed_write)
  have "distinct (map (MutationKey uri \<circ> write_mutation) (wr_operations ?req))"
    using routed_keys[OF _ 1(3)] 1(2) ms by (metis map_map)
  with assms a(1) have e: "request_effect uri hist w w' (map write_mutation (wr_operations ?req))
        (\<lambda>i. case a of Inl _ \<Rightarrow> False | Inr rs \<Rightarrow> i < length rs \<and> wres_status (rs ! i) = WS_APPLIED)"
      "case a of Inl e \<Rightarrow> ap_code ap e = ResourceExhausted \<longrightarrow> hist w' = hist w | Inr _ \<Rightarrow> True"
    unfolding applier_contract_def by blast+
  have same: "(\<lambda>i. case a of Inl _ \<Rightarrow> False | Inr rs \<Rightarrow> i < length rs \<and> wres_status (rs ! i) = WS_APPLIED) =
      (\<lambda>i. case r of Inl _ \<Rightarrow> False | Inr rs \<Rightarrow> i < length rs \<and> fst (rs ! i))"
    using a(2) by (cases a) (auto simp: fun_eq_iff cong: conj_cong)
  show ?case using e(1)[unfolded ms same] e(2) a(2) by (cases a) simp_all
qed

lemma deletes_sender:
  assumes "applier_contract uri ap hist"
  shows "sender_contract uri ap hist (\<lambda>op. \<not> is_write op) (send_deletes ap)"
  unfolding sender_contract_def
proof (intro allI impI, goal_cases)
  case (1 operations w r w')
  let ?req = "\<lparr>dr_mode = WAIT_UNTIL_APPLIED, dr_operations = map (\<lambda>op. the (mu_Delete (wk_mutation op))) operations\<rparr>"
  obtain a where a: "ap_delete ap ?req w = (a, w')"
      "r = map_sum (\<lambda>e. e) (map (\<lambda>r. (dres_status r = DS_APPLIED, dres_failure r))) a"
    using 1(1) by (auto simp: send_deletes_def split: prod.splits sum.splits)
  have ms: "map delete_mutation (dr_operations ?req) = map wk_mutation operations"
    using 1(2) by (auto simp: routed_delete)
  have "distinct (map (MutationKey uri \<circ> delete_mutation) (dr_operations ?req))"
    using routed_keys[OF _ 1(3)] 1(2) ms by (metis map_map)
  with assms a(1) have e: "request_effect uri hist w w' (map delete_mutation (dr_operations ?req))
        (\<lambda>i. case a of Inl _ \<Rightarrow> False | Inr rs \<Rightarrow> i < length rs \<and> dres_status (rs ! i) = DS_APPLIED)"
      "case a of Inl e \<Rightarrow> ap_code ap e = ResourceExhausted \<longrightarrow> hist w' = hist w | Inr _ \<Rightarrow> True"
    unfolding applier_contract_def by blast+
  have same: "(\<lambda>i. case a of Inl _ \<Rightarrow> False | Inr rs \<Rightarrow> i < length rs \<and> dres_status (rs ! i) = DS_APPLIED) =
      (\<lambda>i. case r of Inl _ \<Rightarrow> False | Inr rs \<Rightarrow> i < length rs \<and> fst (rs ! i))"
    using a(2) by (cases a) (auto simp: fun_eq_iff cong: conj_cong)
  show ?case using e(1)[unfolded ms same] e(2) a(2) by (cases a) simp_all
qed


section \<open>Effect of a group on results and history\<close>

definition classified :: "ApplyError option list \<Rightarrow> bool" where
  "classified results \<longleftrightarrow> (\<forall>e. Some e \<in> set results \<longrightarrow> ae_retryable e \<or> (\<exists>text. ae_cause e = ErrText text))"

definition group_effect ::
    "('w \<Rightarrow> string \<Rightarrow> mutation list) \<Rightarrow> mutationWork list \<Rightarrow> ApplyError option list \<Rightarrow> 'w \<Rightarrow> ApplyError option list \<Rightarrow> 'w \<Rightarrow> bool" where
  "group_effect hist operations results w results' w' \<longleftrightarrow>
     length results' = length results \<and>
     (\<forall>j. j \<notin> wk_index ` set operations \<longrightarrow> results' ! j = results ! j) \<and>
     (\<forall>k. k \<notin> wk_routing ` set operations \<longrightarrow> hist w' k = hist w k) \<and>
     (\<forall>op \<in> set operations.
        hist w' (wk_routing op) = hist w (wk_routing op) @ [wk_mutation op] \<or>
        hist w' (wk_routing op) = hist w (wk_routing op) \<and> results' ! wk_index op \<noteq> None) \<and>
     (classified results \<longrightarrow> classified results')"

lemma group_effect_length: "group_effect hist ops rs w rs' w' \<Longrightarrow> length rs' = length rs"
  and group_effect_other: "group_effect hist ops rs w rs' w' \<Longrightarrow> j \<notin> wk_index ` set ops \<Longrightarrow> rs' ! j = rs ! j"
  and group_effect_frame: "group_effect hist ops rs w rs' w' \<Longrightarrow> k \<notin> wk_routing ` set ops \<Longrightarrow> hist w' k = hist w k"
  and group_effect_op: "group_effect hist ops rs w rs' w' \<Longrightarrow> op \<in> set ops \<Longrightarrow>
     hist w' (wk_routing op) = hist w (wk_routing op) @ [wk_mutation op] \<or>
     hist w' (wk_routing op) = hist w (wk_routing op) \<and> rs' ! wk_index op \<noteq> None"
  and group_effect_classified: "group_effect hist ops rs w rs' w' \<Longrightarrow> classified rs \<Longrightarrow> classified rs'"
  unfolding group_effect_def by blast+

lemma group_effect_empty: "group_effect hist [] results w results w"
  by (simp add: group_effect_def)

lemma group_effect_append:
  assumes "group_effect hist xs r w r1 w1" "group_effect hist ys r1 w1 r2 w2"
    and "distinct (map wk_index (xs @ ys))" "distinct (map wk_routing (xs @ ys))"
  shows "group_effect hist (xs @ ys) r w r2 w2"
  unfolding group_effect_def
proof (intro conjI allI impI ballI)
  show "length r2 = length r" using assms(1,2) by (simp add: group_effect_length)
  show "r2 ! j = r ! j" if "j \<notin> wk_index ` set (xs @ ys)" for j
    using that group_effect_other[OF assms(1), of j] group_effect_other[OF assms(2), of j] by (simp add: image_Un)
  show "hist w2 k = hist w k" if "k \<notin> wk_routing ` set (xs @ ys)" for k
    using that group_effect_frame[OF assms(1), of k] group_effect_frame[OF assms(2), of k] by (simp add: image_Un)
  show "classified r2" if "classified r"
    using that group_effect_classified[OF assms(1)] group_effect_classified[OF assms(2)] by simp
  show "hist w2 (wk_routing op) = hist w (wk_routing op) @ [wk_mutation op] \<or>
      hist w2 (wk_routing op) = hist w (wk_routing op) \<and> r2 ! wk_index op \<noteq> None" if "op \<in> set (xs @ ys)" for op
  proof (cases "op \<in> set xs")
    case True
    then have "wk_index op \<notin> wk_index ` set ys" "wk_routing op \<notin> wk_routing ` set ys"
      using assms(3,4) by auto
    then show ?thesis
      using group_effect_op[OF assms(1) True] group_effect_other[OF assms(2)] group_effect_frame[OF assms(2)] by simp
  next
    case False
    then have y: "op \<in> set ys" using that by simp
    then have "wk_routing op \<notin> wk_routing ` set xs" using assms(4) by auto
    then show ?thesis using group_effect_op[OF assms(2) y] group_effect_frame[OF assms(1)] by simp
  qed
qed

lemma length_fail_all [simp]: "length (fail_all e ops results) = length results"
  by (induction ops arbitrary: results) simp_all

lemma fail_all_nth:
  assumes "\<forall>op \<in> set ops. wk_index op < length results"
  shows "fail_all e ops results ! j = (if j \<in> wk_index ` set ops then Some e else results ! j)"
  using assms by (induction ops arbitrary: results) (auto simp: nth_list_update)

lemma classified_update:
  assumes "classified results" "ae_retryable e \<or> (\<exists>text. ae_cause e = ErrText text)"
  shows "classified (results[i := Some e])"
  using assms set_update_subset_insert[of results i "Some e"] by (auto simp: classified_def)

lemma classified_fail_all:
  assumes "classified results" "ae_retryable e"
  shows "classified (fail_all e ops results)"
  using assms by (induction ops arbitrary: results) (simp_all add: classified_update)

lemma NewApplyError_sel [simp]: "ae_retryable (NewApplyError l r c) = r" "ae_cause (NewApplyError l r c) = c"
  by (simp_all add: NewApplyError_def)

lemma resultApplyError_cause: "\<exists>text. ae_cause (resultApplyError l f) = ErrText text"
  by (cases f) (simp_all add: resultApplyError_def)

lemma request_effect_op:
  assumes "request_effect uri hist w w' (map wk_mutation ops) reported" "op \<in> set ops"
    and "\<forall>op \<in> set ops. routed uri op" "distinct (map wk_routing ops)"
  shows "hist w' (wk_routing op) = hist w (wk_routing op) @ [wk_mutation op] \<or>
    hist w' (wk_routing op) = hist w (wk_routing op) \<and> (\<forall>i < length ops. ops ! i = op \<longrightarrow> \<not> reported i)"
proof -
  have "op' = op" if "op' \<in> set ops" "wk_routing op' = wk_routing op" for op'
    using that assms(2,4) by (metis distinct_map inj_onD)
  then have same: "ops ! i = op" if "i < length ops" "MutationKey uri (wk_mutation (ops ! i)) = Inr (wk_routing op)" for i
    using that assms(3) by (metis nth_mem routed_def sum.inject(2))
  have key: "MutationKey uri (wk_mutation op) = Inr (wk_routing op)"
    using assms(2,3) by (simp add: routed_def)
  from assms(1) consider
      (yes) i where "i < length ops" "MutationKey uri (wk_mutation (ops ! i)) = Inr (wk_routing op)"
        "hist w' (wk_routing op) = hist w (wk_routing op) @ [wk_mutation (ops ! i)]"
    | (no) "hist w' (wk_routing op) = hist w (wk_routing op)"
        "\<forall>i < length ops. MutationKey uri (wk_mutation (ops ! i)) = Inr (wk_routing op) \<longrightarrow> \<not> reported i"
    unfolding request_effect_def by (auto dest: spec[of _ "wk_routing op"])
  then show ?thesis
  proof cases
    case yes
    then show ?thesis using same by metis
  next
    case no
    then show ?thesis using key by blast
  qed
qed

lemma request_effect_frame:
  assumes "request_effect uri hist w w' (map wk_mutation ops) reported"
    and "\<forall>op \<in> set ops. routed uri op" "k \<notin> wk_routing ` set ops"
  shows "hist w' k = hist w k"
proof -
  have "\<not> (i < length ops \<and> MutationKey uri (wk_mutation (ops ! i)) = Inr k)" for i
    using assms(2,3) by (metis image_eqI nth_mem routed_def sum.inject(2))
  then show ?thesis using assms(1) unfolding request_effect_def by (auto dest: spec[of _ k])
qed


definition context_quiet :: "'w applier \<Rightarrow> ('w \<Rightarrow> string \<Rightarrow> mutation list) \<Rightarrow> bool" where
  "context_quiet ap hist \<longleftrightarrow> (\<forall>w c w'. ap_ctxErr ap w = (c, w') \<longrightarrow> hist w' = hist w)"

lemma settle_results_spec:
  assumes "settle_results ap label ops answers rs w = (rs', w')" "length answers = length ops"
    and "distinct (map wk_index ops)" "\<forall>op \<in> set ops. wk_index op < length rs" "context_quiet ap hist"
  shows "length rs' = length rs \<and> hist w' = hist w \<and>
    (\<forall>j. j \<notin> wk_index ` set ops \<longrightarrow> rs' ! j = rs ! j) \<and>
    (\<forall>i < length ops. \<not> fst (answers ! i) \<longrightarrow> rs' ! wk_index (ops ! i) \<noteq> None) \<and>
    (classified rs \<longrightarrow> classified rs')"
  using assms(1-4)
proof (induction ops arbitrary: answers rs w)
  case Nil
  then show ?case by simp
next
  case (Cons op ops)
  obtain applied failure rest where a: "answers = (applied, failure) # rest"
    using Cons.prems(2) by (cases answers) auto
  show ?case
  proof (cases applied)
    case True
    with Cons.prems(1) a have run: "settle_results ap label ops rest rs w = (rs', w')" by simp
    have pre: "length rest = length ops" "distinct (map wk_index ops)" "\<forall>op \<in> set ops. wk_index op < length rs"
      using Cons.prems a by simp_all
    have tail: "\<forall>i < length (op # ops). \<not> fst (answers ! i) \<longrightarrow> rs' ! wk_index ((op # ops) ! i) \<noteq> None"
      if "\<forall>i < length ops. \<not> fst (rest ! i) \<longrightarrow> rs' ! wk_index (ops ! i) \<noteq> None"
      using that a True by (auto simp: nth_Cons split: nat.splits)
    show ?thesis using Cons.IH[OF run pre] tail by simp
  next
    case False
    obtain c w1 where c: "ap_ctxErr ap w = (c, w1)" by (cases "ap_ctxErr ap w")
    define e where "e = (case c of Some c \<Rightarrow> NewApplyError label True (ErrContext c) | None \<Rightarrow> resultApplyError label failure)"
    let ?rs = "rs[wk_index op := Some e]"
    have run: "settle_results ap label ops rest ?rs w1 = (rs', w')"
      using Cons.prems(1) a False c by (simp add: e_def)
    have pre: "length rest = length ops" "distinct (map wk_index ops)" "\<forall>op \<in> set ops. wk_index op < length ?rs"
      using Cons.prems a by simp_all
    have e: "ae_retryable e \<or> (\<exists>text. ae_cause e = ErrText text)"
      using resultApplyError_cause by (simp add: e_def split: option.split)
    have h: "hist w1 = hist w" using assms(5) c by (auto simp: context_quiet_def)
    have other: "wk_index op \<notin> wk_index ` set ops" "wk_index op < length rs" using Cons.prems(3,4) by auto
    note ih = Cons.IH[OF run pre]
    have head: "rs' ! wk_index op = Some e" using ih other by simp
    have "\<forall>i < length (op # ops). \<not> fst (answers ! i) \<longrightarrow> rs' ! wk_index ((op # ops) ! i) \<noteq> None"
      using ih a head by (auto simp: nth_Cons split: nat.splits)
    moreover have "\<forall>j. j \<notin> wk_index ` set (op # ops) \<longrightarrow> rs' ! j = rs ! j"
      using ih by auto
    moreover have "classified rs \<longrightarrow> classified rs'"
      using ih classified_update[OF _ e] by blast
    ultimately show ?thesis using ih h by simp
  qed
qed

lemma may_split_quiet: "context_quiet ap hist \<Longrightarrow> may_split ap e ops w = (b, w') \<Longrightarrow> hist w' = hist w"
  by (auto simp: may_split_def context_quiet_def split: if_splits prod.splits)

lemma may_split_code: "may_split ap e ops w = (True, w') \<Longrightarrow> ap_code ap e = ResourceExhausted"
  by (auto simp: may_split_def split: if_splits)

lemma fail_all_effect:
  assumes "\<forall>op \<in> set ops. wk_index op < length rs" "ae_retryable e"
    and "\<forall>op \<in> set ops. hist w' (wk_routing op) = hist w (wk_routing op) @ [wk_mutation op] \<or> hist w' (wk_routing op) = hist w (wk_routing op)"
    and "\<And>k. k \<notin> wk_routing ` set ops \<Longrightarrow> hist w' k = hist w k"
  shows "group_effect hist ops rs w (fail_all e ops rs) w'"
  using assms by (auto simp: group_effect_def fail_all_nth classified_fail_all)


text \<open>The two branches of \<open>apply_operations\<close> without recursion.\<close>

lemma rejected_effect:
  assumes "request_effect uri hist w w1 (map wk_mutation ops) reported" "hist w2 = hist w1"
    and "\<forall>op \<in> set ops. routed uri op" "distinct (map wk_routing ops)"
    and "\<forall>op \<in> set ops. wk_index op < length rs"
  shows "group_effect hist ops rs w (fail_all (NewApplyError label True e) ops rs) w2"
  using fail_all_effect[of ops rs "NewApplyError label True e" hist w2 w] assms(2,5)
    request_effect_op[OF assms(1) _ assms(3,4)] request_effect_frame[OF assms(1,3)] by auto

lemma answered_effect:
  assumes "request_effect uri hist w w1 (map wk_mutation ops) (\<lambda>i. i < length answers \<and> fst (answers ! i))"
    and "settle_results ap label ops answers rs w1 = (rs', w')" "length answers = length ops" "context_quiet ap hist"
    and "\<forall>op \<in> set ops. routed uri op" "distinct (map wk_routing ops)"
    and "distinct (map wk_index ops)" "\<forall>op \<in> set ops. wk_index op < length rs"
  shows "group_effect hist ops rs w rs' w'"
proof -
  note st = settle_results_spec[OF assms(2,3,7,8,4)]
  have none: "rs' ! wk_index op \<noteq> None"
    if o: "op \<in> set ops" "\<forall>i < length ops. ops ! i = op \<longrightarrow> \<not> (i < length answers \<and> fst (answers ! i))" for op
    using st o assms(3) by (metis in_set_conv_nth)
  have "hist w' (wk_routing op) = hist w (wk_routing op) @ [wk_mutation op] \<or>
      hist w' (wk_routing op) = hist w (wk_routing op) \<and> rs' ! wk_index op \<noteq> None" if "op \<in> set ops" for op
    using request_effect_op[OF assms(1) that assms(5,6)] none[OF that] st by auto
  then show ?thesis
    using st request_effect_frame[OF assms(1,5)] unfolding group_effect_def by auto
qed

lemma apply_operations_effect:
  assumes "sender_contract uri ap hist kind send" "context_quiet ap hist"
    and "apply_operations ap send noun ops rs w = (rs', w')"
    and "\<forall>op \<in> set ops. routed uri op \<and> kind op" "distinct (map wk_routing ops)"
    and "distinct (map wk_index ops)" "\<forall>op \<in> set ops. wk_index op < length rs"
  shows "group_effect hist ops rs w rs' w'"
  using assms(3-)
proof (induction "length ops" arbitrary: ops rs w rs' w' rule: less_induct)
  case less
  obtain r w1 where sent: "send ops w = (r, w1)" by (cases "send ops w")
  have eff: "request_effect uri hist w w1 (map wk_mutation ops)
        (\<lambda>i. case r of Inl _ \<Rightarrow> False | Inr rs \<Rightarrow> i < length rs \<and> fst (rs ! i))"
      "case r of Inl e \<Rightarrow> ap_code ap e = ResourceExhausted \<longrightarrow> hist w1 = hist w | Inr _ \<Rightarrow> True"
    using assms(1) sent less.prems(2,3) unfolding sender_contract_def by blast+
  have routed: "\<forall>op \<in> set ops. routed uri op" using less.prems(2) by simp
  consider (none) "ops = []" | (split) e w2 where "ops \<noteq> []" "r = Inl e" "may_split ap e ops w1 = (True, w2)"
    | (rejected) e w2 where "ops \<noteq> []" "r = Inl e" "may_split ap e ops w1 = (False, w2)"
    | (invalid) answers where "ops \<noteq> []" "r = Inr answers" "length answers \<noteq> length ops"
    | (answered) answers where "ops \<noteq> []" "r = Inr answers" "length answers = length ops"
    by (metis (full_types) old.sum.exhaust surj_pair)
  then show ?case
  proof cases
    case none
    then show ?thesis using less.prems(1) by (simp add: apply_operations.simps group_effect_empty)
  next
    case split
    let ?m = "length ops div 2"
    have m: "0 < ?m" "?m < length ops" using may_split_length[OF split(3)] by simp_all
    obtain rs1 w3 where l: "apply_operations ap send noun (take ?m ops) rs w2 = (rs1, w3)"
      by (cases "apply_operations ap send noun (take ?m ops) rs w2")
    then have rr: "apply_operations ap send noun (drop ?m ops) rs1 w3 = (rs', w')"
      using less.prems(1) sent split by (subst (asm) apply_operations.simps) (simp add: Let_def)
    have ops: "take ?m ops @ drop ?m ops = ops" by simp
    have d: "distinct (map wk_routing (take ?m ops @ drop ?m ops))" "distinct (map wk_index (take ?m ops @ drop ?m ops))"
      using less.prems(3,4) by (simp_all only: ops)
    have dl: "distinct (map wk_routing (take ?m ops))" "distinct (map wk_index (take ?m ops))"
        "distinct (map wk_routing (drop ?m ops))" "distinct (map wk_index (drop ?m ops))"
      using d by (simp_all only: map_append distinct_append)
    have el: "group_effect hist (take ?m ops) rs w2 rs1 w3"
      by (rule less.hyps[OF _ l _ dl(1,2)]) (use less.prems(2,5) m in \<open>auto dest: in_set_takeD\<close>)
    have er: "group_effect hist (drop ?m ops) rs1 w3 rs' w'"
      by (rule less.hyps[OF _ rr _ dl(3,4)])
        (use less.prems(2,5) m group_effect_length[OF el] in \<open>auto dest: in_set_dropD\<close>)
    have "hist w2 = hist w"
      using eff(2) split may_split_code[OF split(3)] may_split_quiet[OF assms(2) split(3)] by simp
    then show ?thesis
      using group_effect_append[OF el er d(2,1)] unfolding ops group_effect_def by simp
  next
    case rejected
    then have "rs' = fail_all (NewApplyError (''apply queued '' @ noun @ ''s'') True e) ops rs" "w' = w2"
      using less.prems(1) sent by (subst (asm) apply_operations.simps, simp)+
    then show ?thesis
      using rejected_effect[OF eff(1) may_split_quiet[OF assms(2) rejected(3)] routed less.prems(3,5)] by simp
  next
    case invalid
    then have "rs' = fail_all (NewApplyError (''apply queued '' @ noun @ ''s'') True
        (ErrText (''sink returned an invalid queued '' @ noun @ '' result count''))) ops rs" "w' = w1"
      using less.prems(1) sent by (subst (asm) apply_operations.simps, simp)+
    then show ?thesis using rejected_effect[OF eff(1) refl routed less.prems(3,5)] by simp
  next
    case answered
    then have "settle_results ap (''apply queued '' @ noun) ops answers rs w1 = (rs', w')"
      using less.prems(1) sent by (subst (asm) apply_operations.simps) simp
    then show ?thesis
      using answered_effect[of uri hist w w1 ops answers] eff(1) answered(2,3) assms(2) routed less.prems(3-5) by simp
  qed
qed

section \<open>Waves\<close>

definition on_record :: "string \<Rightarrow> mutationWork list \<Rightarrow> mutationWork list" where
  "on_record k ops = filter (\<lambda>op. wk_routing op = k) ops"

lemma on_record_simps [simp]:
  "on_record k [] = []"
  "on_record k (op # ops) = (if wk_routing op = k then op # on_record k ops else on_record k ops)"
  "on_record k (xs @ ys) = on_record k xs @ on_record k ys"
  "set (on_record k ops) = {op \<in> set ops. wk_routing op = k}"
  by (auto simp: on_record_def)

definition waves_ok :: "mutationWork list \<Rightarrow> mutationWork list list \<Rightarrow> (string \<Rightarrow> nat) \<Rightarrow> bool" where
  "waves_ok done waves occurrences \<longleftrightarrow>
     (\<forall>wave \<in> set waves. distinct (map wk_routing wave)) \<and>
     (\<forall>k. occurrences k \<le> length waves) \<and>
     (\<forall>k i. occurrences k \<le> i \<and> i < length waves \<longrightarrow> on_record k (waves ! i) = []) \<and>
     (\<forall>k. on_record k (concat waves) = on_record k done)"

lemma concat_add_at:
  assumes "i < length waves"
  shows "concat (waves[i := waves ! i @ [op]]) =
    concat (take i waves) @ waves ! i @ op # concat (drop (Suc i) waves)"
    "concat waves = concat (take i waves) @ waves ! i @ concat (drop (Suc i) waves)"
  using assms by (simp_all add: upd_conv_take_nth_drop id_take_nth_drop[of i waves, symmetric])
    (metis append_assoc concat.simps(2) concat_append id_take_nth_drop)

lemma on_record_later:
  assumes "waves_ok done waves occurrences"
  shows "on_record k (concat (drop (occurrences k) waves)) = []"
proof -
  have "on_record k wave = []" if w: "wave \<in> set (drop (occurrences k) waves)" for wave
  proof -
    obtain j where "j < length waves - occurrences k" "wave = waves ! (occurrences k + j)"
      using w by (auto simp: in_set_conv_nth)
    then show ?thesis using assms unfolding waves_ok_def by simp
  qed
  then show ?thesis by (auto simp: on_record_def filter_empty_conv)
qed

lemma waves_ok_extend:
  assumes "waves_ok done waves occurrences"
  shows "waves_ok done (waves @ replicate n []) occurrences"
  using assms by (auto simp: waves_ok_def nth_append intro: le_trans)

lemma waves_ok_add:
  assumes "waves_ok done waves occurrences" "occurrences (wk_routing op) < length waves"
  shows "waves_ok (done @ [op]) (waves[occurrences (wk_routing op) := waves ! occurrences (wk_routing op) @ [op]])
    (occurrences(wk_routing op := Suc (occurrences (wk_routing op))))"
proof -
  let ?r = "wk_routing op"
  let ?i = "occurrences ?r"
  let ?waves = "waves[?i := waves ! ?i @ [op]]"
  have empty: "on_record ?r (waves ! ?i) = []" using assms unfolding waves_ok_def by simp
  have "distinct (map wk_routing (waves ! ?i @ [op]))"
    using assms empty by (auto simp: waves_ok_def on_record_def filter_empty_conv)
  then have "\<forall>wave \<in> set ?waves. distinct (map wk_routing wave)"
    using assms(1) by (auto simp: waves_ok_def dest!: set_list_update_memI)
  moreover have "\<forall>k. (occurrences(?r := Suc ?i)) k \<le> length ?waves"
    using assms by (simp add: waves_ok_def)
  moreover have "\<forall>k i. (occurrences(?r := Suc ?i)) k \<le> i \<and> i < length ?waves \<longrightarrow> on_record k (?waves ! i) = []"
    using assms by (auto simp: waves_ok_def nth_list_update)
  moreover have "on_record k (concat ?waves) = on_record k (done @ [op])" for k
  proof -
    have whole: "on_record k (concat waves) = on_record k done" using assms(1) unfolding waves_ok_def by blast
    have later: "on_record ?r (concat (drop (Suc ?i) waves)) = []"
      using on_record_later[OF assms(1), of ?r] Cons_nth_drop_Suc[OF assms(2)]
      by (metis append_is_Nil_conv concat.simps(2) on_record_simps(3))
    show ?thesis
      using whole[unfolded concat_add_at(2)[OF assms(2)]] later empty
      by (cases "k = ?r") (simp_all add: concat_add_at(1)[OF assms(2)])
  qed
  ultimately show ?thesis unfolding waves_ok_def by blast
qed

lemma waves_loop_ok:
  "waves_ok done waves occurrences \<Longrightarrow> \<exists>occ. waves_ok (done @ ops) (waves_loop ops waves occurrences) occ"
proof (induction ops arbitrary: "done" waves occurrences)
  case (Cons op ops)
  let ?i = "occurrences (wk_routing op)"
  let ?waves = "waves @ replicate (Suc ?i - length waves) []"
  have "waves_ok (done @ [op]) (?waves[?i := ?waves ! ?i @ [op]]) (occurrences(wk_routing op := Suc ?i))"
    by (rule waves_ok_add[OF waves_ok_extend[OF Cons.prems]]) simp
  from Cons.IH[OF this] show ?case by (simp only: waves_loop.simps Let_def append_assoc append.simps)
qed auto

lemma buildMutationWaves_ok:
  "(\<forall>wave \<in> set (buildMutationWaves ops). distinct (map wk_routing wave))"
  "on_record k (concat (buildMutationWaves ops)) = on_record k ops"
proof -
  have "waves_ok [] [] (\<lambda>_. 0)" by (simp add: waves_ok_def)
  from waves_loop_ok[OF this, of ops] show "(\<forall>wave \<in> set (buildMutationWaves ops). distinct (map wk_routing wave))"
    "on_record k (concat (buildMutationWaves ops)) = on_record k ops"
    by (auto simp: waves_ok_def buildMutationWaves_def)
qed

lemma buildMutationWaves_mset: "mset (concat (buildMutationWaves ops)) = mset ops"
proof (rule multiset_eqI)
  fix op
  have "count (mset xs) op = count (mset (on_record (wk_routing op) xs)) op" for xs
    by (induction xs) auto
  then show "count (mset (concat (buildMutationWaves ops))) op = count (mset ops) op"
    using buildMutationWaves_ok(2) by metis
qed


section \<open>One wave\<close>

lemma split_wave_groups:
  "split_wave blocked wave rs = (rs1, writes, deletes) \<Longrightarrow>
     writes = filter (\<lambda>op. blocked (wk_routing op) = None \<and> is_write op) wave \<and>
     deletes = filter (\<lambda>op. blocked (wk_routing op) = None \<and> \<not> is_write op) wave"
proof (induction wave arbitrary: rs rs1 writes deletes)
  case (Cons op wave)
  obtain a b c where t: "split_wave blocked wave rs = (a, b, c)" by (metis prod_cases3)
  show ?case
  proof (cases "blocked (wk_routing op)")
    case None
    then show ?thesis using Cons.prems Cons.IH[OF t] t by (auto simp: is_write_def split: if_splits)
  next
    case (Some e)
    then show ?thesis using Cons.prems Cons.IH by auto
  qed
qed simp

lemma split_wave_fst:
  "fst (split_wave blocked (op # wave) rs) =
     fst (split_wave blocked wave (case blocked (wk_routing op) of Some e \<Rightarrow> rs[wk_index op := Some e] | None \<Rightarrow> rs))"
  by (auto split: option.split prod.split)

lemma split_wave_length: "length (fst (split_wave blocked wave rs)) = length rs"
  by (induction wave arbitrary: rs) (auto simp: split_wave_fst simp del: split_wave.simps(2) split: option.split)

lemma split_wave_other: "j \<notin> wk_index ` set wave \<Longrightarrow> fst (split_wave blocked wave rs) ! j = rs ! j"
  by (induction wave arbitrary: rs) (auto simp: split_wave_fst simp del: split_wave.simps(2) split: option.split)

lemma split_wave_nth:
  assumes "op \<in> set wave" "distinct (map wk_index wave)" "\<forall>op \<in> set wave. wk_index op < length rs"
  shows "fst (split_wave blocked wave rs) ! wk_index op =
    (case blocked (wk_routing op) of Some e \<Rightarrow> Some e | None \<Rightarrow> rs ! wk_index op)"
  using assms
proof (induction wave arbitrary: rs)
  case (Cons op' wave)
  let ?rs = "case blocked (wk_routing op') of Some e \<Rightarrow> rs[wk_index op' := Some e] | None \<Rightarrow> rs"
  show ?case
  proof (cases "op = op'")
    case True
    then have "wk_index op \<notin> wk_index ` set wave" using Cons.prems(2) by simp
    then show ?thesis
      using True Cons.prems(3) split_wave_other[of "wk_index op" wave blocked ?rs]
      by (simp add: split_wave_fst del: split_wave.simps(2) split: option.split)
  next
    case False
    then have "op \<in> set wave" using Cons.prems(1) by simp
    moreover from this have "wk_index op \<noteq> wk_index op'" using Cons.prems(2) by (metis distinct.simps(2) image_eqI list.set_map list.simps(9))
    ultimately show ?thesis
      using Cons.IH[of ?rs] Cons.prems(2,3)
      by (simp add: split_wave_fst del: split_wave.simps(2) split: option.split)
  qed
qed simp

lemma split_wave_classified:
  assumes "classified rs" "\<forall>e \<in> ran blocked. ae_retryable e"
  shows "classified (fst (split_wave blocked wave rs))"
  using assms(1)
proof (induction wave arbitrary: rs)
  case (Cons op wave)
  have "classified (case blocked (wk_routing op) of Some e \<Rightarrow> rs[wk_index op := Some e] | None \<Rightarrow> rs)"
    using Cons.prems assms(2) by (auto split: option.split intro!: classified_update simp: ran_def)
  from Cons.IH[OF this] show ?case by (simp only: split_wave_fst)
qed simp

lemma block_wave_other: "on_record k wave = [] \<Longrightarrow> block_wave wave rs blocked k = blocked k"
  by (induction wave arbitrary: blocked) (auto split: option.splits if_splits)

lemma block_wave_one:
  "on_record k wave = [op] \<Longrightarrow> block_wave wave rs blocked k =
     (case rs ! wk_index op of Some f \<Rightarrow> if ae_retryable f then Some f else blocked k | None \<Rightarrow> blocked k)"
proof (induction wave arbitrary: blocked)
  case (Cons work wave)
  show ?case
  proof (cases "wk_routing work = k")
    case True
    then show ?thesis using Cons.prems block_wave_other[of k wave] by (auto split: option.splits)
  next
    case False
    then have "on_record k wave = [op]" using Cons.prems by simp
    then show ?thesis using Cons.IH[of "case rs ! wk_index work of Some failure \<Rightarrow> if ae_retryable failure then blocked(wk_routing work \<mapsto> failure) else blocked
        | None \<Rightarrow> blocked"] False by (auto split: option.splits)
  qed
qed simp

lemma block_wave_ran: "\<forall>e \<in> ran blocked. ae_retryable e \<Longrightarrow> \<forall>e \<in> ran (block_wave wave rs blocked). ae_retryable e"
proof (induction wave arbitrary: blocked)
  case (Cons work wave)
  let ?b = "case rs ! wk_index work of Some failure \<Rightarrow> if ae_retryable failure then blocked(wk_routing work \<mapsto> failure) else blocked
        | None \<Rightarrow> blocked"
  have "\<forall>e \<in> ran ?b. ae_retryable e" using Cons.prems by (auto split: option.split simp: ran_def)
  from Cons.IH[OF this] show ?case by simp
qed simp

definition blocks :: "ApplyError option \<Rightarrow> ApplyError option" where
  "blocks result = (case result of Some f \<Rightarrow> if ae_retryable f then Some f else None | None \<Rightarrow> None)"

text \<open>What one turn of the loop over the waves does.\<close>

definition wave_result ::
    "('w \<Rightarrow> string \<Rightarrow> mutation list) \<Rightarrow> mutationWork list \<Rightarrow> (string \<rightharpoonup> ApplyError) \<Rightarrow> ApplyError option list \<Rightarrow> 'w \<Rightarrow>
     ApplyError option list \<Rightarrow> 'w \<Rightarrow> bool" where
  "wave_result hist wave blocked rs w rs' w' \<longleftrightarrow>
     length rs' = length rs \<and> (\<forall>j. j \<notin> wk_index ` set wave \<longrightarrow> rs' ! j = rs ! j) \<and>
     (\<forall>k. k \<notin> wk_routing ` set wave \<longrightarrow> hist w' k = hist w k) \<and>
     (\<forall>op \<in> set wave. case blocked (wk_routing op) of
        Some e \<Rightarrow> hist w' (wk_routing op) = hist w (wk_routing op) \<and> rs' ! wk_index op = Some e
      | None \<Rightarrow> hist w' (wk_routing op) = hist w (wk_routing op) @ [wk_mutation op] \<or>
          hist w' (wk_routing op) = hist w (wk_routing op) \<and> rs' ! wk_index op \<noteq> None) \<and>
     (classified rs \<longrightarrow> (\<forall>e \<in> ran blocked. ae_retryable e) \<longrightarrow> classified rs')"

lemma distinct_filters:
  assumes "distinct (map f xs)"
  shows "distinct (map f (filter (\<lambda>x. P x \<and> Q x) xs @ filter (\<lambda>x. P x \<and> \<not> Q x) xs))"
  using assms by (auto simp: distinct_map inj_on_def)

lemma wave_step:
  assumes "applier_contract uri ap hist" "\<forall>op \<in> set wave. routed uri op" "distinct (map wk_routing wave)"
    and "distinct (map wk_index wave)" "\<forall>op \<in> set wave. wk_index op < length rs"
    and "split_wave blocked wave rs = (rs1, writes, deletes)"
    and "applyWrites ap writes rs1 w = (rs2, w1)" "applyDeletes ap deletes rs2 w1 = (rs3, w2)"
  shows "wave_result hist wave blocked rs w rs3 w2"
proof -
  have quiet: "context_quiet ap hist" using assms(1) by (auto simp: applier_contract_def context_quiet_def)
  note groups = split_wave_groups[OF assms(6)]
  have rs1: "rs1 = fst (split_wave blocked wave rs)" using assms(6) by simp
  let ?free = "writes @ deletes"
  have free: "set ?free = {op \<in> set wave. blocked (wk_routing op) = None}" using groups by auto
  have d: "distinct (map wk_index ?free)" "distinct (map wk_routing ?free)"
    using groups distinct_filters[OF assms(4), of "\<lambda>op. blocked (wk_routing op) = None" is_write]
      distinct_filters[OF assms(3), of "\<lambda>op. blocked (wk_routing op) = None" is_write] by simp_all
  have e1: "group_effect hist writes rs1 w rs2 w1"
    by (rule apply_operations_effect[OF writes_sender[OF assms(1)] quiet assms(7)[unfolded applyWrites_def]])
      (use groups assms(2,5) d rs1 in \<open>auto simp: split_wave_length\<close>)
  have e2: "group_effect hist deletes rs2 w1 rs3 w2"
    by (rule apply_operations_effect[OF deletes_sender[OF assms(1)] quiet assms(8)[unfolded applyDeletes_def]])
      (use groups assms(2,5) d rs1 group_effect_length[OF e1] in \<open>auto simp: split_wave_length\<close>)
  note e = group_effect_append[OF e1 e2 d]
  have nth1: "rs1 ! wk_index op = (case blocked (wk_routing op) of Some e \<Rightarrow> Some e | None \<Rightarrow> rs ! wk_index op)"
    if "op \<in> set wave" for op
    using split_wave_nth[OF that assms(4,5)] rs1 by simp
  have "case blocked (wk_routing op) of
        Some e \<Rightarrow> hist w2 (wk_routing op) = hist w (wk_routing op) \<and> rs3 ! wk_index op = Some e
      | None \<Rightarrow> hist w2 (wk_routing op) = hist w (wk_routing op) @ [wk_mutation op] \<or>
          hist w2 (wk_routing op) = hist w (wk_routing op) \<and> rs3 ! wk_index op \<noteq> None" if op: "op \<in> set wave" for op
  proof (cases "blocked (wk_routing op)")
    case None
    then have "op \<in> set ?free" using op free by blast
    then show ?thesis using None group_effect_op[OF e, of op] by simp
  next
    case (Some b)
    have "wk_routing op \<notin> wk_routing ` set ?free" using Some free by auto
    moreover have "wk_index op \<notin> wk_index ` set ?free"
    proof
      assume "wk_index op \<in> wk_index ` set ?free"
      then obtain op' where "op' \<in> set wave" "blocked (wk_routing op') = None" "wk_index op' = wk_index op"
        unfolding free by auto
      then show False using op Some assms(4) by (metis distinct_map inj_onD option.distinct(1))
    qed
    ultimately show ?thesis
      using Some nth1[OF op] group_effect_frame[OF e] group_effect_other[OF e] by simp
  qed
  moreover have "rs3 ! j = rs ! j" if "j \<notin> wk_index ` set wave" for j
  proof -
    have "j \<notin> wk_index ` set ?free" using that unfolding free by blast
    then show ?thesis using group_effect_other[OF e] split_wave_other[OF that] rs1 by simp
  qed
  moreover have "hist w2 k = hist w k" if "k \<notin> wk_routing ` set wave" for k
  proof -
    have "k \<notin> wk_routing ` set ?free" using that unfolding free by blast
    then show ?thesis using group_effect_frame[OF e] by simp
  qed
  moreover have "length rs3 = length rs" using group_effect_length[OF e] rs1 by (simp add: split_wave_length)
  moreover have "classified rs \<Longrightarrow> \<forall>e \<in> ran blocked. ae_retryable e \<Longrightarrow> classified rs3"
    using group_effect_classified[OF e] split_wave_classified rs1 by blast
  ultimately show ?thesis unfolding wave_result_def by blast
qed


section \<open>All waves\<close>

text \<open>
  The outcome for one record: its mutations in order, each applied or not, applied when it has no
  error, until a retryable failure, which all later ones share.
\<close>

fun ordered_run :: "ApplyError option list \<Rightarrow> mutationWork list \<Rightarrow> mutation list \<Rightarrow> mutation list \<Rightarrow> bool" where
  "ordered_run rs [] h h' \<longleftrightarrow> h' = h"
| "ordered_run rs (op # ops) h h' \<longleftrightarrow>
     (\<exists>h1. (h1 = h @ [wk_mutation op] \<or> h1 = h \<and> rs ! wk_index op \<noteq> None) \<and>
        (case blocks (rs ! wk_index op) of
           Some e \<Rightarrow> h' = h1 \<and> (\<forall>op' \<in> set ops. rs ! wk_index op' = Some e)
         | None \<Rightarrow> ordered_run rs ops h1 h'))"

lemma on_record_wave:
  assumes "distinct (map wk_routing wave)"
  obtains (none) "on_record k wave = []" "k \<notin> wk_routing ` set wave"
  | (one) op where "on_record k wave = [op]" "op \<in> set wave" "wk_routing op = k"
proof (cases "on_record k wave")
  case Nil
  then show ?thesis using none by (auto simp: on_record_def filter_empty_conv)
next
  case (Cons op ops)
  have "op \<in> set wave" "wk_routing op = k" using Cons by (auto simp: on_record_def dest: filter_eq_ConsD)
  have "distinct (map wk_routing (on_record k wave))"
    using assms by (simp add: on_record_def distinct_map_filter)
  moreover have "\<forall>x \<in> set ops. wk_routing x = wk_routing op"
    using Cons \<open>wk_routing op = k\<close> on_record_simps(4)[of k wave] by (metis (mono_tags, lifting) list.set_intros(2) mem_Collect_eq)
  ultimately have "ops = []" using Cons by (cases ops) auto
  then show ?thesis using one Cons \<open>op \<in> set wave\<close> \<open>wk_routing op = k\<close> by simp
qed

lemma wave_record:
  assumes "wave_result hist wave blocked rs w rs1 w1" "distinct (map wk_routing wave)"
  shows "case blocked k of
      Some e \<Rightarrow> hist w1 k = hist w k \<and> (\<forall>op \<in> set (on_record k wave). rs1 ! wk_index op = Some e)
    | None \<Rightarrow> (on_record k wave = [] \<and> hist w1 k = hist w k) \<or>
        (\<exists>op. on_record k wave = [op] \<and>
          (hist w1 k = hist w k @ [wk_mutation op] \<or> hist w1 k = hist w k \<and> rs1 ! wk_index op \<noteq> None))"
  using assms(2)
proof (cases rule: on_record_wave[where k = k])
  case none
  then show ?thesis using assms(1) by (auto simp: wave_result_def split: option.split)
next
  case (one op)
  have "case blocked (wk_routing op) of
        Some e \<Rightarrow> hist w1 (wk_routing op) = hist w (wk_routing op) \<and> rs1 ! wk_index op = Some e
      | None \<Rightarrow> hist w1 (wk_routing op) = hist w (wk_routing op) @ [wk_mutation op] \<or>
          hist w1 (wk_routing op) = hist w (wk_routing op) \<and> rs1 ! wk_index op \<noteq> None"
    using assms(1) one(2) unfolding wave_result_def by blast
  then show ?thesis using one by (auto split: option.splits)
qed

definition waves_result ::
    "('w \<Rightarrow> string \<Rightarrow> mutation list) \<Rightarrow> mutationWork list list \<Rightarrow> (string \<rightharpoonup> ApplyError) \<Rightarrow> ApplyError option list \<Rightarrow> 'w \<Rightarrow>
     ApplyError option list \<Rightarrow> 'w \<Rightarrow> bool" where
  "waves_result hist waves blocked rs w rs' w' \<longleftrightarrow>
     length rs' = length rs \<and> (\<forall>j. j \<notin> wk_index ` set (concat waves) \<longrightarrow> rs' ! j = rs ! j) \<and>
     (classified rs \<longrightarrow> classified rs') \<and>
     (\<forall>k. case blocked k of
        Some e \<Rightarrow> hist w' k = hist w k \<and> (\<forall>op \<in> set (on_record k (concat waves)). rs' ! wk_index op = Some e)
      | None \<Rightarrow> ordered_run rs' (on_record k (concat waves)) (hist w k) (hist w' k))"

lemma waves_result_cons:
  assumes "wave_result hist wave blocked rs w rs1 w1"
    and "waves_result hist waves (block_wave wave rs1 blocked) rs1 w1 rs' w'"
    and "distinct (map wk_routing wave)" "distinct (map wk_index (concat (wave # waves)))"
    and "\<forall>e \<in> ran blocked. ae_retryable e"
  shows "waves_result hist (wave # waves) blocked rs w rs' w'"
proof -
  have keep: "rs' ! wk_index op = rs1 ! wk_index op" if "op \<in> set wave" for op
  proof -
    have "wk_index ` set wave \<inter> wk_index ` set (concat waves) = {}" using assms(4) by auto
    then have "wk_index op \<notin> wk_index ` set (concat waves)" using that by blast
    then show ?thesis using assms(2) unfolding waves_result_def by blast
  qed
  have "case blocked k of
        Some e \<Rightarrow> hist w' k = hist w k \<and> (\<forall>op \<in> set (on_record k (concat (wave # waves))). rs' ! wk_index op = Some e)
      | None \<Rightarrow> ordered_run rs' (on_record k (concat (wave # waves))) (hist w k) (hist w' k)" for k
  proof -
    let ?b = "block_wave wave rs1 blocked k"
    have later: "case ?b of
        Some e \<Rightarrow> hist w' k = hist w1 k \<and> (\<forall>op \<in> set (on_record k (concat waves)). rs' ! wk_index op = Some e)
      | None \<Rightarrow> ordered_run rs' (on_record k (concat waves)) (hist w1 k) (hist w' k)"
      using assms(2) unfolding waves_result_def by blast
    note now = wave_record[OF assms(1,3), of k]
    show ?thesis
      using assms(3)
    proof (cases rule: on_record_wave[where k = k])
      case none
      then show ?thesis
        using now later block_wave_other[OF none(1), of rs1 blocked] by (auto split: option.splits)
    next
      case (one op)
      note b = block_wave_one[OF one(1), of rs1 blocked] keep[OF one(2)]
      show ?thesis
      proof (cases "blocked k")
        case None
        then have h1: "hist w1 k = hist w k @ [wk_mutation op] \<or> hist w1 k = hist w k \<and> rs' ! wk_index op \<noteq> None"
          using now one b(2) by simp
        have "?b = blocks (rs' ! wk_index op)" using b None by (simp add: blocks_def split: option.split)
        then have "ordered_run rs' (op # on_record k (concat waves)) (hist w k) (hist w' k)"
          using h1 later unfolding ordered_run.simps by (intro exI[of _ "hist w1 k"]) simp
        then show ?thesis using None one(1) by simp
      next
        case (Some e)
        then have "rs1 ! wk_index op = Some e" using now one by auto
        moreover have "ae_retryable e" using Some assms(5) by (auto simp: ran_def)
        ultimately show ?thesis using Some now later b one by auto
      qed
    qed
  qed
  moreover have "classified rs \<longrightarrow> classified rs'" "length rs' = length rs"
    using assms(1,2,5) by (auto simp: wave_result_def waves_result_def)
  moreover have "rs' ! j = rs ! j" if "j \<notin> wk_index ` set (concat (wave # waves))" for j
  proof -
    have "j \<notin> wk_index ` set wave" "j \<notin> wk_index ` set (concat waves)" using that by auto
    moreover from this(1) have "rs1 ! j = rs ! j" using assms(1) unfolding wave_result_def by blast
    moreover from calculation(2) have "rs' ! j = rs1 ! j" using assms(2) unfolding waves_result_def by blast
    ultimately show ?thesis by simp
  qed
  ultimately show ?thesis unfolding waves_result_def by blast
qed

lemma run_waves_result:
  assumes "applier_contract uri ap hist" "run_waves ap waves blocked rs w = (rs', w')"
    and "\<forall>wave \<in> set waves. distinct (map wk_routing wave)" "distinct (map wk_index (concat waves))"
    and "\<forall>op \<in> set (concat waves). routed uri op \<and> wk_index op < length rs"
    and "\<forall>e \<in> ran blocked. ae_retryable e"
  shows "waves_result hist waves blocked rs w rs' w'"
  using assms(2-)
proof (induction waves arbitrary: blocked rs w)
  case Nil
  then show ?case by (auto simp: waves_result_def split: option.split)
next
  case (Cons wave waves)
  obtain rs1 writes deletes where s: "split_wave blocked wave rs = (rs1, writes, deletes)" by (metis prod_cases3)
  obtain rs2 w1 where ws: "applyWrites ap writes rs1 w = (rs2, w1)" by fastforce
  obtain rs3 w2 where ds: "applyDeletes ap deletes rs2 w1 = (rs3, w2)" by fastforce
  have rest: "run_waves ap waves (block_wave wave rs3 blocked) rs3 w2 = (rs', w')"
    using Cons.prems(1) s ws ds by simp
  have one: "wave_result hist wave blocked rs w rs3 w2"
    by (rule wave_step[OF assms(1) _ _ _ _ s ws ds]) (use Cons.prems in auto)
  then have len: "length rs3 = length rs" by (simp add: wave_result_def)
  have "waves_result hist waves (block_wave wave rs3 blocked) rs3 w2 rs' w'"
    by (rule Cons.IH[OF rest]) (use Cons.prems len block_wave_ran[OF Cons.prems(5)] in auto)
  from waves_result_cons[OF one this] show ?case using Cons.prems by simp
qed

section \<open>Batches keep the order of a record\<close>

text \<open>
  The mutations at the positions \<open>I\<close> of a batch, all of one record: those applied are at an
  ascending list of positions, each one without error is among them, and after a failure to be
  retried no later one was applied and each has a failure to be retried.
\<close>

definition record_run ::
    "(nat \<Rightarrow> nat \<Rightarrow> bool) \<Rightarrow> mutation list \<Rightarrow> nat set \<Rightarrow> ('e \<Rightarrow> bool) \<Rightarrow> (nat \<Rightarrow> 'e option) \<Rightarrow> mutation list \<Rightarrow> mutation list \<Rightarrow> bool" where
  "record_run before ms I again result h h' \<longleftrightarrow>
     (\<exists>xs. sorted_wrt before xs \<and> set xs \<subseteq> I \<and> h' = h @ map ((!) ms) xs \<and>
        (\<forall>i \<in> I. result i = None \<longrightarrow> i \<in> set xs) \<and>
        (\<forall>i \<in> I. \<forall>j \<in> I. i < j \<longrightarrow> (\<exists>e. result i = Some e \<and> again e) \<longrightarrow>
           j \<notin> set xs \<and> (\<exists>e. result j = Some e \<and> again e)))"

definition positions :: "uri_parser \<Rightarrow> mutation list \<Rightarrow> string \<Rightarrow> nat set" where
  "positions uri ms k = {i. i < length ms \<and> MutationKey uri (ms ! i) = Inr k}"

text \<open>A batch was delivered with \<open>results\<close>: the above for every record.\<close>

definition delivered ::
    "(nat \<Rightarrow> nat \<Rightarrow> bool) \<Rightarrow> uri_parser \<Rightarrow> ('w \<Rightarrow> string \<Rightarrow> mutation list) \<Rightarrow> mutation list \<Rightarrow> ('e \<Rightarrow> bool) \<Rightarrow> 'e option list \<Rightarrow>
     'w \<Rightarrow> 'w \<Rightarrow> bool" where
  "delivered before uri hist ms again results w w' \<longleftrightarrow>
     length results = length ms \<and>
     (\<forall>k. record_run before ms (positions uri ms k) again ((!) results) (hist w k) (hist w' k))"

lemma prepare_results:
  assumes "prepare uri n ms = (rs, ps)"
  shows "length rs = length ms \<and> classified rs \<and>
    (\<forall>i < length ms. rs ! i = (case MutationKey uri (ms ! i) of
       Inl e \<Rightarrow> Some (NewApplyError ''apply queued mutation'' False (ErrText e)) | Inr _ \<Rightarrow> None))"
  using assms
proof (induction ms arbitrary: n rs ps)
  case Nil
  then show ?case by (simp add: classified_def)
next
  case (Cons m ms)
  obtain rs1 ps1 where t: "prepare uri (Suc n) ms = (rs1, ps1)" by fastforce
  have "rs = (case MutationKey uri m of Inl e \<Rightarrow> Some (NewApplyError ''apply queued mutation'' False (ErrText e)) | Inr _ \<Rightarrow> None) # rs1"
    using Cons.prems t by (auto split: sum.splits)
  then show ?case
    using Cons.IH[OF t] by (auto simp: classified_def nth_Cons split: sum.splits nat.splits)
qed

lemma prepare_Cons:
  assumes "prepare uri n (m # ms) = (rs, ps)"
  obtains rs1 ps1 where "prepare uri (Suc n) ms = (rs1, ps1)"
    "ps = (case MutationKey uri m of Inl e \<Rightarrow> ps1 | Inr key \<Rightarrow> \<lparr>wk_index = n, wk_routing = key, wk_mutation = m\<rparr> # ps1)"
  using assms by (auto split: sum.splits prod.splits)

lemma prepare_op:
  assumes "prepare uri n ms = (rs, ps)" "op \<in> set ps"
  shows "routed uri op \<and> (\<exists>i < length ms. wk_index op = n + i \<and> wk_mutation op = ms ! i)"
  using assms
proof (induction ms arbitrary: n rs ps)
  case (Cons m ms)
  obtain rs1 ps1 where t: "prepare uri (Suc n) ms = (rs1, ps1)"
    and ps: "ps = (case MutationKey uri m of Inl e \<Rightarrow> ps1 | Inr key \<Rightarrow> \<lparr>wk_index = n, wk_routing = key, wk_mutation = m\<rparr> # ps1)"
    using prepare_Cons[OF Cons.prems(1)] .
  show ?case
  proof (cases "op \<in> set ps1")
    case True
    then obtain i where "i < length ms" "routed uri op" "wk_index op = Suc n + i" "wk_mutation op = ms ! i"
      using Cons.IH[OF t] by blast
    then show ?thesis by (intro conjI exI[of _ "Suc i"]) simp_all
  next
    case False
    then show ?thesis using ps Cons.prems(2) by (auto simp: routed_def split: sum.splits intro!: exI[of _ 0])
  qed
qed simp

lemma prepare_sorted: "prepare uri n ms = (rs, ps) \<Longrightarrow> sorted_wrt (<) (map wk_index ps)"
proof (induction ms arbitrary: n rs ps)
  case (Cons m ms)
  obtain rs1 ps1 where t: "prepare uri (Suc n) ms = (rs1, ps1)"
    and ps: "ps = (case MutationKey uri m of Inl e \<Rightarrow> ps1 | Inr key \<Rightarrow> \<lparr>wk_index = n, wk_routing = key, wk_mutation = m\<rparr> # ps1)"
    using prepare_Cons[OF Cons.prems] .
  have "\<forall>op \<in> set ps1. n < wk_index op" using prepare_op[OF t] by fastforce
  then show ?case using ps Cons.IH[OF t] by (simp split: sum.split)
qed simp

lemma prepare_covers:
  assumes "prepare uri n ms = (rs, ps)" "i < length ms" "MutationKey uri (ms ! i) = Inr k"
  shows "\<exists>op \<in> set ps. wk_index op = n + i \<and> wk_routing op = k"
  using assms
proof (induction ms arbitrary: n rs ps i)
  case (Cons m ms)
  obtain rs1 ps1 where t: "prepare uri (Suc n) ms = (rs1, ps1)"
    and ps: "ps = (case MutationKey uri m of Inl e \<Rightarrow> ps1 | Inr key \<Rightarrow> \<lparr>wk_index = n, wk_routing = key, wk_mutation = m\<rparr> # ps1)"
    using prepare_Cons[OF Cons.prems(1)] .
  show ?case
  proof (cases i)
    case 0
    then show ?thesis using ps Cons.prems(3) by simp
  next
    case (Suc j)
    then have "\<exists>op \<in> set ps1. wk_index op = Suc n + j \<and> wk_routing op = k" using Cons.IH[OF t] Cons.prems by simp
    then show ?thesis using Suc ps by (auto split: sum.split)
  qed
qed simp

lemma ordered_run_indices:
  assumes "ordered_run rs ops h h'" "sorted_wrt (<) (map wk_index ops)" "\<forall>op \<in> set ops. wk_mutation op = ms ! wk_index op"
  shows "\<exists>xs. sorted_wrt (<) xs \<and> set xs \<subseteq> wk_index ` set ops \<and> h' = h @ map ((!) ms) xs \<and>
    (\<forall>op \<in> set ops. rs ! wk_index op = None \<longrightarrow> wk_index op \<in> set xs) \<and>
    (\<forall>a \<in> set ops. \<forall>b \<in> set ops. \<forall>e. wk_index a < wk_index b \<longrightarrow> rs ! wk_index a = Some e \<longrightarrow> ae_retryable e \<longrightarrow>
       wk_index b \<notin> set xs \<and> rs ! wk_index b = Some e)"
  using assms
proof (induction ops arbitrary: h)
  case (Cons op ops)
  obtain h1 where h1: "h1 = h @ [wk_mutation op] \<or> h1 = h \<and> rs ! wk_index op \<noteq> None"
    and rest: "case blocks (rs ! wk_index op) of
           Some e \<Rightarrow> h' = h1 \<and> (\<forall>op' \<in> set ops. rs ! wk_index op' = Some e)
         | None \<Rightarrow> ordered_run rs ops h1 h'" using Cons.prems(1) by auto
  define hd where "hd = (if h1 = h then [] else [wk_index op])"
  have hd: "h1 = h @ map ((!) ms) hd" "set hd \<subseteq> {wk_index op}" "rs ! wk_index op = None \<Longrightarrow> wk_index op \<in> set hd"
    using h1 Cons.prems(3) by (auto simp: hd_def)
  have less: "\<forall>b \<in> set ops. wk_index op < wk_index b" using Cons.prems(2) by simp
  show ?case
  proof (cases "blocks (rs ! wk_index op)")
    case None
    then have "ordered_run rs ops h1 h'" using rest by simp
    then obtain xs where xs: "sorted_wrt (<) xs" "set xs \<subseteq> wk_index ` set ops" "h' = h1 @ map ((!) ms) xs"
      "\<forall>op \<in> set ops. rs ! wk_index op = None \<longrightarrow> wk_index op \<in> set xs"
      "\<forall>a \<in> set ops. \<forall>b \<in> set ops. \<forall>e. wk_index a < wk_index b \<longrightarrow> rs ! wk_index a = Some e \<longrightarrow> ae_retryable e \<longrightarrow>
         wk_index b \<notin> set xs \<and> rs ! wk_index b = Some e"
      using Cons.IH[of h1] Cons.prems(2,3) by auto
    have free: "rs ! wk_index op = Some e \<Longrightarrow> \<not> ae_retryable e" for e
      using None by (auto simp: blocks_def split: if_splits)
    have "sorted_wrt (<) (hd @ xs)"
      using xs(1,2) less by (auto simp: hd_def sorted_wrt_append)
    moreover have "\<forall>a \<in> set (op # ops). \<forall>b \<in> set (op # ops). \<forall>e. wk_index a < wk_index b \<longrightarrow> rs ! wk_index a = Some e \<longrightarrow> ae_retryable e \<longrightarrow>
         wk_index b \<notin> set (hd @ xs) \<and> rs ! wk_index b = Some e"
      using xs(5) free less hd(2) by fastforce
    moreover have "set (hd @ xs) \<subseteq> wk_index ` set (op # ops)" using xs(2) hd(2) by auto
    moreover have "h' = h @ map ((!) ms) (hd @ xs)" using xs(3) hd(1) by simp
    moreover have "\<forall>op \<in> set (op # ops). rs ! wk_index op = None \<longrightarrow> wk_index op \<in> set (hd @ xs)"
      using xs(4) hd(3) by auto
    ultimately show ?thesis by blast
  next
    case (Some e)
    then have e: "rs ! wk_index op = Some e" "h' = h1" "\<forall>op' \<in> set ops. rs ! wk_index op' = Some e"
      using rest by (auto simp: blocks_def split: option.splits if_splits)
    have "sorted_wrt (<) hd" by (simp add: hd_def)
    moreover have "\<forall>a \<in> set (op # ops). \<forall>b \<in> set (op # ops). \<forall>f. wk_index a < wk_index b \<longrightarrow> rs ! wk_index a = Some f \<longrightarrow> ae_retryable f \<longrightarrow>
         wk_index b \<notin> set hd \<and> rs ! wk_index b = Some f"
      using e less hd(2) by fastforce
    moreover have "\<forall>op \<in> set (op # ops). rs ! wk_index op = None \<longrightarrow> wk_index op \<in> set hd" using e by simp
    ultimately show ?thesis using hd e by (intro exI[of _ hd]) auto
  qed
qed simp


lemma ordered_record_run:
  assumes "ordered_run rs ops h h'" "sorted_wrt (<) (map wk_index ops)" "\<forall>op \<in> set ops. wk_mutation op = ms ! wk_index op"
  shows "record_run (<) ms (wk_index ` set ops) ae_retryable ((!) rs) h h'"
proof -
  obtain xs where xs: "sorted_wrt (<) xs" "set xs \<subseteq> wk_index ` set ops" "h' = h @ map ((!) ms) xs"
    "\<forall>op \<in> set ops. rs ! wk_index op = None \<longrightarrow> wk_index op \<in> set xs"
    "\<forall>a \<in> set ops. \<forall>b \<in> set ops. \<forall>e. wk_index a < wk_index b \<longrightarrow> rs ! wk_index a = Some e \<longrightarrow> ae_retryable e \<longrightarrow>
       wk_index b \<notin> set xs \<and> rs ! wk_index b = Some e"
    using ordered_run_indices[OF assms] by (elim exE conjE)
  show ?thesis
    unfolding record_run_def
  proof (intro exI[of _ xs] conjI ballI impI)
    fix i j assume "i \<in> wk_index ` set ops" "j \<in> wk_index ` set ops" "i < j" "\<exists>e. rs ! i = Some e \<and> ae_retryable e"
    then obtain a b e where ab: "a \<in> set ops" "b \<in> set ops" "i = wk_index a" "j = wk_index b" "rs ! i = Some e" "ae_retryable e"
      by blast
    note xs(5)[rule_format, OF ab(1,2), of e]
    then show "j \<notin> set xs" "\<exists>e. rs ! j = Some e \<and> ae_retryable e" using ab \<open>i < j\<close> by simp_all
  qed (use xs in auto)
qed

lemma HandleBatch_waves:
  assumes "applier_contract uri ap hist" "HandleBatch uri ap ms w = (results, w')"
  obtains rs ps where "prepare uri 0 ms = (rs, ps)" "length results = length ms" "classified results"
    "\<And>i. i < length ms \<Longrightarrow> (\<exists>e. MutationKey uri (ms ! i) = Inl e) \<Longrightarrow> results ! i = rs ! i"
    "\<And>k. ordered_run results (on_record k ps) (hist w k) (hist w' k)"
proof -
  obtain rs ps where p: "prepare uri 0 ms = (rs, ps)" by fastforce
  let ?waves = "buildMutationWaves ps"
  have run: "run_waves ap ?waves Map.empty rs w = (results, w')" using assms(2) p by (simp add: HandleBatch_def)
  have len: "length rs = length ms" "classified rs" using prepare_results[OF p] by simp_all
  have m: "mset (concat ?waves) = mset ps" by (rule buildMutationWaves_mset)
  then have sets: "set (concat ?waves) = set ps" by (metis set_mset_mset)
  have "distinct (map wk_index ps)" using prepare_sorted[OF p] by (simp add: strict_sorted_iff)
  then have d: "distinct (map wk_index (concat ?waves))" by (metis m mset_eq_imp_distinct_iff mset_map)
  have ok: "\<forall>op \<in> set (concat ?waves). routed uri op \<and> wk_index op < length rs"
    unfolding sets using prepare_op[OF p] len(1) by auto
  have res: "waves_result hist ?waves Map.empty rs w results w'"
    by (rule run_waves_result[OF assms(1) run buildMutationWaves_ok(1) d ok]) simp
  have "results ! i = rs ! i" if i: "i < length ms" "\<exists>e. MutationKey uri (ms ! i) = Inl e" for i
  proof -
    have "i \<notin> wk_index ` set (concat ?waves)"
      unfolding sets using prepare_op[OF p] i(2) by (fastforce simp: routed_def)
    then show ?thesis using res unfolding waves_result_def by blast
  qed
  moreover have "ordered_run results (on_record k ps) (hist w k) (hist w' k)" for k
    using res unfolding waves_result_def by (metis buildMutationWaves_ok(2) option.simps(4))
  ultimately show ?thesis using that p res len by (simp add: waves_result_def)
qed

lemma HandleBatch_delivered:
  assumes "applier_contract uri ap hist" "HandleBatch uri ap ms w = (results, w')"
  shows "delivered (<) uri hist ms ae_retryable results w w'"
proof -
  obtain rs ps where p: "prepare uri 0 ms = (rs, ps)" and len: "length results = length ms"
    and run: "\<And>k. ordered_run results (on_record k ps) (hist w k) (hist w' k)"
    using HandleBatch_waves[OF assms] by metis
  have "record_run (<) ms (positions uri ms k) ae_retryable ((!) results) (hist w k) (hist w' k)" for k
  proof -
    have sorted: "sorted_wrt (<) (map wk_index (on_record k ps))"
      using prepare_sorted[OF p] by (simp add: on_record_def sorted_wrt_map sorted_wrt_filter)
    have nth: "\<forall>op \<in> set (on_record k ps). wk_mutation op = ms ! wk_index op"
      using prepare_op[OF p] by fastforce
    have pos: "wk_index ` set (on_record k ps) = positions uri ms k"
    proof (intro equalityI subsetI)
      fix i assume "i \<in> wk_index ` set (on_record k ps)"
      then show "i \<in> positions uri ms k" using prepare_op[OF p] by (fastforce simp: positions_def routed_def)
    next
      fix i assume "i \<in> positions uri ms k"
      then show "i \<in> wk_index ` set (on_record k ps)" using prepare_covers[OF p] by (fastforce simp: positions_def)
    qed
    show ?thesis using ordered_record_run[OF run[of k] sorted nth] unfolding pos .
  qed
  then show ?thesis using len unfolding delivered_def by blast
qed

text \<open>
  C33: order of queued mutations. Whatever an applier that honours its documented contract answers,
  and however admission halves the requests, \<open>HandleBatch\<close> returns one result per mutation; the
  mutations of a record are applied in batch order, each at most once; one reported without error
  was applied; and once one failed in a retryable way, no later mutation of that record is applied
  in the batch and all of them report a retryable failure. A mutation without a valid address is
  reported as a failure that is not retried.
\<close>

theorem queued_mutations_in_order:
  assumes "applier_contract uri ap hist" "HandleBatch uri ap ms w = (results, w')"
  shows "delivered (<) uri hist ms ae_retryable results w w' \<and>
    (\<forall>i < length ms. \<forall>e. MutationKey uri (ms ! i) = Inl e \<longrightarrow>
       results ! i = Some (NewApplyError ''apply queued mutation'' False (ErrText e)))"
proof -
  obtain rs ps where p: "prepare uri 0 ms = (rs, ps)"
    and bad: "\<And>i. i < length ms \<Longrightarrow> (\<exists>e. MutationKey uri (ms ! i) = Inl e) \<Longrightarrow> results ! i = rs ! i"
    using HandleBatch_waves[OF assms] by metis
  have "results ! i = Some (NewApplyError ''apply queued mutation'' False (ErrText e))"
    if "i < length ms" "MutationKey uri (ms ! i) = Inl e" for i e
    using that bad[of i] prepare_results[OF p] by simp
  then show ?thesis using HandleBatch_delivered[OF assms] by blast
qed

section \<open>An applier that admits one delete at a time\<close>

definition worker_uri :: uri_parser where
  "worker_uri u = (if u = [] then Inl ''empty'' else Inr \<lparr>ad_store = ''s'', ad_segments = [u], ad_string = u, ad_routingKey = u\<rparr>)"

fun demo_code :: "err \<Rightarrow> code" where
  "demo_code (ErrStatus (status_error c _) _) = c"
| "demo_code _ = Unknown"

definition exhausted :: err where
  "exhausted = ErrStatus (status_error ResourceExhausted ''busy'') ''busy''"

text \<open>Its world is the list of applied mutations; a delete of \<open>x\<close> is unavailable.\<close>

definition demo_apply :: "DeleteRequest \<Rightarrow> mutation list \<Rightarrow> (err + DeleteResult list) \<times> mutation list" where
  "demo_apply req w =
     (case dr_operations req of
        [] \<Rightarrow> (Inr [], w)
      | [op] \<Rightarrow>
          if getUri (do_address op) = ''x'' then
            (Inr [\<lparr>dres_index = 0, dres_status = DS_FAILED,
               dres_failure = Some \<lparr>f_code = FC_UNAVAILABLE, f_message = ''down'', f_retryable = True\<rparr>\<rparr>], w)
          else (Inr [\<lparr>dres_index = 0, dres_status = DS_APPLIED, dres_failure = None\<rparr>], w @ [delete_mutation op])
      | _ \<Rightarrow> (Inl exhausted, w))"

definition demo_applier :: "mutation list applier" where
  "demo_applier =
     \<lparr>ap_write = (\<lambda>req w. (Inl exhausted, w)), ap_delete = demo_apply, ap_ctxErr = (\<lambda>w. (None, w)), ap_code = demo_code\<rparr>"

definition demo_hist :: "mutation list \<Rightarrow> string \<Rightarrow> mutation list" where
  "demo_hist w k = filter (\<lambda>m. MutationKey worker_uri m = Inr k) w"

lemma demo_applier_contract: "applier_contract worker_uri demo_applier demo_hist"
proof -
  have "request_effect worker_uri demo_hist w w' (map delete_mutation (dr_operations req))
          (\<lambda>i. case r of Inl _ \<Rightarrow> False | Inr rs \<Rightarrow> i < length rs \<and> dres_status (rs ! i) = DS_APPLIED) \<and>
        (case r of Inl e \<Rightarrow> ap_code demo_applier e = ResourceExhausted \<longrightarrow> demo_hist w' = demo_hist w | Inr _ \<Rightarrow> True)"
    if "demo_apply req w = (r, w')" for req w r w'
    using that by (auto simp: demo_apply_def request_effect_def demo_hist_def split: list.splits if_splits)
  moreover have "request_effect worker_uri demo_hist w w ms (\<lambda>i. False)" for w ms
    by (simp add: request_effect_def)
  moreover have "ap_write demo_applier req w = (Inl exhausted, w)" "ap_delete demo_applier = demo_apply"
      "ap_ctxErr demo_applier w = (None, w)" for req w by (simp_all add: demo_applier_def)
  ultimately show ?thesis
    unfolding applier_contract_def by auto
qed

text \<open>
  Deletes of \<open>a\<close>, \<open>x\<close>, \<open>a\<close>, \<open>x\<close> and \<open>b\<close>: the first wave is halved down to single deletes, the
  second delete of \<open>x\<close> is held back.
\<close>

definition demo_batch :: "mutation list" where
  "demo_batch = map demo_delete [''a'', ''x'', ''a'', ''x'', ''b'']"

theorem queued_mutations_in_order_witness:
  "map (map_option ae_retryable) (fst (HandleBatch worker_uri demo_applier demo_batch [])) =
     [None, Some True, None, Some True, None] \<and>
   snd (HandleBatch worker_uri demo_applier demo_batch []) = map demo_delete [''a'', ''b'', ''a''] \<and>
   delivered (<) worker_uri demo_hist demo_batch ae_retryable (fst (HandleBatch worker_uri demo_applier demo_batch [])) []
     (snd (HandleBatch worker_uri demo_applier demo_batch []))"
proof (intro conjI)
  show "map (map_option ae_retryable) (fst (HandleBatch worker_uri demo_applier demo_batch [])) =
     [None, Some True, None, Some True, None]" by code_simp
  show "snd (HandleBatch worker_uri demo_applier demo_batch []) = map demo_delete [''a'', ''b'', ''a'']" by code_simp
qed (use queued_mutations_in_order[OF demo_applier_contract prod.collapse[symmetric], of demo_batch "[]"] in simp)

end
