(* ===== verification/Kafka_Worker.thy ===== *)
theory Kafka_Worker
  imports Mutation_Worker
begin

text \<open>
  The Kafka consumer of queued mutations, \<open>src/internal/queue/kafka/worker.go\<close>, \<open>errors.go\<close> and the
  replay check of \<open>dead_letter.go\<close>: configuration, bounded retries, the resolved prefix of each
  partition, dead letters, commit and rewind. The Kafka client, the handler, the timer and the random
  generator are fields of a record that change a world \<^typ>\<open>'w\<close>; metrics, logs and time stamps are
  left out.
\<close>

section \<open>Configuration\<close>

definition defaultMaxPollRecords :: int where
  "defaultMaxPollRecords = 500"

definition defaultMaxRetryAttempts :: int where
  "defaultMaxRetryAttempts = 10"

text \<open>Durations are nanoseconds.\<close>

definition defaultRetryBackoff :: int where
  "defaultRetryBackoff = 100 * 1000000"

definition defaultMaxBackoff :: int where
  "defaultMaxBackoff = 10 * 1000000000"

definition maxDeadLetterErrorBytes :: nat where
  "maxDeadLetterErrorBytes = 4096"

definition defaultProcessingTimeout :: int where
  "defaultProcessingTimeout = 20 * 1000000000"

definition defaultMaxRecordBytes :: int where
  "defaultMaxRecordBytes = 900 * 2 ^ 10"

lemmas kafka_defaults = defaultMaxPollRecords_def defaultMaxRetryAttempts_def defaultRetryBackoff_def
  defaultMaxBackoff_def defaultProcessingTimeout_def defaultMaxRecordBytes_def

record WorkerOptions =
  opt_brokers :: "string list"
  opt_store :: string
  opt_topic :: string
  opt_groupID :: string
  opt_deadLetterTopic :: string
  opt_handler :: bool
  opt_maxPollRecords :: int
  opt_maxRetryAttempts :: int
  opt_retryBackoff :: int
  opt_maxRetryBackoff :: int
  opt_processingTimeout :: int
  opt_maxRecordBytes :: int
  opt_shutdownTimeout :: int

record KafkaWorker =
  kw_store :: string
  kw_deadLetterTopic :: string
  kw_maxPollRecords :: int
  kw_maxRetryAttempts :: int
  kw_retryBackoff :: int
  kw_maxRetryBackoff :: int
  kw_processingTimeout :: int
  kw_shutdownTimeout :: int

definition or_default :: "int \<Rightarrow> int \<Rightarrow> int" where
  "or_default v d = (if v = 0 then d else v)"

text \<open>\<open>newClient\<close> is the error of \<open>kgo.NewClient\<close>, if any; \<open>opt_handler\<close> tells whether a handler was given.\<close>

definition NewWorker :: "string option \<Rightarrow> WorkerOptions \<Rightarrow> string + KafkaWorker" where
  "NewWorker newClient opts =
     (if opt_brokers opts = [] then Inl ''create Kafka worker: brokers are required''
      else if opt_store opts = [] \<or> opt_topic opts = [] \<or> opt_groupID opts = [] \<or> opt_deadLetterTopic opts = [] then
        Inl ''create Kafka worker: store, topic, group ID, and dead-letter topic are required''
      else if \<not> opt_handler opts then Inl ''create Kafka worker: handler is required''
      else if opt_maxPollRecords opts < 0 \<or> opt_maxRetryAttempts opts < 0 \<or> opt_retryBackoff opts < 0 \<or> opt_maxRetryBackoff opts < 0 then
        Inl ''create Kafka worker: limits cannot be negative''
      else
        let maxPollRecords = or_default (opt_maxPollRecords opts) defaultMaxPollRecords;
            maxRetryAttempts = or_default (opt_maxRetryAttempts opts) defaultMaxRetryAttempts;
            retryBackoff = or_default (opt_retryBackoff opts) defaultRetryBackoff;
            maxRetryBackoff = or_default (opt_maxRetryBackoff opts) defaultMaxBackoff
        in if maxRetryBackoff < retryBackoff then
             Inl ''create Kafka worker: max retry backoff is less than retry backoff''
           else if opt_processingTimeout opts < 0 \<or> 20 * 1000000000 < opt_processingTimeout opts then
             Inl ''create Kafka worker: processing timeout must not exceed 20 seconds''
           else if opt_maxRecordBytes opts < 0 \<or> 64 * 2 ^ 20 < opt_maxRecordBytes opts then
             Inl ''create Kafka worker: record byte limit must be between 1 and 64 MiB''
           else if opt_shutdownTimeout opts < 0 then
             Inl ''create Kafka worker: shutdown timeout cannot be negative''
           else
             case newClient of
               Some e \<Rightarrow> Inl e
             | None \<Rightarrow>
                 Inr \<lparr>kw_store = opt_store opts, kw_deadLetterTopic = opt_deadLetterTopic opts,
                   kw_maxPollRecords = maxPollRecords, kw_maxRetryAttempts = maxRetryAttempts,
                   kw_retryBackoff = retryBackoff, kw_maxRetryBackoff = maxRetryBackoff,
                   kw_processingTimeout = or_default (opt_processingTimeout opts) defaultProcessingTimeout,
                   kw_shutdownTimeout = or_default (opt_shutdownTimeout opts) (5 * 1000000000)\<rparr>)"

section \<open>Records and errors\<close>

record kgo_record =
  kr_topic :: string
  kr_partition :: int
  kr_offset :: int
  kr_leaderEpoch :: int
  kr_key :: string
  kr_value :: bytes
  kr_headers :: "(string \<times> string) list"

text \<open>
  The errors a record can end with: one of the handler, one of the worker itself, or a record that
  does not decode, has no route, or belongs to another store.
\<close>

datatype queue_error =
    ApplyFailure ApplyError
  | OtherFailure err
  | DecodeFailure kgo_record string
  | RouteFailure kgo_record string
  | StoreFailure kgo_record string string

fun operation_cause :: "queue_error \<Rightarrow> err option" where
  "operation_cause (ApplyFailure e) = Some (ae_cause e)"
| "operation_cause (OtherFailure e) = Some e"
| "operation_cause _ = None"

definition isRetryable :: "queue_error \<Rightarrow> bool" where
  "isRetryable e \<longleftrightarrow>
     snd (ErrorDetails (operation_cause e)) \<or> (case e of ApplyFailure a \<Rightarrow> ae_retryable a | _ \<Rightarrow> False)"

definition retryableProcessingError :: "queue_error option \<Rightarrow> bool" where
  "retryableProcessingError e =
     (case e of
        None \<Rightarrow> False
      | Some q \<Rightarrow>
          (case operation_cause q of None \<Rightarrow> False | Some c \<Rightarrow> is_context CtxCanceled c \<or> is_context CtxDeadline c) \<or>
          isRetryable q)"

section \<open>The environment\<close>

record 'w kafka_env =
  ke_handle :: "mutation list \<Rightarrow> 'w \<Rightarrow> queue_error option list \<times> 'w"
  ke_random :: "int \<Rightarrow> 'w \<Rightarrow> int \<times> 'w"
  ke_wait :: "int \<Rightarrow> 'w \<Rightarrow> ctx_err option \<times> 'w"
  ke_produce :: "kgo_record list \<Rightarrow> 'w \<Rightarrow> (kgo_record \<times> err option) list \<times> 'w"
  ke_commit :: "kgo_record list \<Rightarrow> 'w \<Rightarrow> err option \<times> 'w"
  ke_setOffsets :: "(string \<times> int \<rightharpoonup> int \<times> int) \<Rightarrow> 'w \<Rightarrow> 'w"
  ke_text :: "queue_error \<Rightarrow> string"

definition jitteredBackoff :: "'w kafka_env \<Rightarrow> int \<Rightarrow> 'w \<Rightarrow> int \<times> 'w" where
  "jitteredBackoff env backoff w =
     (if backoff \<le> 1 then (backoff, w)
      else let (r, w1) = ke_random env backoff w in (backoff div 2 + r, w1))"

section \<open>Retries\<close>

text \<open>
  The loop over one attempt's results: errors that are final are stored, the others keep their
  mutation and result index. \<open>batch[next] = batch[index]\<close> with \<open>next <= index\<close> compacts in place.
\<close>

fun compact ::
    "bool \<Rightarrow> queue_error option list \<Rightarrow> mutation list \<Rightarrow> nat list \<Rightarrow> queue_error option list \<Rightarrow>
     queue_error option list \<times> mutation list \<times> nat list" where
  "compact final (None # results) (m # batch) (p # pending) finals = compact final results batch pending finals"
| "compact final (Some e # results) (m # batch) (p # pending) finals =
     (if \<not> isRetryable e \<or> final then compact final results batch pending (finals[p := Some e])
      else let (finals1, batch1, pending1) = compact final results batch pending finals in (finals1, m # batch1, p # pending1))"
| "compact final _ _ _ finals = (finals, [], [])"

fun set_all :: "queue_error \<Rightarrow> nat list \<Rightarrow> queue_error option list \<Rightarrow> queue_error option list" where
  "set_all e [] finals = finals"
| "set_all e (p # pending) finals = set_all e pending (finals[p := Some e])"

definition invalid_count :: queue_error where
  "invalid_count = OtherFailure (BackendError (ErrText ''kafka mutation handler returned an invalid result count''))"

text \<open>The attempts that remain; the last one has \<open>attempt == maxRetryAttempts\<close>.\<close>

fun retry_loop ::
    "'w kafka_env \<Rightarrow> int \<Rightarrow> nat \<Rightarrow> int \<Rightarrow> queue_error option list \<Rightarrow> mutation list \<Rightarrow> nat list \<Rightarrow> 'w \<Rightarrow>
     queue_error option list \<times> 'w" where
  "retry_loop env maxBackoff 0 backoff finals batch pending w = (finals, w)"
| "retry_loop env maxBackoff (Suc remaining) backoff finals batch pending w =
     (let (results, w1) = ke_handle env batch w
      in if length results \<noteq> length batch then (set_all invalid_count pending finals, w1)
         else
           let (finals1, batch1, pending1) = compact (remaining = 0) results batch pending finals
           in if batch1 = [] then (finals1, w1)
              else
                let (delay, w2) = jitteredBackoff env backoff w1
                in case ke_wait env delay w2 of
                     (Some c, w3) \<Rightarrow> (set_all (OtherFailure (ErrContext c)) pending1 finals1, w3)
                   | (None, w3) \<Rightarrow>
                       retry_loop env maxBackoff remaining (min (backoff * 2) maxBackoff) finals1 batch1 pending1 w3)"

definition handleWithRetry ::
    "KafkaWorker \<Rightarrow> 'w kafka_env \<Rightarrow> mutation list \<Rightarrow> 'w \<Rightarrow> queue_error option list \<times> 'w" where
  "handleWithRetry kw env ms w =
     retry_loop env (kw_maxRetryBackoff kw) (nat (kw_maxRetryAttempts kw)) (kw_retryBackoff kw)
       (replicate (length ms) None) ms [0..<length ms] w"

section \<open>Settlement of a fetch\<close>

type_synonym topicPartition = "string \<times> int"

definition partition_of :: "kgo_record \<Rightarrow> topicPartition" where
  "partition_of r = (kr_topic r, kr_partition r)"

fun prefixes_loop ::
    "topicPartition set \<Rightarrow> kgo_record list \<Rightarrow> queue_error option list \<Rightarrow>
     kgo_record list \<times> queue_error option list \<times> kgo_record list" where
  "prefixes_loop blocked (record # records) (result # results) =
     (let blocked1 = (if retryableProcessingError result then insert (partition_of record) blocked else blocked);
          (ready, resolved, retained) = prefixes_loop blocked1 records results
      in if partition_of record \<in> blocked1 then (ready, resolved, record # retained)
         else (record # ready, result # resolved, retained))"
| "prefixes_loop blocked _ _ = ([], [], [])"

definition resolvedPrefixes ::
    "kgo_record list \<Rightarrow> queue_error option list \<Rightarrow> kgo_record list \<times> queue_error option list \<times> kgo_record list" where
  "resolvedPrefixes records results = prefixes_loop {} records results"

definition int_text :: "int \<Rightarrow> string" where
  "int_text i = (if i < 0 then ''-'' @ dec (nat (- i)) else dec (nat i))"

definition dead_letter :: "KafkaWorker \<Rightarrow> (queue_error \<Rightarrow> string) \<Rightarrow> kgo_record \<Rightarrow> queue_error \<Rightarrow> kgo_record" where
  "dead_letter kw text original e =
     \<lparr>kr_topic = kw_deadLetterTopic kw, kr_partition = 0, kr_offset = 0, kr_leaderEpoch = 0,
      kr_key = kr_key original, kr_value = kr_value original,
      kr_headers = [(''sink-source-topic'', kr_topic original), (''sink-source-partition'', int_text (kr_partition original)),
        (''sink-source-offset'', int_text (kr_offset original)), (''sink-error'', take maxDeadLetterErrorBytes (text e))]\<rparr>"

fun dead_letters :: "KafkaWorker \<Rightarrow> (queue_error \<Rightarrow> string) \<Rightarrow> kgo_record list \<Rightarrow> queue_error option list \<Rightarrow> kgo_record list" where
  "dead_letters kw text (record # records) (None # results) = dead_letters kw text records results"
| "dead_letters kw text (record # records) (Some e # results) =
     dead_letter kw text record e # dead_letters kw text records results"
| "dead_letters kw text _ _ = []"

text \<open>The errors that \<open>errors.Join\<close> joins; none means success.\<close>

definition publishDeadLetters ::
    "KafkaWorker \<Rightarrow> 'w kafka_env \<Rightarrow> kgo_record list \<Rightarrow> queue_error option list \<Rightarrow> 'w \<Rightarrow> err list \<times> 'w" where
  "publishDeadLetters kw env records results w =
     (let deadLetters = dead_letters kw (ke_text env) records results
      in if deadLetters = [] then ([], w)
         else let (produced, w1) = ke_produce env deadLetters w in (List.map_filter snd produced, w1))"

datatype fetch_error =
    ClientClosed
  | DeadLettersFailed "err list"
  | CommitFailed err
  | Unresolved

text \<open>The loop over the records: the error of one that never reaches the handler, the mutations and indexes of the others.\<close>

fun decode_records ::
    "KafkaWorker \<Rightarrow> message_codec \<Rightarrow> uri_parser \<Rightarrow> nat \<Rightarrow> kgo_record list \<Rightarrow> queue_error option list \<times> mutation list \<times> nat list" where
  "decode_records kw codec uri index [] = ([], [], [])"
| "decode_records kw codec uri index (record # records) =
     (let (finals, mutations, indexes) = decode_records kw codec uri (Suc index) records
      in case UnmarshalMutation codec (kr_value record) of
           Inl e \<Rightarrow> (Some (DecodeFailure record e) # finals, mutations, indexes)
         | Inr m \<Rightarrow>
             (case MutationStore uri m of
                Inl e \<Rightarrow> (Some (RouteFailure record e) # finals, mutations, indexes)
              | Inr store \<Rightarrow>
                  if store \<noteq> kw_store kw then (Some (StoreFailure record store (kw_store kw)) # finals, mutations, indexes)
                  else (None # finals, m # mutations, index # indexes)))"

fun store_results :: "nat list \<Rightarrow> queue_error option list \<Rightarrow> queue_error option list \<Rightarrow> queue_error option list" where
  "store_results (i # indexes) (result # results) finals = store_results indexes results (finals[i := result])"
| "store_results _ _ finals = finals"

definition settle ::
    "KafkaWorker \<Rightarrow> 'w kafka_env \<Rightarrow> kgo_record list \<Rightarrow> queue_error option list \<Rightarrow> 'w \<Rightarrow>
     (kgo_record list \<times> fetch_error option) \<times> 'w" where
  "settle kw env records finals w =
     (let (ready, resolved, retained) = resolvedPrefixes records finals;
          (failure, w1) =
            (if ready = [] then (None, w)
             else case publishDeadLetters kw env ready resolved w of
               (e # es, w2) \<Rightarrow> (Some (DeadLettersFailed (e # es)), w2)
             | ([], w2) \<Rightarrow>
                 (case ke_commit env ready w2 of (c, w3) \<Rightarrow> (map_option CommitFailed c, w3)))
      in case failure of
           Some e \<Rightarrow> ((records, Some e), w1)
         | None \<Rightarrow> if retained \<noteq> [] then ((retained, Some Unresolved), w1) else (([], None), w1))"

definition handleFetches ::
    "KafkaWorker \<Rightarrow> 'w kafka_env \<Rightarrow> message_codec \<Rightarrow> uri_parser \<Rightarrow> bool \<Rightarrow> kgo_record list \<Rightarrow> 'w \<Rightarrow>
     (kgo_record list \<times> fetch_error option) \<times> 'w" where
  "handleFetches kw env codec uri closed records w =
     (if closed then (([], Some ClientClosed), w)
      else if records = [] then (([], None), w)
      else
        let (finals, mutations, indexes) = decode_records kw codec uri 0 records;
            (finals1, w1) =
              (if mutations = [] then (finals, w)
               else let (results, w2) = handleWithRetry kw env mutations w in (store_results indexes results finals, w2))
        in settle kw env records finals1 w1)"

section \<open>Rewinding and the loop\<close>

fun rewind_offsets :: "kgo_record list \<Rightarrow> (topicPartition \<rightharpoonup> int \<times> int) \<Rightarrow> (topicPartition \<rightharpoonup> int \<times> int)" where
  "rewind_offsets [] offsets = offsets"
| "rewind_offsets (record # records) offsets =
     rewind_offsets records
       (case offsets (partition_of record) of
          None \<Rightarrow> offsets(partition_of record \<mapsto> (kr_leaderEpoch record, kr_offset record))
        | Some (_, previous) \<Rightarrow>
            if kr_offset record < previous then offsets(partition_of record \<mapsto> (kr_leaderEpoch record, kr_offset record))
            else offsets)"

definition rewind :: "'w kafka_env \<Rightarrow> kgo_record list \<Rightarrow> 'w \<Rightarrow> 'w" where
  "rewind env records w = ke_setOffsets env (rewind_offsets records Map.empty) w"

text \<open>The fields behind \<open>processingMu\<close>; an error of a fetch is told apart by whether it is \<open>OffsetOutOfRange\<close>.\<close>

datatype worker_error = FetchFailed bool string | RoundFailed fetch_error

record worker_state =
  ws_processing :: bool
  ws_running :: bool
  ws_lastError :: "worker_error option"
  ws_offsetGap :: bool

record poll =
  pl_ctxErr :: "ctx_err option"
  pl_closed :: bool
  pl_errors :: "(bool \<times> string) list"
  pl_records :: "kgo_record list"

datatype round_outcome = Continue int | Backoff int int | Stop "string option"

text \<open>
  One turn of the loop of \<open>Run\<close> after \<open>PollRecords\<close> returned \<open>pl\<close>, up to its timer: \<open>Backoff d d'\<close> waits
  for \<open>jitteredBackoff d\<close>, unless the context ends first, and continues with the backoff \<open>d'\<close>; \<open>Continue d\<close>
  polls again at once. \<open>ended\<close> is \<open>ctx.Err() != nil\<close> after the round.
\<close>

definition run_round ::
    "KafkaWorker \<Rightarrow> 'w kafka_env \<Rightarrow> message_codec \<Rightarrow> uri_parser \<Rightarrow> poll \<Rightarrow> bool \<Rightarrow> int \<Rightarrow> worker_state \<Rightarrow> 'w \<Rightarrow>
     round_outcome \<times> worker_state \<times> 'w" where
  "run_round kw env codec uri pl ended backoff st w =
     (if pl_ctxErr pl \<noteq> None then (Stop None, st, w)
      else if pl_closed pl then (Stop (Some ''kafka worker client is closed''), st, w)
      else
        let ((retained, e), w1) = handleFetches kw env codec uri (pl_closed pl) (pl_records pl) w;
            lastError = (case pl_errors pl of (gap, text) # _ \<Rightarrow> Some (FetchFailed gap text) | [] \<Rightarrow> map_option RoundFailed e);
            st1 = st\<lparr>ws_processing := False, ws_lastError := lastError,
              ws_offsetGap := ws_offsetGap st \<or> (\<exists>failure \<in> set (pl_errors pl). fst failure)\<rparr>;
            w2 = (if e \<noteq> None then rewind env retained w1 else w1)
        in if e \<noteq> None \<and> ended then (Stop None, st1, w2)
           else if pl_errors pl = [] \<and> e = None then (Continue (kw_retryBackoff kw), st1, w2)
           else (Backoff backoff (min (backoff * 2) (kw_maxRetryBackoff kw)), st1, w2))"

definition rebalanceRequested :: "worker_state \<Rightarrow> bool \<times> worker_state" where
  "rebalanceRequested st = (ws_processing st, st)"

definition partitionsReleased :: "worker_state \<Rightarrow> worker_state" where
  "partitionsReleased st = st\<lparr>ws_lastError := None\<rparr>"

text \<open>\<open>Ping\<close>; \<open>topics\<close> and \<open>client\<close> are the answers of the two clients it asks.\<close>

datatype ping_error = PingExternal string | PingOffsetGap | PingNotRunning | PingRecovering worker_error

definition Ping :: "string option \<Rightarrow> string option \<Rightarrow> worker_state \<Rightarrow> ping_error option" where
  "Ping topics client st =
     (case topics of
        Some e \<Rightarrow> Some (PingExternal e)
      | None \<Rightarrow>
          if ws_offsetGap st then Some PingOffsetGap
          else if \<not> ws_running st then Some PingNotRunning
          else case ws_lastError st of
                 Some e \<Rightarrow> Some (PingRecovering e)
               | None \<Rightarrow> map_option PingExternal client)"

section \<open>Replay of dead letters\<close>

datatype replay_error = ReplayDecode kgo_record string | ReplayStore string | ReplayOwner string string

fun ValidateDeadLetterReplay ::
    "message_codec \<Rightarrow> uri_parser \<Rightarrow> kgo_record list \<Rightarrow> string \<Rightarrow> replay_error + mutation list" where
  "ValidateDeadLetterReplay codec uri [] store = Inr []"
| "ValidateDeadLetterReplay codec uri (record # records) store =
     (case UnmarshalMutation codec (kr_value record) of
        Inl e \<Rightarrow> Inl (ReplayDecode record e)
      | Inr m \<Rightarrow>
          (case MutationStore uri m of
             Inl e \<Rightarrow> Inl (ReplayStore e)
           | Inr owner \<Rightarrow>
               if owner \<noteq> store then Inl (ReplayOwner owner store)
               else case ValidateDeadLetterReplay codec uri records store of
                      Inl e \<Rightarrow> Inl e
                    | Inr ms \<Rightarrow> Inr (m # ms)))"

section \<open>Retries keep the order of a record\<close>

lemma record_run_mono:
  assumes "record_run before ms I again result h h'" "\<And>x y. before x y \<Longrightarrow> before' x y"
    and "\<And>i. i \<in> I \<Longrightarrow> result' i = result i"
    and "\<And>i e. i \<in> I \<Longrightarrow> result i = Some e \<Longrightarrow> again' e = again e"
  shows "record_run before' ms I again' result' h h'"
proof -
  obtain xs where xs: "sorted_wrt before xs" "set xs \<subseteq> I" "h' = h @ map ((!) ms) xs"
    "\<forall>i \<in> I. result i = None \<longrightarrow> i \<in> set xs"
    "\<forall>i \<in> I. \<forall>j \<in> I. i < j \<longrightarrow> (\<exists>e. result i = Some e \<and> again e) \<longrightarrow>
       j \<notin> set xs \<and> (\<exists>e. result j = Some e \<and> again e)"
    using assms(1) unfolding record_run_def by (elim exE conjE)
  have same: "(\<exists>e. result' i = Some e \<and> again' e) = (\<exists>e. result i = Some e \<and> again e)" if "i \<in> I" for i
    using assms(3)[OF that] assms(4)[OF that] by (cases "result i") simp_all
  show ?thesis
    unfolding record_run_def
  proof (intro exI[of _ xs] conjI ballI impI)
    show "sorted_wrt before' xs" using sorted_wrt_mono_rel[of xs before before'] xs(1) assms(2) by blast
    show "i \<in> set xs" if "i \<in> I" "result' i = None" for i using that xs(4) assms(3) by simp
    fix i j assume "i \<in> I" "j \<in> I" "i < j" "\<exists>e. result' i = Some e \<and> again' e"
    then show "j \<notin> set xs" "\<exists>e. result' j = Some e \<and> again' e"
      using xs(5)[rule_format, of i j] same[of i] same[of j] by simp_all
  qed (use xs in auto)
qed

text \<open>Positions of a compacted batch are mapped back to those of the whole one.\<close>

lemma record_run_image:
  assumes "record_run before batch J again result h h'" "strict_mono_on J pos"
    and "\<And>x y. x \<in> J \<Longrightarrow> y \<in> J \<Longrightarrow> before x y \<Longrightarrow> before (pos x) (pos y)"
    and "\<And>j. j \<in> J \<Longrightarrow> batch ! j = ms ! pos j" "\<And>j. j \<in> J \<Longrightarrow> result' (pos j) = result j"
  shows "record_run before ms (pos ` J) again result' h h'"
proof -
  obtain xs where xs: "sorted_wrt before xs" "set xs \<subseteq> J" "h' = h @ map ((!) batch) xs"
    "\<forall>i \<in> J. result i = None \<longrightarrow> i \<in> set xs"
    "\<forall>i \<in> J. \<forall>j \<in> J. i < j \<longrightarrow> (\<exists>e. result i = Some e \<and> again e) \<longrightarrow>
       j \<notin> set xs \<and> (\<exists>e. result j = Some e \<and> again e)"
    using assms(1) unfolding record_run_def by (elim exE conjE)
  have inj: "inj_on pos J" using assms(2) by (rule strict_mono_on_imp_inj_on)
  have less: "i < j" if "i \<in> J" "j \<in> J" "pos i < pos j" for i j
    using that assms(2) by (metis linorder_neqE_nat order_less_asym strict_mono_onD)
  show ?thesis
    unfolding record_run_def
  proof (intro exI[of _ "map pos xs"] conjI ballI impI)
    show "sorted_wrt before (map pos xs)"
      using xs(1,2) assms(3) by (auto simp: sorted_wrt_map subset_iff intro: sorted_wrt_mono_rel[of xs before])
    show "set (map pos xs) \<subseteq> pos ` J" using xs(2) by auto
    show "h' = h @ map ((!) ms) (map pos xs)" using xs(2,3) assms(4) by auto
    show "i \<in> set (map pos xs)" if "i \<in> pos ` J" "result' i = None" for i
      using that xs(4) assms(5) by auto
    fix i j assume "i \<in> pos ` J" "j \<in> pos ` J" "i < j" "\<exists>e. result' i = Some e \<and> again e"
    then obtain a b where ab: "a \<in> J" "b \<in> J" "i = pos a" "j = pos b" "a < b" "\<exists>e. result a = Some e \<and> again e"
      using less assms(5) by fastforce
    then have "b \<notin> set xs" "\<exists>e. result b = Some e \<and> again e" using xs(5) by blast+
    then show "j \<notin> set (map pos xs)" "\<exists>e. result' j = Some e \<and> again e"
      using ab inj xs(2) assms(5) by (auto simp: inj_on_def)
  qed
qed

text \<open>An attempt followed by a run over the positions whose failure is retried.\<close>

lemma record_run_retry:
  assumes "record_run (<) ms I again result h h1"
    and "record_run (\<le>) ms {i \<in> I. \<exists>e. result i = Some e \<and> again e} again' result' h1 h'"
    and "\<And>i. i \<in> I \<Longrightarrow> \<not> (\<exists>e. result i = Some e \<and> again e) \<Longrightarrow> result' i = result i \<and> (\<forall>e. result i = Some e \<longrightarrow> \<not> again' e)"
  shows "record_run (\<le>) ms I again' result' h h'"
proof -
  let ?again = "\<lambda>i. \<exists>e. result i = Some e \<and> again e"
  let ?I = "{i \<in> I. ?again i}"
  obtain xs where xs: "sorted_wrt (<) xs" "set xs \<subseteq> I" "h1 = h @ map ((!) ms) xs"
    "\<forall>i \<in> I. result i = None \<longrightarrow> i \<in> set xs"
    "\<forall>i \<in> I. \<forall>j \<in> I. i < j \<longrightarrow> ?again i \<longrightarrow> j \<notin> set xs \<and> ?again j"
    using assms(1) unfolding record_run_def by (elim exE conjE)
  obtain ys where ys: "sorted_wrt (\<le>) ys" "set ys \<subseteq> ?I" "h' = h1 @ map ((!) ms) ys"
    "\<forall>i \<in> ?I. result' i = None \<longrightarrow> i \<in> set ys"
    "\<forall>i \<in> ?I. \<forall>j \<in> ?I. i < j \<longrightarrow> (\<exists>e. result' i = Some e \<and> again' e) \<longrightarrow>
       j \<notin> set ys \<and> (\<exists>e. result' j = Some e \<and> again' e)"
    using assms(2) unfolding record_run_def by (elim exE conjE)
  have "x \<le> y" if "x \<in> set xs" "y \<in> set ys" for x y
  proof (rule ccontr)
    assume "\<not> x \<le> y"
    moreover have "y \<in> I" "?again y" "x \<in> I" using that xs(2) ys(2) by auto
    ultimately have "x \<notin> set xs" using xs(5)[rule_format, of y x] by simp
    then show False using that(1) by simp
  qed
  moreover have "sorted_wrt (\<le>) xs" using xs(1) by (rule strict_sorted_imp_sorted)
  ultimately have sorted: "sorted_wrt (\<le>) (xs @ ys)" using ys(1) by (simp add: sorted_wrt_append)
  show ?thesis
    unfolding record_run_def
  proof (intro exI[of _ "xs @ ys"] conjI ballI impI)
    show "sorted_wrt (\<le>) (xs @ ys)" by (rule sorted)
    show "set (xs @ ys) \<subseteq> I" using xs(2) ys(2) by auto
    show "h' = h @ map ((!) ms) (xs @ ys)" using xs(3) ys(3) by simp
    show "i \<in> set (xs @ ys)" if "i \<in> I" "result' i = None" for i
      using that xs(4) ys(4) assms(3)[OF that(1)] by (cases "?again i") auto
    fix i j assume ij: "i \<in> I" "j \<in> I" "i < j" "\<exists>e. result' i = Some e \<and> again' e"
    have i: "?again i" using assms(3)[OF ij(1)] ij(4) by metis
    then have j: "j \<notin> set xs" "?again j" using xs(5) ij by blast+
    then have "j \<notin> set ys \<and> (\<exists>e. result' j = Some e \<and> again' e)" using ys(5) i ij by blast
    then show "j \<notin> set (xs @ ys)" "\<exists>e. result' j = Some e \<and> again' e" using j(1) by simp_all
  qed
qed


section \<open>One attempt\<close>

definition again_at :: "queue_error option list \<Rightarrow> nat \<Rightarrow> bool" where
  "again_at results j \<longleftrightarrow> (\<exists>e. results ! j = Some e \<and> isRetryable e)"

lemma compact_pending:
  assumes "compact final results batch pending finals = (finals', batch', pending')"
    and "length results = length batch" "length pending = length batch"
  shows "pending' = map ((!) pending) (filter (\<lambda>j. \<not> final \<and> again_at results j) [0..<length batch]) \<and>
    batch' = map ((!) batch) (filter (\<lambda>j. \<not> final \<and> again_at results j) [0..<length batch])"
  using assms
proof (induction batch arbitrary: results pending finals finals' batch' pending')
  case Nil
  then show ?case by simp
next
  case (Cons m batch)
  obtain r rs where r: "results = r # rs" using Cons.prems(2) by (cases results) auto
  obtain p ps where p: "pending = p # ps" using Cons.prems(3) by (cases pending) auto
  have up: "[0..<length (m # batch)] = 0 # map Suc [0..<length batch]"
    by (simp add: upt_conv_Cons map_Suc_upt del: upt_Suc)
  have shift: "filter (\<lambda>j. \<not> final \<and> again_at results j) [0..<length (m # batch)] =
      (if \<not> final \<and> again_at results 0 then [0] else []) @ map Suc (filter (\<lambda>j. \<not> final \<and> again_at rs j) [0..<length batch])"
    unfolding up by (simp add: filter_map comp_def r again_at_def)
  show ?case
  proof (cases "\<not> final \<and> again_at results 0")
    case True
    then obtain e where e: "r = Some e" "isRetryable e" "\<not> final" using r by (auto simp: again_at_def)
    obtain f1 b1 p1 where t: "compact final rs batch ps finals = (f1, b1, p1)" by (metis prod_cases3)
    then show ?thesis
      using Cons.prems Cons.IH[OF t] e r p unfolding shift by (auto simp: again_at_def comp_def)
  next
    case False
    then obtain f where "compact final rs batch ps f = (finals', batch', pending')"
      using Cons.prems r p by (cases r) (auto simp: again_at_def split: if_splits)
    from Cons.IH[OF this] show ?thesis
      using Cons.prems(2,3) r p False unfolding shift by (simp add: comp_def)
  qed
qed

lemma compact_finals:
  assumes "compact final results batch pending finals = (finals', batch', pending')"
    and "length results = length batch" "length pending = length batch" "distinct pending" "\<forall>p \<in> set pending. p < length finals"
  shows "length finals' = length finals \<and> (\<forall>p. p \<notin> set pending \<longrightarrow> finals' ! p = finals ! p) \<and>
    (\<forall>j < length batch. finals' ! (pending ! j) =
       (if results ! j = None \<or> \<not> final \<and> again_at results j then finals ! (pending ! j) else results ! j))"
  using assms
proof (induction batch arbitrary: results pending finals finals' batch' pending')
  case Nil
  then show ?case by simp
next
  case (Cons m batch)
  obtain r rs where r: "results = r # rs" using Cons.prems(2) by (cases results) auto
  obtain p ps where p: "pending = p # ps" using Cons.prems(3) by (cases pending) auto
  have zero: "again_at results 0 = (\<exists>e. r = Some e \<and> isRetryable e)" "\<And>j. again_at results (Suc j) = again_at rs j"
    using r by (simp_all add: again_at_def)
  define f where "f = (case r of Some e \<Rightarrow> if \<not> isRetryable e \<or> final then finals[p := Some e] else finals | None \<Rightarrow> finals)"
  have "\<exists>b p1. compact final rs batch ps f = (finals', b, p1)"
    using Cons.prems(1) r p by (auto simp: f_def split: option.splits if_splits prod.splits)
  then obtain b p1 where t: "compact final rs batch ps f = (finals', b, p1)" by blast
  have len: "length f = length finals" by (simp add: f_def split: option.split)
  have pre: "length rs = length batch" "length ps = length batch" "distinct ps" "\<forall>p \<in> set ps. p < length f" "p \<notin> set ps" "p < length finals"
    using Cons.prems r p len by auto
  have fnth: "f ! q = (if q = p \<and> \<not> (r = None \<or> \<not> final \<and> again_at results 0) then r else finals ! q)" for q
    using pre(6) zero(1) by (auto simp: f_def split: option.split)
  note ih = Cons.IH[OF t pre(1-4)]
  have "finals' ! (pending ! j) =
      (if results ! j = None \<or> \<not> final \<and> again_at results j then finals ! (pending ! j) else results ! j)"
    if "j < length (m # batch)" for j
  proof (cases j)
    case 0
    then show ?thesis using ih pre(5) fnth[of p] r p by auto
  next
    case (Suc i)
    then have i: "i < length batch" using that by simp
    then have "ps ! i \<noteq> p" using pre(2,5) by (metis nth_mem)
    then show ?thesis using ih i Suc fnth[of "ps ! i"] r p zero(2) by simp
  qed
  moreover have "finals' ! q = finals ! q" if "q \<notin> set pending" for q using ih fnth[of q] that p by auto
  moreover have "length finals' = length finals" using ih len by simp
  ultimately show ?case by blast
qed

lemma set_all_nth:
  assumes "\<forall>p \<in> set pending. p < length finals"
  shows "length (set_all e pending finals) = length finals"
    "set_all e pending finals ! q = (if q \<in> set pending then Some e else finals ! q)"
  using assms by (induction pending arbitrary: finals) (auto simp: nth_list_update)


section \<open>The whole loop\<close>

definition unsettled :: "queue_error \<Rightarrow> bool" where
  "unsettled e \<longleftrightarrow> retryableProcessingError (Some e)"

lemma isRetryable_unsettled: "isRetryable e \<Longrightarrow> unsettled e"
  and context_unsettled: "unsettled (OtherFailure (ErrContext c))"
  by (auto simp: unsettled_def retryableProcessingError_def intro: ctx_err.exhaust[of c])

definition handler_contract ::
    "uri_parser \<Rightarrow> ('w \<Rightarrow> string \<Rightarrow> mutation list) \<Rightarrow> (mutation list \<Rightarrow> 'w \<Rightarrow> queue_error option list \<times> 'w) \<Rightarrow> bool" where
  "handler_contract uri hist handle \<longleftrightarrow>
     (\<forall>ms w results w'. handle ms w = (results, w') \<longrightarrow>
        delivered (<) uri hist ms isRetryable results w w' \<and>
        (\<forall>e. Some e \<in> set results \<longrightarrow> unsettled e = isRetryable e))"

definition waits_quiet :: "'w kafka_env \<Rightarrow> ('w \<Rightarrow> 'v) \<Rightarrow> bool" where
  "waits_quiet env view \<longleftrightarrow>
     (\<forall>n w r w'. ke_random env n w = (r, w') \<longrightarrow> view w' = view w) \<and>
     (\<forall>n w r w'. ke_wait env n w = (r, w') \<longrightarrow> view w' = view w)"

lemma jitter_quiet: "waits_quiet env view \<Longrightarrow> jitteredBackoff env b w = (d, w') \<Longrightarrow> view w' = view w"
  by (auto simp: waits_quiet_def jitteredBackoff_def split: if_splits prod.splits)

definition of_record :: "uri_parser \<Rightarrow> mutation list \<Rightarrow> nat list \<Rightarrow> string \<Rightarrow> nat set" where
  "of_record uri ms pending k = {p \<in> set pending. MutationKey uri (ms ! p) = Inr k}"

text \<open>One attempt, with its results read at the positions of the whole batch.\<close>

lemma attempt_run:
  assumes "handler_contract uri hist handle" "handle batch w = (results, w1)"
    and "batch = map ((!) ms) pending" "sorted_wrt (<) pending"
  obtains R where "length results = length batch" "\<And>j. j < length pending \<Longrightarrow> R (pending ! j) = results ! j"
    "\<And>p e. p \<in> set pending \<Longrightarrow> R p = Some e \<Longrightarrow> unsettled e = isRetryable e"
    "\<And>k. record_run (<) ms (of_record uri ms pending k) isRetryable R (hist w k) (hist w1 k)"
proof -
  have d: "delivered (<) uri hist batch isRetryable results w w1" "\<And>e. Some e \<in> set results \<Longrightarrow> unsettled e = isRetryable e"
    using assms(1,2) unfolding handler_contract_def by blast+
  have len: "length results = length batch" "length batch = length pending" using d(1) assms(3) by (simp_all add: delivered_def)
  define R where "R q = results ! inv_into {..<length pending} ((!) pending) q" for q
  have mono: "strict_mono_on {..<length pending} ((!) pending)"
    using assms(4) by (auto simp: strict_mono_on_def sorted_wrt_iff_nth_less)
  then have R: "R (pending ! j) = results ! j" if "j < length pending" for j
    using that by (simp add: R_def inv_into_f_f strict_mono_on_imp_inj_on)
  have J: "positions uri batch k \<subseteq> {..<length pending}" for k using len by (auto simp: positions_def)
  have image: "(!) pending ` positions uri batch k = of_record uri ms pending k" for k
    using assms(3) by (auto simp: positions_def of_record_def in_set_conv_nth)
  have "record_run (<) ms (of_record uri ms pending k) isRetryable R (hist w k) (hist w1 k)" for k
    unfolding image[symmetric]
  proof (rule record_run_image)
    show "record_run (<) batch (positions uri batch k) isRetryable ((!) results) (hist w k) (hist w1 k)"
      using d(1) by (simp add: delivered_def)
    show "strict_mono_on (positions uri batch k) ((!) pending)" using mono J by (meson strict_mono_onD strict_mono_onI subsetD)
    show "pending ! x < pending ! y" if "x \<in> positions uri batch k" "y \<in> positions uri batch k" "x < y" for x y
      using that mono J by (meson strict_mono_onD subsetD)
  qed (use J R assms(3) in \<open>auto simp: subset_iff\<close>)
  moreover have "unsettled e = isRetryable e" if "p \<in> set pending" "R p = Some e" for p e
    using that R d(2) len by (metis in_set_conv_nth nth_mem)
  ultimately show ?thesis using that R len(1) by blast
qed


lemma record_run_empty: "record_run before ms {} again result h h"
  by (simp add: record_run_def)

lemma record_run_failed:
  "(\<And>i. i \<in> I \<Longrightarrow> \<exists>e. result i = Some e \<and> again e) \<Longrightarrow> record_run before ms I again result h h"
  by (fastforce simp: record_run_def intro!: exI[of _ "[]"])

text \<open>What an attempt leaves: the positions to retry, and the results of the others.\<close>

lemma attempt_compact:
  assumes "compact final results batch pending finals = (finals1, batch1, pending1)"
    and "length results = length batch" "batch = map ((!) ms) pending" "sorted_wrt (<) pending"
    and "\<forall>p \<in> set pending. p < length finals \<and> finals ! p = None"
    and "\<And>j. j < length pending \<Longrightarrow> R (pending ! j) = results ! j"
  shows "length finals1 = length finals" "\<And>q. q \<notin> set pending \<Longrightarrow> finals1 ! q = finals ! q"
    "sorted_wrt (<) pending1" "batch1 = map ((!) ms) pending1"
    "set pending1 = {p \<in> set pending. \<not> final \<and> (\<exists>e. R p = Some e \<and> isRetryable e)}"
    "\<And>p. p \<in> set pending \<Longrightarrow> finals1 ! p = (if p \<in> set pending1 then None else R p)"
proof -
  let ?js = "filter (\<lambda>j. \<not> final \<and> again_at results j) [0..<length batch]"
  have len: "length pending = length batch" using assms(3) by simp
  have d: "distinct pending" using assms(4) by (simp add: strict_sorted_iff)
  have p1: "pending1 = map ((!) pending) ?js" "batch1 = map ((!) batch) ?js"
    using compact_pending[OF assms(1,2) len] by simp_all
  have f1: "length finals1 = length finals" "\<And>q. q \<notin> set pending \<Longrightarrow> finals1 ! q = finals ! q"
    "\<And>j. j < length batch \<Longrightarrow> finals1 ! (pending ! j) =
       (if results ! j = None \<or> \<not> final \<and> again_at results j then finals ! (pending ! j) else results ! j)"
    using compact_finals[OF assms(1,2) len d] assms(5) by blast+
  show "length finals1 = length finals" "\<And>q. q \<notin> set pending \<Longrightarrow> finals1 ! q = finals ! q" using f1 by blast+
  have "sorted_wrt (\<lambda>x y. pending ! x < pending ! y) [0..<length batch]"
    using assms(4) len by (auto simp: sorted_wrt_iff_nth_less)
  then show "sorted_wrt (<) pending1" unfolding p1 by (simp add: sorted_wrt_map sorted_wrt_filter)
  show "batch1 = map ((!) ms) pending1" using p1 assms(3) by simp
  have again: "again_at results j = (\<exists>e. R (pending ! j) = Some e \<and> isRetryable e)" if "j < length batch" for j
    using assms(6)[of j] that len by (simp add: again_at_def)
  show set1: "set pending1 = {p \<in> set pending. \<not> final \<and> (\<exists>e. R p = Some e \<and> isRetryable e)}"
  proof (intro equalityI subsetI)
    fix p assume "p \<in> set pending1"
    then obtain j where "j < length batch" "\<not> final" "again_at results j" "p = pending ! j" unfolding p1 by auto
    then show "p \<in> {p \<in> set pending. \<not> final \<and> (\<exists>e. R p = Some e \<and> isRetryable e)}" using again len by auto
  next
    fix p assume p: "p \<in> {p \<in> set pending. \<not> final \<and> (\<exists>e. R p = Some e \<and> isRetryable e)}"
    then obtain j where "j < length batch" "p = pending ! j" using len by (auto simp: in_set_conv_nth)
    then show "p \<in> set pending1" unfolding p1 using p again by auto
  qed
  fix p assume "p \<in> set pending"
  then obtain j where j: "j < length batch" "p = pending ! j" using len by (auto simp: in_set_conv_nth)
  then have "finals ! p = None" "R p = results ! j" "p \<in> set pending1 \<longleftrightarrow> \<not> final \<and> again_at results j"
    using assms(5,6) len again[of j] unfolding set1 by simp_all
  then show "finals1 ! p = (if p \<in> set pending1 then None else R p)" using f1(3)[of j] j by auto
qed

definition retried ::
    "uri_parser \<Rightarrow> ('w \<Rightarrow> string \<Rightarrow> mutation list) \<Rightarrow> mutation list \<Rightarrow> nat list \<Rightarrow> queue_error option list \<Rightarrow> 'w \<Rightarrow>
     queue_error option list \<Rightarrow> 'w \<Rightarrow> bool" where
  "retried uri hist ms pending finals w finals' w' \<longleftrightarrow>
     length finals' = length finals \<and> (\<forall>q. q \<notin> set pending \<longrightarrow> finals' ! q = finals ! q) \<and>
     (\<forall>k. record_run (\<le>) ms (of_record uri ms pending k) unsettled ((!) finals') (hist w k) (hist w' k))"

lemma retried_step:
  assumes run: "\<And>k. record_run (<) ms (of_record uri ms pending k) isRetryable R (hist w k) (hist w1 k)"
    and R: "\<And>p e. p \<in> set pending \<Longrightarrow> R p = Some e \<Longrightarrow> unsettled e = isRetryable e"
    and f1: "length finals1 = length finals" "\<And>q. q \<notin> set pending \<Longrightarrow> finals1 ! q = finals ! q"
      "set pending1 = {p \<in> set pending. \<exists>e. R p = Some e \<and> isRetryable e}"
      "\<And>p. p \<in> set pending \<Longrightarrow> finals1 ! p = (if p \<in> set pending1 then None else R p)"
    and rest: "retried uri hist ms pending1 finals1 w1 finals' w'"
  shows "retried uri hist ms pending finals w finals' w'"
proof -
  have rest1: "length finals' = length finals1" "\<And>q. q \<notin> set pending1 \<Longrightarrow> finals' ! q = finals1 ! q"
    "\<And>k. record_run (\<le>) ms (of_record uri ms pending1 k) unsettled ((!) finals') (hist w1 k) (hist w' k)"
    using rest unfolding retried_def by blast+
  have "record_run (\<le>) ms (of_record uri ms pending k) unsettled ((!) finals') (hist w k) (hist w' k)" for k
  proof (rule record_run_retry[OF run[of k]])
    have "{i \<in> of_record uri ms pending k. \<exists>e. R i = Some e \<and> isRetryable e} = of_record uri ms pending1 k"
      using f1(3) by (auto simp: of_record_def)
    then show "record_run (\<le>) ms {i \<in> of_record uri ms pending k. \<exists>e. R i = Some e \<and> isRetryable e} unsettled
        ((!) finals') (hist w1 k) (hist w' k)" using rest1(3)[of k] by simp
    fix i assume i: "i \<in> of_record uri ms pending k" "\<not> (\<exists>e. R i = Some e \<and> isRetryable e)"
    then have "i \<in> set pending" "i \<notin> set pending1" using f1(3) by (auto simp: of_record_def)
    then show "finals' ! i = R i \<and> (\<forall>e. R i = Some e \<longrightarrow> \<not> unsettled e)" using rest1(2) f1(4) R i(2) by auto
  qed
  moreover have "finals' ! q = finals ! q" if "q \<notin> set pending" for q
    using that rest1(2)[of q] f1(2,3) by auto
  ultimately show ?thesis using rest1(1) f1(1) unfolding retried_def by simp
qed


lemma retry_loop_retried:
  assumes "handler_contract uri hist (ke_handle env)" "waits_quiet env hist"
    and "retry_loop env mb n backoff finals (map ((!) ms) pending) pending w = (finals', w')" "0 < n"
    and "sorted_wrt (<) pending" "\<forall>p \<in> set pending. p < length finals \<and> finals ! p = None"
  shows "retried uri hist ms pending finals w finals' w'"
  using assms(3-)
proof (induction n arbitrary: backoff finals pending w)
  case 0
  then show ?case by simp
next
  case (Suc remaining)
  let ?batch = "map ((!) ms) pending"
  obtain results w1 where h: "ke_handle env ?batch w = (results, w1)" by fastforce
  obtain R where R: "length results = length ?batch" "\<And>j. j < length pending \<Longrightarrow> R (pending ! j) = results ! j"
    "\<And>p e. p \<in> set pending \<Longrightarrow> R p = Some e \<Longrightarrow> unsettled e = isRetryable e"
    "\<And>k. record_run (<) ms (of_record uri ms pending k) isRetryable R (hist w k) (hist w1 k)"
    using attempt_run[OF assms(1) h refl Suc.prems(3)] by blast
  obtain finals1 batch1 pending1 where c: "compact (remaining = 0) results ?batch pending finals = (finals1, batch1, pending1)"
    by (metis prod_cases3)
  note f = attempt_compact[OF c R(1) refl Suc.prems(3,4) R(2), simplified]
  have step: "retried uri hist ms pending finals w finals' w'"
    if "set pending1 = {p \<in> set pending. \<exists>e. R p = Some e \<and> isRetryable e}" "retried uri hist ms pending1 finals1 w1 finals' w'"
    by (rule retried_step[where R = R and ?w1.0 = w1 and ?finals1.0 = finals1 and ?pending1.0 = pending1])
      (use R(3,4) f(1,2,6) that in blast)+
  show ?case
  proof (cases "remaining = 0")
    case True
    then have none: "pending1 = []" using f(5) by simp
    then have out: "finals' = finals1" "w' = w1" using Suc.prems(1) h R(1) c f(4) by simp_all
    have "record_run (\<le>) ms (of_record uri ms pending k) unsettled ((!) finals1) (hist w k) (hist w1 k)" for k
      by (rule record_run_mono[OF R(4)[of k]]) (use f(6) none R(3) in \<open>auto simp: of_record_def\<close>)
    then show ?thesis using f(1,2) out unfolding retried_def by simp
  next
    case False
    then have set1: "set pending1 = {p \<in> set pending. \<exists>e. R p = Some e \<and> isRetryable e}" using f(5) by simp
    show ?thesis
    proof (cases "pending1 = []")
      case True
      then have "finals' = finals1" "w' = w1" using Suc.prems(1) h R(1) c f(4) by simp_all
      moreover have "retried uri hist ms pending1 finals1 w1 finals1 w1"
        using True by (simp add: retried_def of_record_def record_run_empty)
      ultimately show ?thesis using step[OF set1] by simp
    next
      case some: False
      obtain d w2 where d: "jitteredBackoff env backoff w1 = (d, w2)" by fastforce
      obtain x w3 where x: "ke_wait env d w2 = (x, w3)" by fastforce
      have quiet: "hist w3 = hist w1"
        using jitter_quiet[OF assms(2) d] assms(2) x unfolding waits_quiet_def by metis
      have bounds: "\<forall>p \<in> set pending1. p < length finals1 \<and> finals1 ! p = None"
        using Suc.prems(4) f(1,6) set1 by auto
      have "retried uri hist ms pending1 finals1 w3 finals' w'"
      proof (cases x)
        case None
        then have "retry_loop env mb remaining (min (backoff * 2) mb) finals1 (map ((!) ms) pending1) pending1 w3 = (finals', w')"
          using Suc.prems(1) h R(1) c some d x f(4) by simp
        then show ?thesis by (rule Suc.IH) (use False f(3) bounds in auto)
      next
        case (Some cerr)
        then have out: "finals' = set_all (OtherFailure (ErrContext cerr)) pending1 finals1" "w' = w3"
          using Suc.prems(1) h R(1) c some d x f(4) by simp_all
        have b: "\<forall>p \<in> set pending1. p < length finals1" using bounds by simp
        show ?thesis
          unfolding retried_def out using set_all_nth[OF b] context_unsettled[of cerr]
          by (auto simp: of_record_def intro!: record_run_failed)
      qed
      then have "retried uri hist ms pending1 finals1 w1 finals' w'" using quiet by (simp add: retried_def)
      then show ?thesis by (rule step[OF set1])
    qed
  qed
qed

text \<open>The processor as the handler of the consumer.\<close>

definition processor_handler ::
    "uri_parser \<Rightarrow> 'w applier \<Rightarrow> mutation list \<Rightarrow> 'w \<Rightarrow> queue_error option list \<times> 'w" where
  "processor_handler uri ap ms w =
     (let (results, w1) = HandleBatch uri ap ms w in (map (map_option ApplyFailure) results, w1))"

lemma processor_contract:
  assumes "applier_contract uri ap hist"
  shows "handler_contract uri hist (processor_handler uri ap)"
  unfolding handler_contract_def
proof (intro allI impI, goal_cases)
  case (1 ms w results w')
  obtain rs where b: "HandleBatch uri ap ms w = (rs, w')" and r: "results = map (map_option ApplyFailure) rs"
    using 1 by (auto simp: processor_handler_def split: prod.splits)
  have cls: "classified rs" using HandleBatch_waves[OF assms b] by metis
  have len: "length rs = length ms" using HandleBatch_waves[OF assms b] by metis
  have same: "unsettled (ApplyFailure e) = isRetryable (ApplyFailure e) \<and> isRetryable (ApplyFailure e) = ae_retryable e"
    if "Some e \<in> set rs" for e
    using cls that by (auto simp: classified_def unsettled_def retryableProcessingError_def isRetryable_def ErrorDetails_def)
  have d: "delivered (<) uri hist ms ae_retryable rs w w'" by (rule HandleBatch_delivered[OF assms b])
  have "record_run (<) ms (positions uri ms k) isRetryable ((!) results) (hist w k) (hist w' k)" for k
  proof -
    have "record_run (<) ms (positions uri ms k) ae_retryable ((!) rs) (hist w k) (hist w' k)"
      using d by (simp add: delivered_def)
    then obtain xs where xs: "sorted_wrt (<) xs" "set xs \<subseteq> positions uri ms k" "hist w' k = hist w k @ map ((!) ms) xs"
      "\<forall>i \<in> positions uri ms k. rs ! i = None \<longrightarrow> i \<in> set xs"
      "\<forall>i \<in> positions uri ms k. \<forall>j \<in> positions uri ms k. i < j \<longrightarrow> (\<exists>e. rs ! i = Some e \<and> ae_retryable e) \<longrightarrow>
         j \<notin> set xs \<and> (\<exists>e. rs ! j = Some e \<and> ae_retryable e)"
      unfolding record_run_def by (elim exE conjE)
    have nth: "(\<exists>e. results ! i = Some e \<and> isRetryable e) = (\<exists>e. rs ! i = Some e \<and> ae_retryable e)"
        "(results ! i = None) = (rs ! i = None)" if "i \<in> positions uri ms k" for i
      using that same r len by (auto simp: positions_def) (metis nth_mem)+
    show ?thesis unfolding record_run_def using xs nth by (intro exI[of _ xs]) metis
  qed
  moreover have "unsettled e = isRetryable e" if "Some e \<in> set results" for e
    using that same r by (auto simp: map_option_case split: option.splits)
  ultimately show ?case using r len unfolding delivered_def by simp
qed

lemma NewWorker_attempts:
  assumes "NewWorker client opts = Inr kw"
  shows "0 < kw_maxRetryAttempts kw"
proof -
  have "\<not> opt_maxRetryAttempts opts < 0" "kw_maxRetryAttempts kw = or_default (opt_maxRetryAttempts opts) defaultMaxRetryAttempts"
    using assms unfolding NewWorker_def Let_def
    by (cases client; force split: if_split_asm)+
  then show ?thesis by (simp add: or_default_def defaultMaxRetryAttempts_def)
qed

lemma handleWithRetry_delivered:
  assumes "handler_contract uri hist (ke_handle env)" "waits_quiet env hist" "0 < kw_maxRetryAttempts kw"
    and "handleWithRetry kw env ms w = (results, w')"
  shows "delivered (\<le>) uri hist ms unsettled results w w'"
proof -
  have ms: "map ((!) ms) [0..<length ms] = ms" by (rule map_nth)
  have run: "retry_loop env (kw_maxRetryBackoff kw) (nat (kw_maxRetryAttempts kw)) (kw_retryBackoff kw) (replicate (length ms) None)
      (map ((!) ms) [0..<length ms]) [0..<length ms] w = (results, w')"
    using assms(4) unfolding handleWithRetry_def ms .
  have "retried uri hist ms [0..<length ms] (replicate (length ms) None) w results w'"
    by (rule retry_loop_retried[OF assms(1,2) run]) (use assms(3) in \<open>simp_all add: sorted_wrt_upt\<close>)
  moreover have "of_record uri ms [0..<length ms] k = positions uri ms k" for k
    by (auto simp: of_record_def positions_def)
  ultimately show ?thesis by (simp add: retried_def delivered_def)
qed

text \<open>
  C34: order under retries. The consumer hands a fetched batch to the processor and retries what
  failed in a retryable way, up to the configured number of attempts and until its context ends. All
  over these attempts the mutations of a record are applied in batch order, one perhaps several
  times in a row; each mutation has a result, one without error was applied, and after a mutation
  that stays unsettled no later one of its record was applied and all of them stay unsettled. The
  number of attempts is positive in every worker that \<open>NewWorker\<close> accepts.
\<close>

theorem retried_mutations_in_order:
  assumes "applier_contract uri ap hist" "ke_handle env = processor_handler uri ap" "waits_quiet env hist"
    and "NewWorker client opts = Inr kw" "handleWithRetry kw env ms w = (results, w')"
  shows "delivered (\<le>) uri hist ms unsettled results w w'"
  using handleWithRetry_delivered[OF _ assms(3) NewWorker_attempts[OF assms(4)] assms(5)]
    processor_contract[OF assms(1)] assms(2) by simp

definition demo_options :: WorkerOptions where
  "demo_options =
     \<lparr>opt_brokers = [''b''], opt_store = ''s'', opt_topic = ''t'', opt_groupID = ''g'', opt_deadLetterTopic = ''d'', opt_handler = True,
      opt_maxPollRecords = 0, opt_maxRetryAttempts = 2, opt_retryBackoff = 1, opt_maxRetryBackoff = 1, opt_processingTimeout = 0,
      opt_maxRecordBytes = 0, opt_shutdownTimeout = 0\<rparr>"

definition demo_worker :: KafkaWorker where
  "demo_worker =
     \<lparr>kw_store = ''s'', kw_deadLetterTopic = ''d'', kw_maxPollRecords = 500, kw_maxRetryAttempts = 2, kw_retryBackoff = 1,
      kw_maxRetryBackoff = 1, kw_processingTimeout = 20000000000, kw_shutdownTimeout = 5000000000\<rparr>"

lemma demo_worker_new: "NewWorker None demo_options = Inr demo_worker"
  by (simp add: NewWorker_def demo_options_def demo_worker_def or_default_def kafka_defaults Let_def)

definition retry_env :: "mutation list kafka_env" where
  "retry_env =
     \<lparr>ke_handle = processor_handler worker_uri demo_applier, ke_random = (\<lambda>n w. (0, w)), ke_wait = (\<lambda>n w. (None, w)),
      ke_produce = (\<lambda>rs w. (map (\<lambda>r. (r, None)) rs, w)), ke_commit = (\<lambda>rs w. (None, w)), ke_setOffsets = (\<lambda>m w. w),
      ke_text = (\<lambda>e. [])\<rparr>"

text \<open>The deletes of \<open>x\<close> stay unsettled after two attempts; the other records are complete.\<close>

theorem retried_mutations_in_order_witness:
  "map (map_option unsettled) (fst (handleWithRetry demo_worker retry_env demo_batch [])) = [None, Some True, None, Some True, None] \<and>
   snd (handleWithRetry demo_worker retry_env demo_batch []) = map demo_delete [''a'', ''b'', ''a''] \<and>
   delivered (\<le>) worker_uri demo_hist demo_batch unsettled (fst (handleWithRetry demo_worker retry_env demo_batch [])) []
     (snd (handleWithRetry demo_worker retry_env demo_batch []))"
proof (intro conjI)
  show "map (map_option unsettled) (fst (handleWithRetry demo_worker retry_env demo_batch [])) =
     [None, Some True, None, Some True, None]" by code_simp
  show "snd (handleWithRetry demo_worker retry_env demo_batch []) = map demo_delete [''a'', ''b'', ''a'']" by code_simp
  have "ke_handle retry_env = processor_handler worker_uri demo_applier" "waits_quiet retry_env demo_hist"
    by (simp_all add: retry_env_def waits_quiet_def)
  from retried_mutations_in_order[OF demo_applier_contract this demo_worker_new prod.collapse[symmetric]]
  show "delivered (\<le>) worker_uri demo_hist demo_batch unsettled (fst (handleWithRetry demo_worker retry_env demo_batch [])) []
     (snd (handleWithRetry demo_worker retry_env demo_batch []))" .
qed

section \<open>Resolved prefixes\<close>

definition of_partition :: "topicPartition \<Rightarrow> kgo_record list \<Rightarrow> kgo_record list" where
  "of_partition tp records = filter (\<lambda>r. partition_of r = tp) records"

definition outcomes_of :: "topicPartition \<Rightarrow> kgo_record list \<Rightarrow> queue_error option list \<Rightarrow> (kgo_record \<times> queue_error option) list" where
  "outcomes_of tp records results = filter (\<lambda>(r, _). partition_of r = tp) (zip records results)"

lemma of_partition_simps [simp]:
  "of_partition tp [] = []"
  "of_partition tp (r # rs) = (if partition_of r = tp then r # of_partition tp rs else of_partition tp rs)"
  by (simp_all add: of_partition_def)

lemma outcomes_of_simps [simp]:
  "outcomes_of tp [] results = []"
  "outcomes_of tp (r # rs) (e # es) = (if partition_of r = tp then (r, e) # outcomes_of tp rs es else outcomes_of tp rs es)"
  by (simp_all add: outcomes_of_def)

text \<open>The reference: split the outcomes of a partition at the first one that must be retried.\<close>

definition resolved_outcome :: "kgo_record \<times> queue_error option \<Rightarrow> bool" where
  "resolved_outcome outcome = (\<not> retryableProcessingError (snd outcome))"

lemma prefixes_loop_split:
  assumes "prefixes_loop blocked records results = (ready, resolved, retained)" "length results = length records"
  shows "length resolved = length ready \<and>
    outcomes_of tp ready resolved = (if tp \<in> blocked then [] else takeWhile resolved_outcome (outcomes_of tp records results)) \<and>
    of_partition tp retained =
      (if tp \<in> blocked then of_partition tp records else map fst (dropWhile resolved_outcome (outcomes_of tp records results)))"
  using assms
proof (induction records arbitrary: results blocked ready resolved retained)
  case Nil
  then show ?case by simp
next
  case (Cons r rs)
  obtain e es where e: "results = e # es" using Cons.prems(2) by (cases results) auto
  let ?b = "if retryableProcessingError e then insert (partition_of r) blocked else blocked"
  obtain x y z where t: "prefixes_loop ?b rs es = (x, y, z)" by (metis prod_cases3)
  have len: "length es = length rs" using Cons.prems(2) e by simp
  note ih = Cons.IH[OF t len]
  show ?case
  proof (cases "partition_of r \<in> ?b")
    case True
    then have out: "ready = x" "resolved = y" "retained = r # z" using Cons.prems(1) e t by (auto simp: Let_def)
    show ?thesis
    proof (cases "partition_of r = tp")
      case here: True
      have fst: "map fst (outcomes_of tp rs es) = of_partition tp rs"
        using len by (induction rs es rule: list_induct2') auto
      show ?thesis using ih True out here e fst by (auto simp: resolved_outcome_def split: if_splits)
    next
      case False
      then show ?thesis using ih out e by (auto split: if_splits)
    qed
  next
    case False
    then have out: "ready = r # x" "resolved = e # y" "retained = z" "\<not> retryableProcessingError e" "partition_of r \<notin> blocked"
      using Cons.prems(1) e t by (auto simp: Let_def split: if_splits)
    then show ?thesis using ih e by (auto simp: resolved_outcome_def)
  qed
qed

lemma rewind_offsets_keep:
  assumes "offsets tp = Some (epoch, first)" "\<forall>r \<in> set (of_partition tp records). first \<le> kr_offset r"
  shows "rewind_offsets records offsets tp = Some (epoch, first)"
  using assms
proof (induction records arbitrary: offsets)
  case (Cons r rs)
  let ?offsets = "case offsets (partition_of r) of
          None \<Rightarrow> offsets(partition_of r \<mapsto> (kr_leaderEpoch r, kr_offset r))
        | Some (_, previous) \<Rightarrow>
            if kr_offset r < previous then offsets(partition_of r \<mapsto> (kr_leaderEpoch r, kr_offset r)) else offsets"
  have "?offsets tp = Some (epoch, first)" using Cons.prems by (auto split: option.splits if_splits)
  from Cons.IH[of ?offsets, OF this] show ?case using Cons.prems(2) by (simp split: if_splits)
qed simp

lemma rewind_offsets_first:
  assumes "offsets tp = None" "sorted_wrt (\<lambda>r s. kr_offset r < kr_offset s) (of_partition tp records)"
  shows "rewind_offsets records offsets tp =
    (case of_partition tp records of [] \<Rightarrow> None | r # _ \<Rightarrow> Some (kr_leaderEpoch r, kr_offset r))"
  using assms
proof (induction records arbitrary: offsets)
  case (Cons r rs)
  show ?case
  proof (cases "partition_of r = tp")
    case True
    have "\<forall>s \<in> set (of_partition tp rs). kr_offset r \<le> kr_offset s"
      using Cons.prems(2) True by (auto intro: less_imp_le)
    from rewind_offsets_keep[OF _ this, where offsets = "offsets(tp \<mapsto> (kr_leaderEpoch r, kr_offset r))"] show ?thesis
      using Cons.prems(1) True by simp
  next
    case False
    let ?offsets = "case offsets (partition_of r) of
          None \<Rightarrow> offsets(partition_of r \<mapsto> (kr_leaderEpoch r, kr_offset r))
        | Some (_, previous) \<Rightarrow>
            if kr_offset r < previous then offsets(partition_of r \<mapsto> (kr_leaderEpoch r, kr_offset r)) else offsets"
    have "?offsets tp = None" using Cons.prems(1) False by (auto split: option.splits if_splits)
    from Cons.IH[of ?offsets, OF this] show ?thesis using Cons.prems(2) False by simp
  qed
qed simp

text \<open>
  C35: what a fetch commits and where the consumer continues. \<open>resolvedPrefixes\<close> equals its
  specification in every partition: the records to commit are those before the first one that must
  be retried, with their results, and the retained ones are the rest. When offsets ascend within a
  partition, \<open>rewind\<close> moves the partition to exactly the first retained record, and does not touch
  a partition that retained nothing.
\<close>

theorem resolved_prefix_committed:
  assumes "length results = length records" "resolvedPrefixes records results = (ready, resolved, retained)"
    and "sorted_wrt (\<lambda>r s. kr_offset r < kr_offset s) (of_partition tp records)"
  shows "outcomes_of tp ready resolved = takeWhile resolved_outcome (outcomes_of tp records results) \<and>
    of_partition tp retained = map fst (dropWhile resolved_outcome (outcomes_of tp records results)) \<and>
    rewind_offsets retained Map.empty tp =
      (case dropWhile resolved_outcome (outcomes_of tp records results) of
         [] \<Rightarrow> None | (r, _) # _ \<Rightarrow> Some (kr_leaderEpoch r, kr_offset r))"
proof -
  note split = prefixes_loop_split[OF assms(2)[unfolded resolvedPrefixes_def] assms(1), of tp, simplified]
  have "map fst (outcomes_of tp records results) = of_partition tp records"
    using assms(1) by (induction results records rule: list_induct2) auto
  then have "map fst (takeWhile resolved_outcome (outcomes_of tp records results)) @
      map fst (dropWhile resolved_outcome (outcomes_of tp records results)) = of_partition tp records"
    by (metis map_append takeWhile_dropWhile_id)
  then have "sorted_wrt (\<lambda>r s. kr_offset r < kr_offset s) (of_partition tp retained)"
    using assms(3) split by (metis sorted_wrt_append)
  note moved = rewind_offsets_first[OF _ this, of Map.empty, simplified]
  define rest where "rest = dropWhile resolved_outcome (outcomes_of tp records results)"
  have "of_partition tp retained = map fst rest" using split by (simp add: rest_def)
  then show ?thesis using moved split unfolding rest_def[symmetric] by (cases rest) auto
qed

definition demo_record :: "int \<Rightarrow> int \<Rightarrow> kgo_record" where
  "demo_record p n = \<lparr>kr_topic = ''t'', kr_partition = p, kr_offset = n, kr_leaderEpoch = 7, kr_key = [], kr_value = [], kr_headers = []\<rparr>"

text \<open>Partition 0 stops at its second record although the third is resolved; partition 1 is complete.\<close>

theorem resolved_prefix_committed_witness:
  "resolvedPrefixes [demo_record 0 5, demo_record 0 6, demo_record 1 9, demo_record 0 7]
       [None, Some (OtherFailure (ErrContext CtxDeadline)), Some (RouteFailure (demo_record 1 9) ''bad''), None] =
     ([demo_record 0 5, demo_record 1 9], [None, Some (RouteFailure (demo_record 1 9) ''bad'')], [demo_record 0 6, demo_record 0 7]) \<and>
   rewind_offsets [demo_record 0 6, demo_record 0 7] Map.empty (''t'', 0) = Some (7, 6)"
proof -
  let ?records = "[demo_record 0 5, demo_record 0 6, demo_record 1 9, demo_record 0 7]"
  let ?results = "[None, Some (OtherFailure (ErrContext CtxDeadline)), Some (RouteFailure (demo_record 1 9) ''bad''), None]"
  have ev: "resolvedPrefixes ?records ?results =
     ([demo_record 0 5, demo_record 1 9], [None, Some (RouteFailure (demo_record 1 9) ''bad'')], [demo_record 0 6, demo_record 0 7])"
    by code_simp
  have "sorted_wrt (\<lambda>r s. kr_offset r < kr_offset s) (of_partition (''t'', 0) ?records)"
    by (simp add: demo_record_def partition_of_def)
  from resolved_prefix_committed[OF _ ev this] have "rewind_offsets [demo_record 0 6, demo_record 0 7] Map.empty (''t'', 0) = Some (7, 6)"
    by (simp add: demo_record_def partition_of_def resolved_outcome_def retryableProcessingError_def)
  then show ?thesis using ev by simp
qed

end
