(* ===== verification/Kafka_Settlement.thy ===== *)
theory Kafka_Settlement
  imports Kafka_Worker
begin

text \<open>
  Safety of one round of the Kafka consumer: what \<open>handleFetches\<close> of
  \<open>src/internal/queue/kafka/worker.go\<close> commits was applied or quarantined, and what it does not
  commit it retains. The promises of the Kafka client are a predicate over the world.
\<close>

section \<open>Committed records are settled\<close>

text \<open>
  \<open>hist\<close> as before; \<open>dead\<close> are the records accepted by the dead-letter topic and \<open>committed\<close> is the
  consumer group's offset in each partition, the next one to read: a commit is cumulative, it settles
  every record of the partition below it. A produced record comes back with its topic, key, value and
  headers. A commit of records moves the offset of a partition to just after one of them or leaves it;
  when it succeeds, the offset is past all of them. The commit that fails may have moved any offset.
\<close>

type_synonym group_offsets = "topicPartition \<Rightarrow> int"

definition same_letter :: "kgo_record \<Rightarrow> kgo_record \<Rightarrow> bool" where
  "same_letter r s \<longleftrightarrow> kr_topic r = kr_topic s \<and> kr_key r = kr_key s \<and> kr_value r = kr_value s \<and> kr_headers r = kr_headers s"

definition below :: "group_offsets \<Rightarrow> kgo_record \<Rightarrow> bool" where
  "below offsets r \<longleftrightarrow> kr_offset r < offsets (partition_of r)"

definition offsets_moved :: "kgo_record list \<Rightarrow> group_offsets \<Rightarrow> group_offsets \<Rightarrow> bool" where
  "offsets_moved rs before after \<longleftrightarrow>
     (\<forall>tp. after tp = before tp \<or> (\<exists>r \<in> set rs. partition_of r = tp \<and> after tp = kr_offset r + 1))"

definition broker_contract ::
    "'w kafka_env \<Rightarrow> ('w \<Rightarrow> string \<Rightarrow> mutation list) \<Rightarrow> ('w \<Rightarrow> kgo_record set) \<Rightarrow> ('w \<Rightarrow> group_offsets) \<Rightarrow> bool" where
  "broker_contract env hist dead committed \<longleftrightarrow>
     (\<forall>rs w out w'. ke_produce env rs w = (out, w') \<longrightarrow>
        hist w' = hist w \<and> committed w' = committed w \<and> {r. (r, None) \<in> set out} \<subseteq> dead w' \<and>
        (\<forall>r \<in> set rs. \<exists>r' e. (r', e) \<in> set out \<and> same_letter r' r)) \<and>
     (\<forall>rs w e w'. ke_commit env rs w = (e, w') \<longrightarrow>
        hist w' = hist w \<and> dead w' = dead w \<and> offsets_moved rs (committed w) (committed w') \<and>
        (e = None \<longrightarrow> (\<forall>r \<in> set rs. below (committed w') r))) \<and>
     (\<forall>ms w results w'. ke_handle env ms w = (results, w') \<longrightarrow> committed w' = committed w) \<and>
     waits_quiet env hist \<and> waits_quiet env committed"

lemma broker_produce:
  assumes "broker_contract env hist dead committed" "ke_produce env rs w = (out, w')"
  shows "hist w' = hist w" "committed w' = committed w" "(r, None) \<in> set out \<Longrightarrow> r \<in> dead w'"
    "r \<in> set rs \<Longrightarrow> \<exists>r' e. (r', e) \<in> set out \<and> same_letter r' r"
proof -
  note c = assms(1)[unfolded broker_contract_def, THEN conjunct1, THEN spec, THEN spec, THEN spec, THEN spec, THEN mp, OF assms(2)]
  show "hist w' = hist w" "committed w' = committed w" "(r, None) \<in> set out \<Longrightarrow> r \<in> dead w'"
    "r \<in> set rs \<Longrightarrow> \<exists>r' e. (r', e) \<in> set out \<and> same_letter r' r"
    using c by auto
qed

lemma broker_commit:
  assumes "broker_contract env hist dead committed" "ke_commit env rs w = (e, w')"
  shows "hist w' = hist w" "dead w' = dead w" "offsets_moved rs (committed w) (committed w')"
    "e = None \<Longrightarrow> r \<in> set rs \<Longrightarrow> below (committed w') r"
  using assms(1)[unfolded broker_contract_def, THEN conjunct2, THEN conjunct1, THEN spec, THEN spec, THEN spec, THEN spec, THEN mp, OF assms(2)]
  by simp_all

definition applied_record ::
    "uri_parser \<Rightarrow> message_codec \<Rightarrow> ('w \<Rightarrow> string \<Rightarrow> mutation list) \<Rightarrow> 'w \<Rightarrow> kgo_record \<Rightarrow> bool" where
  "applied_record uri codec hist w r \<longleftrightarrow>
     (\<exists>m k. UnmarshalMutation codec (kr_value r) = Inr m \<and> MutationKey uri m = Inr k \<and> m \<in> set (hist w k))"

definition quarantined :: "('w \<Rightarrow> kgo_record set) \<Rightarrow> 'w \<Rightarrow> kgo_record \<Rightarrow> bool" where
  "quarantined dead w r \<longleftrightarrow>
     (\<exists>d \<in> dead w. kr_key d = kr_key r \<and> kr_value d = kr_value r \<and>
        {(''sink-source-topic'', kr_topic r), (''sink-source-partition'', int_text (kr_partition r)),
         (''sink-source-offset'', int_text (kr_offset r))} \<subseteq> set (kr_headers d))"

lemma prefixes_loop_sets:
  assumes "prefixes_loop blocked records results = (ready, resolved, retained)" "length results = length records"
  shows "set (zip ready resolved) \<subseteq> set (zip records results) \<and> length resolved = length ready \<and>
    set ready \<union> set retained = set records"
  using assms
proof (induction records arbitrary: results blocked ready resolved retained)
  case (Cons r rs)
  obtain e es where e: "results = e # es" using Cons.prems(2) by (cases results) auto
  let ?b = "if retryableProcessingError e then insert (partition_of r) blocked else blocked"
  obtain x y z where t: "prefixes_loop ?b rs es = (x, y, z)" by (metis prod_cases3)
  have len: "length es = length rs" using Cons.prems(2) e by simp
  have "(ready, resolved, retained) = (if partition_of r \<in> ?b then (x, y, r # z) else (r # x, e # y, z))"
    using Cons.prems(1) e t by (auto simp: Let_def)
  then show ?case using Cons.IH[OF t len] e by (auto split: if_splits)
qed simp

text \<open>A record that decodes for this store has its mutation in the batch, under its own index.\<close>

lemma decode_Cons:
  assumes "decode_records kw codec uri n (r # rs) = (finals, ms, indexes)"
    and "decode_records kw codec uri (Suc n) rs = (f, m, x)"
  obtains (bad) e where "finals = Some e # f" "ms = m" "indexes = x"
  | (good) g k where "finals = None # f" "ms = g # m" "indexes = n # x"
      "UnmarshalMutation codec (kr_value r) = Inr g" "MutationKey uri g = Inr k"
  using assms by (auto simp: MutationStore_def MutationKey_def split: sum.splits if_splits)

lemma decode_indexes:
  assumes "decode_records kw codec uri n records = (finals, ms, indexes)"
  shows "length finals = length records \<and> length indexes = length ms \<and> distinct indexes \<and>
    (\<forall>i \<in> set indexes. \<exists>j < length records. i = n + j \<and> finals ! j = None)"
  using assms
proof (induction records arbitrary: n finals ms indexes)
  case (Cons r rs)
  obtain f m x where t: "decode_records kw codec uri (Suc n) rs = (f, m, x)" by (metis prod_cases3)
  note ih = Cons.IH[OF t]
  have tail: "\<exists>j < length (r # rs). i = n + j \<and> (e # f) ! j = None" if i: "i \<in> set x" for i e
  proof -
    obtain j where "j < length rs" "i = Suc n + j" "f ! j = None" using ih i by blast
    then show ?thesis by (intro exI[of _ "Suc j"]) simp
  qed
  from Cons.prems t show ?case
  proof (cases rule: decode_Cons)
    case (bad e)
    then show ?thesis using ih tail by auto
  next
    case (good g k)
    have "n \<notin> set x" using ih by auto
    moreover have "\<forall>i \<in> set (n # x). \<exists>j < length (r # rs). i = n + j \<and> (None # f) ! j = None"
      using tail by (auto intro!: exI[of _ 0])
    ultimately show ?thesis using ih good by simp
  qed
qed simp

lemma decode_none:
  assumes "decode_records kw codec uri n records = (finals, ms, indexes)" "i < length records" "finals ! i = None"
  shows "\<exists>j k. j < length ms \<and> indexes ! j = n + i \<and> UnmarshalMutation codec (kr_value (records ! i)) = Inr (ms ! j) \<and>
    MutationKey uri (ms ! j) = Inr k"
  using assms
proof (induction records arbitrary: n finals ms indexes i)
  case (Cons r rs)
  obtain f m x where t: "decode_records kw codec uri (Suc n) rs = (f, m, x)" by (metis prod_cases3)
  from Cons.prems(1) t show ?case
  proof (cases rule: decode_Cons)
    case (bad e)
    then obtain i' where "i = Suc i'" using Cons.prems(3) by (cases i) auto
    then show ?thesis using Cons.IH[OF t, of i'] Cons.prems(2,3) bad by simp
  next
    case (good g k)
    show ?thesis
    proof (cases i)
      case 0
      then show ?thesis using good by (intro exI[of _ 0] exI[of _ k]) simp
    next
      case (Suc i')
      then obtain j k where "j < length m" "x ! j = Suc n + i'" "UnmarshalMutation codec (kr_value (rs ! i')) = Inr (m ! j)"
          "MutationKey uri (m ! j) = Inr k"
        using Cons.IH[OF t, of i'] Cons.prems(2,3) good(1) by auto
      then show ?thesis using good Suc by (intro exI[of _ "Suc j"] exI[of _ k]) simp
    qed
  qed
qed simp

lemma store_results_other: "i \<notin> set indexes \<Longrightarrow> store_results indexes results finals ! i = finals ! i"
  and store_results_length: "length (store_results indexes results finals) = length finals"
  by (induction indexes results finals rule: store_results.induct) auto

lemma store_results_nth:
  assumes "j < length indexes" "length results = length indexes" "distinct indexes" "\<forall>i \<in> set indexes. i < length finals"
  shows "store_results indexes results finals ! (indexes ! j) = results ! j"
  using assms
proof (induction indexes results finals arbitrary: j rule: store_results.induct)
  case (1 i indexes r results finals)
  show ?case
  proof (cases j)
    case 0
    then show ?thesis using 1 store_results_other[of i indexes results "finals[i := r]"] by simp
  next
    case (Suc j')
    then show ?thesis using 1 by simp
  qed
qed auto



lemma retry_loop_frame:
  assumes "\<And>ms w results w'. ke_handle env ms w = (results, w') \<Longrightarrow> view w' = view w" "waits_quiet env view"
    and "retry_loop env mb n backoff finals batch pending w = (finals', w')"
  shows "view w' = view w"
  using assms(3)
proof (induction n arbitrary: backoff finals batch pending w)
  case (Suc n)
  obtain results w1 where h: "ke_handle env batch w = (results, w1)" by fastforce
  obtain f b p where c: "compact (n = 0) results batch pending finals = (f, b, p)" by (metis prod_cases3)
  obtain d w2 where d: "jitteredBackoff env backoff w1 = (d, w2)" by fastforce
  obtain x w3 where x: "ke_wait env d w2 = (x, w3)" by fastforce
  have v: "view w1 = view w" "view w2 = view w1" "view w3 = view w2"
    using assms(1)[OF h] jitter_quiet[OF assms(2) d] assms(2) x unfolding waits_quiet_def by metis+
  show ?case
    using Suc.prems Suc.IH[of "min (backoff * 2) mb" f b p w3] h c d x v
    by (auto split: if_splits option.splits)
qed simp

text \<open>A fetched record without a final error was applied.\<close>

lemma finals_applied:
  assumes "delivered (\<le>) uri hist ms unsettled results w w1"
    and "decode_records kw codec uri 0 records = (finals, ms, indexes)"
    and "i < length records" "store_results indexes results finals ! i = None"
  shows "applied_record uri codec hist w1 (records ! i)"
proof -
  note d = decode_indexes[OF assms(2)]
  have len: "length results = length ms" using assms(1) by (simp add: delivered_def)
  have range: "\<forall>i \<in> set indexes. i < length finals" using d by auto
  have "finals ! i = None"
    using assms(4) d store_results_other[of i indexes results finals] by (cases "i \<in> set indexes") auto
  then obtain j k where j: "j < length ms" "indexes ! j = i" "UnmarshalMutation codec (kr_value (records ! i)) = Inr (ms ! j)"
      "MutationKey uri (ms ! j) = Inr k" using decode_none[OF assms(2,3)] by auto
  have "results ! j = None" using store_results_nth[of j indexes results finals] assms(4) j d len range by simp
  moreover have "record_run (\<le>) ms (positions uri ms k) unsettled ((!) results) (hist w k) (hist w1 k)"
    using assms(1) by (simp add: delivered_def)
  ultimately obtain xs where "hist w1 k = hist w k @ map ((!) ms) xs" "j \<in> set xs"
    using j unfolding record_run_def positions_def by auto
  then have "ms ! j \<in> set (hist w1 k)" by simp
  then show ?thesis using j unfolding applied_record_def by blast
qed

lemma dead_letters_member:
  "(r, Some e) \<in> set (zip rs es) \<Longrightarrow> dead_letter kw render r e \<in> set (dead_letters kw render rs es)"
  by (induction kw render rs es rule: dead_letters.induct) auto

lemma publishDeadLetters_ok:
  assumes "broker_contract env hist dead committed" "publishDeadLetters kw env ready resolved w = ([], w')"
  shows "hist w' = hist w" "committed w' = committed w"
    "(r, Some e) \<in> set (zip ready resolved) \<Longrightarrow> quarantined dead w' r"
proof -
  let ?letters = "dead_letters kw (ke_text env) ready resolved"
  obtain out w1 where p: "ke_produce env ?letters w = (out, w1)" by fastforce
  note b = broker_produce[OF assms(1) p]
  show "hist w' = hist w" "committed w' = committed w"
    using assms(2) p b(1,2) by (auto simp: publishDeadLetters_def Let_def split: if_splits)
  assume r: "(r, Some e) \<in> set (zip ready resolved)"
  let ?letter = "dead_letter kw (ke_text env) r e"
  have mem: "?letter \<in> set ?letters" using dead_letters_member[OF r] .
  then have "?letters \<noteq> []" by auto
  then have out: "List.map_filter snd out = []" "w' = w1"
    using assms(2) p by (auto simp: publishDeadLetters_def Let_def)
  obtain r' x where x: "(r', x) \<in> set out" "same_letter r' ?letter" using b(4)[OF mem] by blast
  have "x = None" using out(1) x(1) by (auto simp: List.map_filter_def filter_empty_conv)
  then have "r' \<in> dead w'" using x(1) b(3) out(2) by simp
  then show "quarantined dead w' r" using x(2) unfolding quarantined_def same_letter_def dead_letter_def by auto
qed

lemma publishDeadLetters_frame:
  assumes "broker_contract env hist dead committed" "publishDeadLetters kw env ready resolved w = (es, w')"
  shows "committed w' = committed w"
proof -
  obtain out w1 where p: "ke_produce env (dead_letters kw (ke_text env) ready resolved) w = (out, w1)" by fastforce
  show ?thesis using assms(2) p broker_produce(2)[OF assms(1) p] by (auto simp: publishDeadLetters_def Let_def split: if_splits)
qed

text \<open>
  The records that are ready to be committed are a prefix of each partition, so the offset after one of
  them is past no record that is not ready.
\<close>

definition ascending :: "kgo_record list \<Rightarrow> bool" where
  "ascending records \<longleftrightarrow> (\<forall>tp. sorted_wrt (\<lambda>r s. kr_offset r < kr_offset s) (of_partition tp records))"

lemma outcomes_of_fst: "length results = length records \<Longrightarrow> map fst (outcomes_of tp records results) = of_partition tp records"
  by (induction results records rule: list_induct2) auto

lemma ready_prefix:
  assumes "resolvedPrefixes records finals = (ready, resolved, kept)" "length finals = length records" "ascending records"
    and "s \<in> set ready" "r \<in> set records" "partition_of r = partition_of s" "kr_offset r \<le> kr_offset s"
  shows "r \<in> set ready"
proof (rule ccontr)
  assume "r \<notin> set ready"
  let ?tp = "partition_of s"
  let ?outcomes = "outcomes_of ?tp records finals"
  note split = prefixes_loop_split[OF assms(1)[unfolded resolvedPrefixes_def] assms(2), of ?tp, simplified]
  have ready: "of_partition ?tp ready = map fst (takeWhile resolved_outcome ?outcomes)"
    using outcomes_of_fst[of resolved ready ?tp] split by simp
  have parts: "of_partition ?tp records = of_partition ?tp ready @ map fst (dropWhile resolved_outcome ?outcomes)"
    unfolding ready outcomes_of_fst[OF assms(2), of ?tp, symmetric] map_append[symmetric] takeWhile_dropWhile_id ..
  have "s \<in> set (of_partition ?tp ready)" "r \<in> set (of_partition ?tp records)" "r \<notin> set (of_partition ?tp ready)"
    using assms(4,5,6) \<open>r \<notin> set ready\<close> by (simp_all add: of_partition_def)
  then have "kr_offset s < kr_offset r"
    using assms(3)[unfolded ascending_def, rule_format, of ?tp] unfolding parts by (auto simp: sorted_wrt_append)
  then show False using assms(7) by simp
qed

definition round_safe ::
    "uri_parser \<Rightarrow> message_codec \<Rightarrow> ('w \<Rightarrow> string \<Rightarrow> mutation list) \<Rightarrow> ('w \<Rightarrow> kgo_record set) \<Rightarrow> group_offsets \<Rightarrow> group_offsets
     \<Rightarrow> kgo_record list \<Rightarrow> kgo_record list \<Rightarrow> fetch_error option \<Rightarrow> 'w \<Rightarrow> bool" where
  "round_safe uri codec hist dead before after records retained e w' \<longleftrightarrow>
     (\<forall>r \<in> set records. \<not> below before r \<and> below after r \<longrightarrow> applied_record uri codec hist w' r \<or> quarantined dead w' r) \<and>
     (\<forall>r \<in> set records. below after r \<or> r \<in> set retained) \<and>
     offsets_moved records before after \<and> (retained \<noteq> [] \<longrightarrow> e \<noteq> None)"

lemma round_safe_unmoved:
  "set records \<subseteq> set retained \<Longrightarrow> (retained \<noteq> [] \<longrightarrow> e \<noteq> None) \<Longrightarrow> round_safe uri codec hist dead offsets offsets records retained e w'"
  by (auto simp: round_safe_def offsets_moved_def)

lemma ready_settled:
  assumes "broker_contract env hist dead committed" "publishDeadLetters kw env ready resolved w = ([], w1)"
    and "ke_commit env ready w1 = (c, w2)" "set (zip ready resolved) \<subseteq> set (zip records finals)" "length resolved = length ready"
    and "\<And>i. i < length records \<Longrightarrow> finals ! i = None \<Longrightarrow> applied_record uri codec hist w (records ! i)"
    and "r \<in> set ready"
  shows "applied_record uri codec hist w2 r \<or> quarantined dead w2 r"
proof -
  note ok = publishDeadLetters_ok[OF assms(1,2)] and com = broker_commit[OF assms(1,3)]
  obtain x where x: "(r, x) \<in> set (zip ready resolved)" using assms(5,7) by (metis in_set_impl_in_set_zip1)
  then have "(r, x) \<in> set (zip records finals)" using assms(4) by blast
  then obtain i where i: "i < length records" "records ! i = r" "finals ! i = x" by (auto simp: in_set_zip)
  show ?thesis
  proof (cases x)
    case None
    then show ?thesis using assms(6)[OF i(1)] i com(1) ok(1) by (simp add: applied_record_def)
  next
    case (Some q)
    then show ?thesis using ok(3) x com(2) by (simp add: quarantined_def)
  qed
qed

lemma settle_safe:
  assumes "broker_contract env hist dead committed" "settle kw env records finals w = ((retained, e), w')"
    and len: "length finals = length records" and asc: "ascending records"
    and applied: "\<And>i. i < length records \<Longrightarrow> finals ! i = None \<Longrightarrow> applied_record uri codec hist w (records ! i)"
  shows "round_safe uri codec hist dead (committed w) (committed w') records retained e w'"
proof -
  obtain ready resolved kept where p: "resolvedPrefixes records finals = (ready, resolved, kept)" by (metis prod_cases3)
  note sets = prefixes_loop_sets[OF p[unfolded resolvedPrefixes_def] len]
  show ?thesis
  proof (cases "ready = []")
    case True
    then have "w' = w" "retained = kept" "e = (if kept = [] then None else Some Unresolved)"
      using assms(2) p by (auto simp: settle_def split: if_splits)
    then show ?thesis using sets True by (auto intro: round_safe_unmoved)
  next
    case False
    obtain es w1 where d: "publishDeadLetters kw env ready resolved w = (es, w1)" by fastforce
    note frame = publishDeadLetters_frame[OF assms(1) d]
    show ?thesis
    proof (cases es)
      case (Cons x xs)
      then have "w' = w1" "retained = records" "e \<noteq> None" using assms(2) p False d by (auto simp: settle_def)
      then show ?thesis using frame by (simp add: round_safe_unmoved)
    next
      case Nil
      obtain c w2 where c: "ke_commit env ready w1 = (c, w2)" by fastforce
      note com = broker_commit[OF assms(1) c]
      have out: "w' = w2" "(retained, e) = (case c of Some x \<Rightarrow> (records, Some (CommitFailed x))
            | None \<Rightarrow> if kept \<noteq> [] then (kept, Some Unresolved) else ([], None))"
        using assms(2) p False d Nil c by (auto simp: settle_def split: option.splits if_splits)
      have moved: "offsets_moved ready (committed w) (committed w2)" using com(3) frame by simp
      have "r \<in> set ready" if r: "r \<in> set records" "\<not> below (committed w) r" "below (committed w2) r" for r
      proof -
        obtain s where "s \<in> set ready" "partition_of s = partition_of r" "committed w2 (partition_of r) = kr_offset s + 1"
          using moved r(2,3) unfolding offsets_moved_def below_def by metis
        then show ?thesis using ready_prefix[OF p len asc] r(1,3) by (simp add: below_def)
      qed
      then have "\<forall>r \<in> set records. \<not> below (committed w) r \<and> below (committed w2) r \<longrightarrow> applied_record uri codec hist w2 r \<or> quarantined dead w2 r"
        using ready_settled[OF assms(1) d[unfolded Nil] c _ _ applied] sets by blast
      moreover have "offsets_moved records (committed w) (committed w2)" using moved sets unfolding offsets_moved_def by blast
      moreover have "\<forall>r \<in> set records. below (committed w2) r \<or> r \<in> set retained" "retained \<noteq> [] \<longrightarrow> e \<noteq> None"
        using out(2) com(4) sets by (auto split: option.splits if_splits)
      ultimately show ?thesis using out(1) by (simp add: round_safe_def)
    qed
  qed
qed

lemma handleFetches_safe:
  assumes "applier_contract uri ap hist" "ke_handle env = processor_handler uri ap" "broker_contract env hist dead committed"
    and "NewWorker client opts = Inr kw" "handleFetches kw env codec uri False records w = ((retained, e), w')" "ascending records"
  shows "round_safe uri codec hist dead (committed w) (committed w') records retained e w'"
proof (cases "records = []")
  case True
  then show ?thesis using assms(5) by (auto simp: handleFetches_def intro: round_safe_unmoved)
next
  case False
  have quiet: "waits_quiet env hist" "waits_quiet env committed"
    and handle: "\<And>ms w results w'. ke_handle env ms w = (results, w') \<Longrightarrow> committed w' = committed w"
    using assms(3) unfolding broker_contract_def by blast+
  obtain finals ms indexes where d: "decode_records kw codec uri 0 records = (finals, ms, indexes)" by (metis prod_cases3)
  obtain results w1 where h: "handleWithRetry kw env ms w = (results, w1)" by fastforce
  have del: "delivered (\<le>) uri hist ms unsettled results w w1"
    using handleWithRetry_delivered[OF _ quiet(1) NewWorker_attempts[OF assms(4)] h] processor_contract[OF assms(1)] assms(2) by simp
  have same: "committed w1 = committed w"
    by (rule retry_loop_frame[OF handle quiet(2) h[unfolded handleWithRetry_def]])
  have len: "length finals = length records" "length indexes = length ms" using decode_indexes[OF d] by simp_all
  show ?thesis
  proof (cases "ms = []")
    case True
    have "settle kw env records finals w = ((retained, e), w')"
      using assms(5) False d True by (simp add: handleFetches_def)
    moreover have "finals ! i \<noteq> None" if "i < length records" for i
      using decode_none[OF d that] True by auto
    ultimately show ?thesis using settle_safe[OF assms(3) _ len(1) assms(6)] by blast
  next
    case some: False
    have "settle kw env records (store_results indexes results finals) w1 = ((retained, e), w')"
      using assms(5) False d some h by (simp add: handleFetches_def)
    from settle_safe[OF assms(3) this _ assms(6), of uri codec] finals_applied[OF del d] show ?thesis
      using same len(1) by (simp add: store_results_length)
  qed
qed

text \<open>
  C32: no queued mutation is lost. Whatever a fetch holds, however the applier, the dead-letter
  topic and the commit answer, and whenever the context ends: the group's offset of a partition stays or
  moves to just after a record of the fetch. Every record of the fetch that it moves past was applied,
  or its key, value and source position were accepted by the dead-letter topic. Every record of the fetch
  is below the group's offset or retained, and a round that retains anything ends in an error, so that
  \<open>Run\<close> rewinds the consumer to it. The records of a partition come in ascending offsets.
\<close>

theorem committed_records_settled:
  assumes "applier_contract uri ap hist" "ke_handle env = processor_handler uri ap" "broker_contract env hist dead committed"
    and "NewWorker client opts = Inr kw" "handleFetches kw env codec uri False records w = ((retained, e), w')"
    and "\<And>tp. sorted_wrt (\<lambda>r s. kr_offset r < kr_offset s) (of_partition tp records)"
  shows "(\<forall>tp. committed w' tp = committed w tp \<or> (\<exists>r \<in> set records. partition_of r = tp \<and> committed w' tp = kr_offset r + 1)) \<and>
    (\<forall>r \<in> set records. committed w (partition_of r) \<le> kr_offset r \<and> kr_offset r < committed w' (partition_of r) \<longrightarrow>
       applied_record uri codec hist w' r \<or> quarantined dead w' r) \<and>
    (\<forall>r \<in> set records. kr_offset r < committed w' (partition_of r) \<or> r \<in> set retained) \<and>
    (retained \<noteq> [] \<longrightarrow> e \<noteq> None)"
proof -
  have "ascending records" using assms(6) by (simp add: ascending_def)
  from handleFetches_safe[OF assms(1-5) this] show ?thesis
    unfolding round_safe_def offsets_moved_def below_def not_less by blast
qed

section \<open>A fetch with an applied, a broken and an unavailable record\<close>

record fetch_world =
  fw_log :: "mutation list"
  fw_dead :: "kgo_record list"
  fw_committed :: group_offsets

text \<open>The client commits the offset after the highest one of each partition.\<close>

definition commit_offsets :: "kgo_record list \<Rightarrow> group_offsets \<Rightarrow> group_offsets" where
  "commit_offsets rs offsets =
     (\<lambda>tp. case of_partition tp rs of [] \<Rightarrow> offsets tp | s # ss \<Rightarrow> fold max (map kr_offset ss) (kr_offset s) + 1)"

lemma commit_offsets_moved:
  "offsets_moved rs offsets (commit_offsets rs offsets)" "r \<in> set rs \<Longrightarrow> below (commit_offsets rs offsets) r"
proof -
  have part: "of_partition tp rs = s # ss \<Longrightarrow> commit_offsets rs offsets tp = Max (kr_offset ` set (of_partition tp rs)) + 1" for tp s ss
    using Max.set_eq_fold[of "kr_offset s" "map kr_offset ss"] by (simp add: commit_offsets_def)
  show "offsets_moved rs offsets (commit_offsets rs offsets)"
    unfolding offsets_moved_def
  proof
    fix tp
    show "commit_offsets rs offsets tp = offsets tp \<or> (\<exists>r \<in> set rs. partition_of r = tp \<and> commit_offsets rs offsets tp = kr_offset r + 1)"
    proof (cases "of_partition tp rs")
      case Nil
      then show ?thesis by (simp add: commit_offsets_def)
    next
      case (Cons s ss)
      then have "Max (kr_offset ` set (of_partition tp rs)) \<in> kr_offset ` set (of_partition tp rs)" by (intro Max_in) simp_all
      then show ?thesis using part[OF Cons] by (auto simp: of_partition_def)
    qed
  qed
  assume "r \<in> set rs"
  then have r: "r \<in> set (of_partition (partition_of r) rs)" by (simp add: of_partition_def)
  then obtain s ss where "of_partition (partition_of r) rs = s # ss" by (cases "of_partition (partition_of r) rs") auto
  from part[OF this] show "below (commit_offsets rs offsets) r" using r by (simp add: below_def less_add_one Max_ge le_less_trans)
qed

definition fetch_applier :: "fetch_world applier" where
  "fetch_applier =
     \<lparr>ap_write = (\<lambda>req w. (Inl exhausted, w)),
      ap_delete = (\<lambda>req w. case demo_apply req (fw_log w) of (r, l) \<Rightarrow> (r, w\<lparr>fw_log := l\<rparr>)),
      ap_ctxErr = (\<lambda>w. (None, w)), ap_code = demo_code\<rparr>"

definition fetch_env :: "fetch_world kafka_env" where
  "fetch_env =
     \<lparr>ke_handle = processor_handler worker_uri fetch_applier, ke_random = (\<lambda>n w. (0, w)), ke_wait = (\<lambda>n w. (None, w)),
      ke_produce = (\<lambda>rs w. (map (\<lambda>r. (r, None)) rs, w\<lparr>fw_dead := fw_dead w @ rs\<rparr>)),
      ke_commit = (\<lambda>rs w. (None, w\<lparr>fw_committed := commit_offsets rs (fw_committed w)\<rparr>)), ke_setOffsets = (\<lambda>m w. w),
      ke_text = (\<lambda>e. ''failed'')\<rparr>"

lemma fetch_applier_contract: "applier_contract worker_uri fetch_applier (demo_hist \<circ> fw_log)"
proof -
  have lift: "request_effect worker_uri (demo_hist \<circ> fw_log) w w' ms reported = request_effect worker_uri demo_hist (fw_log w) (fw_log w') ms reported"
    for w w' ms reported by (simp add: request_effect_def)
  have "request_effect worker_uri (demo_hist \<circ> fw_log) w w' (map delete_mutation (dr_operations req))
          (\<lambda>i. case r of Inl _ \<Rightarrow> False | Inr rs \<Rightarrow> i < length rs \<and> dres_status (rs ! i) = DS_APPLIED) \<and>
        (case r of Inl e \<Rightarrow> ap_code fetch_applier e = ResourceExhausted \<longrightarrow> (demo_hist \<circ> fw_log) w' = (demo_hist \<circ> fw_log) w | Inr _ \<Rightarrow> True)"
    if d: "ap_delete fetch_applier req w = (r, w')" for req w r w'
    unfolding lift using d
    by (auto simp: fetch_applier_def demo_apply_def request_effect_def demo_hist_def split: list.splits if_splits)
  moreover have "request_effect worker_uri (demo_hist \<circ> fw_log) w w ms (\<lambda>i. False)" for w ms
    by (simp add: request_effect_def)
  moreover have "ap_write fetch_applier req w = (Inl exhausted, w)" "ap_ctxErr fetch_applier w = (None, w)" for req w
    by (simp_all add: fetch_applier_def)
  ultimately show ?thesis unfolding applier_contract_def by auto
qed

text \<open>The processor changes the world only through its applier.\<close>

definition applier_quiet :: "'w applier \<Rightarrow> ('w \<Rightarrow> 'v) \<Rightarrow> bool" where
  "applier_quiet ap view \<longleftrightarrow>
     (\<forall>req w. view (snd (ap_write ap req w)) = view w) \<and> (\<forall>req w. view (snd (ap_delete ap req w)) = view w) \<and>
     (\<forall>w. view (snd (ap_ctxErr ap w)) = view w)"

lemma settle_results_quiet:
  assumes "applier_quiet ap view"
  shows "view (snd (settle_results ap label ops answers rs w)) = view w"
proof (induction ops arbitrary: answers rs w)
  case (Cons op ops)
  obtain c w1 where c: "ap_ctxErr ap w = (c, w1)" by fastforce
  then have ctx: "view w1 = view w" using assms unfolding applier_quiet_def by (metis snd_conv)
  show ?case
  proof (cases answers)
    case (Cons a answers')
    then show ?thesis using Cons.IH c ctx by (cases a) (simp add: Let_def)
  qed simp
qed simp

lemma may_split_view:
  assumes "applier_quiet ap view"
  shows "view (snd (may_split ap e ops w)) = view w"
  using assms by (auto simp: may_split_def applier_quiet_def split: prod.split) (metis snd_conv)

lemma apply_operations_quiet:
  assumes "applier_quiet ap view" "\<And>ops w. view (snd (send ops w)) = view w"
  shows "view (snd (apply_operations ap send noun ops rs w)) = view w"
proof (induction "length ops" arbitrary: ops rs w rule: less_induct)
  case less
  obtain r w1 where sent: "send ops w = (r, w1)" by fastforce
  have w1: "view w1 = view w" using assms(2)[of ops w] sent by simp
  show ?case
  proof (cases r)
    case (Inl e)
    obtain b w2 where s: "may_split ap e ops w1 = (b, w2)" by fastforce
    have w2: "view w2 = view w" using may_split_view[OF assms(1), of e ops w1] s w1 by simp
    show ?thesis
    proof (cases b)
      case True
      let ?m = "length ops div 2"
      have m: "0 < ?m" "?m < length ops" using may_split_length[of ap e ops w1 w2] s True by simp_all
      obtain rs1 w3 where l: "apply_operations ap send noun (take ?m ops) rs w2 = (rs1, w3)" by fastforce
      have "view w3 = view w" using less.hyps[of "take ?m ops" rs w2] l m w2 by simp
      moreover have "view (snd (apply_operations ap send noun (drop ?m ops) rs1 w3)) = view w3"
        using less.hyps[of "drop ?m ops" rs1 w3] m by simp
      ultimately show ?thesis
        using sent Inl s True l w1 by (subst apply_operations.simps) (simp add: Let_def)
    next
      case False
      then show ?thesis using sent Inl s w1 w2 by (subst apply_operations.simps) simp
    qed
  next
    case (Inr answers)
    then show ?thesis
      using sent w1 settle_results_quiet[OF assms(1)] by (subst apply_operations.simps) simp
  qed
qed

lemma run_waves_quiet:
  assumes "applier_quiet ap view"
  shows "view (snd (run_waves ap waves blocked rs w)) = view w"
proof (induction waves arbitrary: blocked rs w)
  case (Cons wave waves)
  have send: "view (snd (send_writes ap ops w)) = view w" "view (snd (send_deletes ap ops w)) = view w" for ops w
    using assms by (auto simp: send_writes_def send_deletes_def applier_quiet_def split: prod.split sum.split) (metis snd_conv)+
  obtain rs1 writes deletes where s: "split_wave blocked wave rs = (rs1, writes, deletes)" by (metis prod_cases3)
  obtain rs2 w1 where ws: "applyWrites ap writes rs1 w = (rs2, w1)" by fastforce
  obtain rs3 w2 where ds: "applyDeletes ap deletes rs2 w1 = (rs3, w2)" by fastforce
  have "view w1 = view w" "view w2 = view w1"
    using apply_operations_quiet[of ap view "send_writes ap" "''write''" writes rs1 w]
      apply_operations_quiet[of ap view "send_deletes ap" "''delete''" deletes rs2 w1] assms send ws ds
    by (simp_all only: applyWrites_def applyDeletes_def snd_conv)
  then show ?case using Cons.IH s ws ds by simp
qed simp

lemma processor_quiet:
  assumes "applier_quiet ap view" "processor_handler uri ap ms w = (results, w')"
  shows "view w' = view w"
proof -
  obtain rs ps where p: "prepare uri 0 ms = (rs, ps)" by fastforce
  obtain rs' where "run_waves ap (buildMutationWaves ps) Map.empty rs w = (rs', w')"
    using assms(2) p by (cases "run_waves ap (buildMutationWaves ps) Map.empty rs w") (simp add: processor_handler_def HandleBatch_def)
  then show ?thesis using run_waves_quiet[OF assms(1), of "buildMutationWaves ps" Map.empty rs w] by simp
qed

lemma fetch_broker_contract: "broker_contract fetch_env (demo_hist \<circ> fw_log) (set \<circ> fw_dead) fw_committed"
proof -
  have "applier_quiet fetch_applier fw_committed"
    by (simp add: applier_quiet_def fetch_applier_def split: prod.split)
  from processor_quiet[OF this] show ?thesis
    unfolding broker_contract_def by (auto simp: fetch_env_def waits_quiet_def same_letter_def commit_offsets_moved)
qed

definition fetched :: "int \<Rightarrow> bytes \<Rightarrow> kgo_record" where
  "fetched n v = \<lparr>kr_topic = ''t'', kr_partition = 0, kr_offset = n, kr_leaderEpoch = 0, kr_key = [], kr_value = v, kr_headers = []\<rparr>"

definition delete_envelope :: "byte \<Rightarrow> bytes" where
  "delete_envelope c = [83, 78, 75, 81, 2, 2, c]"

text \<open>The delete of \<open>a\<close> and the truncated record are committed, the delete of \<open>x\<close> and what follows it is not.\<close>

definition demo_fetch :: "kgo_record list" where
  "demo_fetch = [fetched 0 (delete_envelope 97), fetched 1 [], fetched 2 (delete_envelope 120), fetched 3 (delete_envelope 98)]"

definition demo_outcome :: "(kgo_record list \<times> fetch_error option) \<times> fetch_world" where
  "demo_outcome = handleFetches demo_worker fetch_env demo_codec worker_uri False demo_fetch \<lparr>fw_log = [], fw_dead = [], fw_committed = (\<lambda>_. 0)\<rparr>"

theorem committed_records_settled_witness:
  "fst demo_outcome = (drop 2 demo_fetch, Some Unresolved) \<and> fw_committed (snd demo_outcome) (''t'', 0) = 2 \<and>
   fw_log (snd demo_outcome) = map demo_delete [''a'', ''b''] \<and> map kr_value (fw_dead (snd demo_outcome)) = [[]] \<and>
   (applied_record worker_uri demo_codec (demo_hist \<circ> fw_log) (snd demo_outcome) (demo_fetch ! 0) \<or>
      quarantined (set \<circ> fw_dead) (snd demo_outcome) (demo_fetch ! 0)) \<and>
   (applied_record worker_uri demo_codec (demo_hist \<circ> fw_log) (snd demo_outcome) (demo_fetch ! 1) \<or>
      quarantined (set \<circ> fw_dead) (snd demo_outcome) (demo_fetch ! 1))"
proof -
  have ev: "fst demo_outcome = (drop 2 demo_fetch, Some Unresolved)" "fw_committed (snd demo_outcome) (''t'', 0) = 2"
    "fw_log (snd demo_outcome) = map demo_delete [''a'', ''b'']" "map kr_value (fw_dead (snd demo_outcome)) = [[]]"
    by code_simp+
  have run: "handleFetches demo_worker fetch_env demo_codec worker_uri False demo_fetch \<lparr>fw_log = [], fw_dead = [], fw_committed = (\<lambda>_. 0)\<rparr> =
      ((fst (fst demo_outcome), snd (fst demo_outcome)), snd demo_outcome)" by (simp add: demo_outcome_def)
  have asc: "sorted_wrt (\<lambda>r s. kr_offset r < kr_offset s) (of_partition tp demo_fetch)" for tp
    by (simp add: demo_fetch_def fetched_def of_partition_def partition_of_def)
  have handle: "ke_handle fetch_env = processor_handler worker_uri fetch_applier" by (simp add: fetch_env_def)
  have all: "applied_record worker_uri demo_codec (demo_hist \<circ> fw_log) (snd demo_outcome) r \<or>
      quarantined (set \<circ> fw_dead) (snd demo_outcome) r"
    if "r \<in> set demo_fetch" "partition_of r = (''t'', 0)" "0 \<le> kr_offset r" "kr_offset r < 2" for r
    using committed_records_settled[OF fetch_applier_contract handle fetch_broker_contract demo_worker_new run asc] that ev(2) by auto
  have "demo_fetch ! 0 \<in> set demo_fetch" "demo_fetch ! 1 \<in> set demo_fetch" by (simp_all add: demo_fetch_def)
  from all[OF this(1)] all[OF this(2)] ev show ?thesis
    by (simp add: demo_fetch_def fetched_def partition_of_def)
qed

end
