(* ===== verification/Spec2Isabelle.thy ===== *)
theory Spec2Isabelle
  imports Prelude Capacity_Scope Batcher_Steps Mutation_Batches Read_Budget Failures
    Write_Answers Admission_Steps Read_Answers Kafka_Settlement
begin

text \<open>
  A verification library for the sink record service. A process of sink admits an RPC against a
  memory pool, queues it in a batcher, executes batches of reads, writes and deletes against one
  store, and returns results whose failure texts are bounded. Writes and deletes that need not be
  applied at once go through Kafka: a consumer fetches them, applies them through the synchronous
  path, and commits what is settled.

  \<^bold>\<open>Modelling conventions.\<close> A heap object shared by pointer is a cell of a list and a pointer is its
  index. A critical section is a function on the state of its component; goroutines are interleaved
  by an inductive step relation. External effects (storage, Kafka, timers, contexts that may end at
  any time) are functions of an environment record that change a world. Errors are values. Byte and
  operation counts of Go type \<open>int\<close> are \<open>int\<close>; unsigned values that can wrap are words. Strings are
  their bytes. Code outside the repository is a parameter (the URI parser of sink-go, protobuf, the
  Kafka client, the Lua engine, the JSON and BSON syntax checks) or symbolic (the error values of
  grpc-go); the parts of the Go standard library the code relies on (SHA-256, UTF-8 decoding) are
  defined.

  \<^bold>\<open>Memory and admission.\<close>
  \<^item> \<open>Capacity_Pool\<close>, \<open>Capacity_Steps\<close>: \<open>src/internal/capacity/pool.go\<close>. Every critical section of the
    pool, with \<open>Lease.Grow\<close> split where it blocks. In every reachable state the books balance, the
    reserve is lent to one owner, no waiter that fits is left queued, and closing all leases drains it.
  \<^item> \<open>Capacity_Scope\<close>: \<open>scope.go\<close> and \<open>reader.go\<close>. Scopes own leases for as long as they are referenced;
    the charged reader holds what it is charged for.
  \<^item> \<open>Admission\<close>, \<open>Admission_Steps\<close>: \<open>src/internal/service/admission.go\<close>, \<open>admission_queue.go\<close>,
    \<open>reservation.go\<close> and \<open>options.go\<close>. The calls of an admission pool as a step relation: counters are
    sums over the calls and stay within their limits, and a free pool has its first waiter awake.
  \<^item> \<open>Read_Budget\<close>: \<open>src/internal/storage/read_budget.go\<close> and \<open>src/internal/forwarding/budget.go\<close>.
    Composite byte budgets are never overdrawn.
  \<^item> \<open>Request_Budgets\<close>: \<open>request_budgets.go\<close> and \<open>write_return.go\<close>. Documents returned to a caller fit
    in its limit over any sequence of reservations and settlements.

  \<^bold>\<open>Batches.\<close>
  \<^item> \<open>Batcher\<close>, \<open>Batcher_Steps\<close>: \<open>src/internal/service/batcher.go\<close>. Batches that run at the same time
    share no record, selection is sound and does not starve the oldest call, a batch of several calls is
    within the size limits (a single call may be larger), counters balance, and a shutdown leaves no
    call behind.
  \<^item> \<open>Mutation_Batches\<close>: \<open>mutation_batches.go\<close>. The plan of waves keeps the order of calls on a record.

  \<^bold>\<open>Records.\<close>
  \<^item> \<open>Sink_API\<close>, \<open>Sha256\<close>, \<open>Protocol\<close>, \<open>Storage\<close>: the messages of the API, store routing and Lua
    declarations (\<open>src/internal/protocol/routing.go\<close>), and the storage contract with its errors.
  \<^item> \<open>Memory_Store\<close>: \<open>src/internal/storage/memory/memory.go\<close>, the in-memory store, with the round trip
    of a write and a read.
  \<^item> \<open>Write_Fold\<close>: parsing and grouping of \<open>write.go\<close> and the folding of \<open>write_group.go\<close>. A group folded
    on a snapshot and committed under its precondition acts like its operations one after the other.
  \<^item> \<open>Write_Path\<close>, \<open>Write_Answers\<close>: the execution of \<open>write.go\<close>: waves, direct puts, optimistic attempts
    with chunked reads and commits. One pass over a chunk is \<open>attempt_pass\<close>; the loop over the passes is
    the \<open>partial_function (option)\<close> \<open>attempt_loop\<close>, whose value is \<open>None\<close> when it never returns. Against
    the memory store it returns, because the groups a pass puts off are fewer than those it was given,
    and an execution that ends without an error leaves no operation unanswered.
  \<^item> \<open>Write_Completion\<close>: \<open>write_completion.go\<close>. Each call is answered once. Each record of a call that is
    answered with results is finished once; a record of a call that fails is finished at most once, when
    all of its operations were published.
  \<^item> \<open>Read_Path\<close>, \<open>Read_Answers\<close>: \<open>read.go\<close> and the coalesced reads of \<open>batching_server.go\<close>. Coalescing is
    invisible to the callers, answers are bounded, and the loop over deferred calls (again a
    \<open>partial_function (option)\<close>) ends.
  \<^item> \<open>Failures\<close>: \<open>src/internal/service/failure_budget.go\<close> and \<open>convert.go\<close>. Failure texts are short
    and valid UTF-8, and those of a caller fit in its response together, if that has room for one byte
    of text with its envelope for each of the caller's operations.

  \<^bold>\<open>Queued mutations.\<close>
  \<^item> \<open>Queue_Codec\<close>: \<open>src/internal/queue/queue.go\<close> and \<open>codec.go\<close>. Envelopes round-trip and have the
    announced size. Of protobuf it is assumed that unmarshalling inverts marshalling.
  \<^item> \<open>Mutation_Worker\<close>: \<open>src/internal/worker/processor.go\<close>. For every applier that honours the contract
    its interface documents, the mutations of a record are applied in order and nothing follows a
    retryable failure. The recursion that halves a rejected request terminates by its length.
  \<^item> \<open>Kafka_Worker\<close>, \<open>Kafka_Settlement\<close>: \<open>src/internal/queue/kafka/worker.go\<close>. Retries are structural in the
    attempts that remain and keep the order of a record; exactly the resolved prefix of each partition
    is committed and the consumer rewinds to the first retained record. A commit is cumulative: it moves
    the group's offset of a partition, and every record of the fetch that the offset moves past was
    applied or quarantined.

  \<^bold>\<open>Not modelled.\<close> Metrics, logging, time stamps and timers; generated protobuf code; the MongoDB and
  search adapters, the Kafka publisher and topic administration, native commands, queries and scans,
  and the gateway, which drive external services; the Lua engine, which is an argument of the write
  path; the entry points of writes and deletes, which chain the modelled steps, and the delete path;
  process start-up and configuration files.
\<close>

end
